(* ===== verification/Olux_Prelude.thy ===== *)
theory Olux_Prelude
  imports Main "HOL-Library.Word"
begin

text \<open>
  Shared vocabulary of the development: the integer types of include/olux/types.h, the alignment
  macros of include/olux/compiler.h, flag words, error codes, kernel panics as values, and the
  generic lemmas the component theories use.  The collections \<open>nat_word\<close> (comparison and
  arithmetic on words read as natural numbers) and \<open>flag_simps\<close> (tests on flag words) carry
  most of the word reasoning.
\<close>

unbundle bit_operations_syntax

type_synonym u8 = "8 word"
type_synonym u16 = "16 word"
type_synonym u32 = "32 word"
type_synonym u64 = "64 word"

text \<open>
  A kernel panic stops the machine.  An operation that can panic returns \<open>Inl message\<close> in that
  case and \<open>Inr result\<close> otherwise.
\<close>

type_synonym 'a kres = "string + 'a"

text \<open>The error numbers of include/olux/errno.h that the modelled operations return.\<close>

datatype errno =
    EPERM | ENOENT | ESRCH | EINTR | EIO | ENXIO | E2BIG | EBADF | EAGAIN | ENOMEM | EACCES | EFAULT
  | EBUSY | EEXIST | ENODEV | ENOTDIR | EISDIR | EINVAL | EMFILE | ENOTTY | ENOSPC | ESPIPE
  | EROFS | EPIPE | ENAMETOOLONG | ENOSYS | ENOTEMPTY | ELOOP | ETIMEDOUT | ENOTSOCK | EMSGSIZE
  | EOPNOTSUPP | ERESTARTSYS

type_synonym 'a sysres = "errno + 'a"

text \<open>Events of poll.\<close>

definition POLLIN :: u32 where "POLLIN = 0x1"
definition POLLOUT :: u32 where "POLLOUT = 0x4"
definition POLLERR :: u32 where "POLLERR = 0x8"
definition POLLHUP :: u32 where "POLLHUP = 0x10"
definition POLLRDNORM :: u32 where "POLLRDNORM = 0x40"
definition POLLWRNORM :: u32 where "POLLWRNORM = 0x100"

named_theorems nat_word \<open>words read as natural numbers\<close>
named_theorems flag_simps \<open>tests of flag words after setting and clearing flags\<close>


section \<open>Words as natural numbers\<close>

lemmas word_nat_order [nat_word] = word_le_nat_alt word_less_nat_alt

lemma unat_eq_iff [nat_word]: "x = y \<longleftrightarrow> unat x = unat y" for x y :: "'a::len word"
  by (simp add: word_unat_eq_iff)

lemma unat_add_nowrap: "unat x + unat y < 2 ^ LENGTH('a) \<Longrightarrow> unat (x + y) = unat x + unat y"
  for x y :: "'a::len word"
  by (simp add: unat_plus_if')

lemma unat_sub_nowrap: "unat y \<le> unat x \<Longrightarrow> unat (x - y) = unat x - unat y"
  for x y :: "'a::len word"
  by (simp add: unat_sub_if')

lemma u64_add: "unat x + unat y < 2 ^ 64 \<Longrightarrow> unat (x + y) = unat x + unat y" for x y :: u64
  by (simp add: unat_plus_if')

lemma u64_add_wrap: "2 ^ 64 \<le> unat x + unat y \<Longrightarrow> unat (x + y) = unat x + unat y - 2 ^ 64"
  for x y :: u64
  by (simp add: unat_plus_if')

lemma u64_bound: "unat (x :: u64) < 2 ^ 64"
  using unsigned_less [of x] by simp

lemma u64_pow2: "k < 64 \<Longrightarrow> unat ((2 :: u64) ^ k) = 2 ^ k"
proof -
  assume "k < 64"
  then have "(2 :: nat) ^ k < 2 ^ 64" by (rule power_strict_increasing) simp
  then show ?thesis using unat_of_nat [of "2 ^ k", where ?'a = 64] by simp
qed

lemma unat_min: "unat (min x y) = min (unat x) (unat y)" for x y :: "'a::len word"
  by (auto simp: min_def word_le_nat_alt)

lemma unat_max: "unat (max x y) = max (unat x) (unat y)" for x y :: "'a::len word"
  by (auto simp: max_def word_le_nat_alt)


section \<open>Alignment\<close>

text \<open>ALIGN\_UP and ALIGN\_DOWN of include/olux/compiler.h, on 64-bit values.\<close>

definition ALIGN_DOWN :: "u64 \<Rightarrow> u64 \<Rightarrow> u64" where
  "ALIGN_DOWN x a = x AND NOT (a - 1)"

definition ALIGN_UP :: "u64 \<Rightarrow> u64 \<Rightarrow> u64" where
  "ALIGN_UP x a = (x + (a - 1)) AND NOT (a - 1)"

definition PAGE_SHIFT :: nat where "PAGE_SHIFT = 12"
definition PAGE_SIZE :: u64 where "PAGE_SIZE = 4096"

lemma ALIGN_UP_DOWN: "ALIGN_UP x a = ALIGN_DOWN (x + (a - 1)) a"
  by (simp add: ALIGN_UP_def ALIGN_DOWN_def)

lemma ALIGN_DOWN_le: "ALIGN_DOWN x a \<le> x"
  by (simp add: ALIGN_DOWN_def word_and_le2)

lemma ALIGN_DOWN_pow2:
  assumes "a = 2 ^ k"
  shows "ALIGN_DOWN x a = push_bit k (drop_bit k x)"
proof -
  have "a - 1 = mask k" using assms by (simp add: mask_eq_decr_exp)
  then show ?thesis
    unfolding ALIGN_DOWN_def
    by (auto simp: bit_eq_iff bit_simps)
qed

lemma unat_ALIGN_DOWN:
  assumes "a = 2 ^ k"
  shows "unat (ALIGN_DOWN x a) = unat x - unat x mod 2 ^ k"
proof -
  have "ALIGN_DOWN x a + take_bit k x = x"
    using bits_ident [of k x] by (simp add: ALIGN_DOWN_pow2 [OF assms])
  then have eq: "ALIGN_DOWN x a = x - take_bit k x" by (metis add_diff_cancel_right')
  have "unat (take_bit k x) = unat x mod 2 ^ k"
    by (metis unsigned_take_bit_eq take_bit_eq_mod)
  then show ?thesis using eq by (simp add: unat_sub_nowrap)
qed

lemma ALIGN_DOWN_dvd: "a = 2 ^ k \<Longrightarrow> 2 ^ k dvd unat (ALIGN_DOWN x a)"
  by (simp add: unat_ALIGN_DOWN minus_mod_eq_mult_div)

lemma ALIGN_DOWN_greatest:
  assumes "a = 2 ^ k" "2 ^ k dvd unat y" "y \<le> x"
  shows "y \<le> ALIGN_DOWN x a"
proof -
  obtain m where m: "unat y = 2 ^ k * m" using assms(2) by blast
  with assms(3) have "m \<le> unat x div 2 ^ k"
    by (simp add: word_le_nat_alt less_eq_div_iff_mult_less_eq mult.commute)
  then have "2 ^ k * m \<le> 2 ^ k * (unat x div 2 ^ k)" by simp
  then show ?thesis
    by (simp add: word_le_nat_alt unat_ALIGN_DOWN [OF assms(1)] minus_mod_eq_mult_div m)
qed

lemma unat_ALIGN_UP:
  assumes "a = 2 ^ k" "k < 64" "unat x + 2 ^ k \<le> 2 ^ 64"
  shows "unat (ALIGN_UP x a) = (unat x + (2 ^ k - 1)) div 2 ^ k * 2 ^ k"
proof -
  have a1: "unat (a - 1) = 2 ^ k - 1"
    using assms(1,2) by (simp add: unat_sub_nowrap u64_pow2)
  have "unat (x + (a - 1)) = unat x + (2 ^ k - 1)"
    using assms(3) a1 by (subst u64_add) (auto simp: a1)
  then show ?thesis
    by (simp add: ALIGN_UP_DOWN unat_ALIGN_DOWN [OF assms(1)] minus_mod_eq_mult_div mult.commute)
qed

lemma PAGE_SIZE_pow2: "PAGE_SIZE = 2 ^ 12"
  by (simp add: PAGE_SIZE_def)


section \<open>Flag words\<close>

definition has_flag :: "'a::len word \<Rightarrow> 'a word \<Rightarrow> bool" where
  "has_flag f m \<longleftrightarrow> f AND m \<noteq> 0"

definition set_flag :: "'a::len word \<Rightarrow> 'a word \<Rightarrow> 'a word" where
  "set_flag f m = f OR m"

definition clear_flag :: "'a::len word \<Rightarrow> 'a word \<Rightarrow> 'a word" where
  "clear_flag f m = f AND NOT m"

lemma has_flag_zero [simp]: "\<not> has_flag 0 m"
  by (simp add: has_flag_def)

lemma has_flag_set [flag_simps]: "has_flag (set_flag f m) m' \<longleftrightarrow> has_flag f m' \<or> m AND m' \<noteq> 0"
  by (auto simp: has_flag_def set_flag_def bit_eq_iff bit_simps)

lemma has_flag_clear_same [flag_simps]: "\<not> has_flag (clear_flag f m) m"
  by (auto simp: has_flag_def clear_flag_def bit_eq_iff bit_simps)

lemma has_flag_clear_other [flag_simps]:
  "m AND m' = 0 \<Longrightarrow> has_flag (clear_flag f m) m' \<longleftrightarrow> has_flag f m'"
  by (auto simp: has_flag_def clear_flag_def bit_eq_iff bit_simps)

lemma has_flag_or [flag_simps]: "has_flag f (a OR b) \<longleftrightarrow> has_flag f a \<or> has_flag f b"
  by (auto simp: has_flag_def bit_eq_iff bit_simps)

end
