(* ===== verification/Olux_List.thy ===== *)
theory Olux_List
  imports Olux_Prelude
begin

text \<open>
  The intrusive circular doubly-linked list of include/olux/list.h.  The link fields of all nodes
  are two functions on node addresses; \<open>ring s h xs\<close> says that, starting at the head \<open>h\<close>, the
  links visit exactly the nodes \<open>xs\<close> in order and come back.  Every list operation of the header is
  shown to act on \<open>xs\<close> as the corresponding operation on HOL lists, and to leave every ring over
  other nodes alone; this is what the other theories use when they keep a kernel list as a HOL list.
\<close>

section \<open>Nodes and operations\<close>

record 'p links =
  nxt :: "'p \<Rightarrow> 'p"
  prv :: "'p \<Rightarrow> 'p"

definition list_init :: "'p \<Rightarrow> 'p links \<Rightarrow> 'p links" where
  "list_init l s = s\<lparr>nxt := (nxt s)(l := l), prv := (prv s)(l := l)\<rparr>"

definition list_empty :: "'p \<Rightarrow> 'p links \<Rightarrow> bool" where
  "list_empty l s \<longleftrightarrow> nxt s l = l"

text \<open>\<open>list_add_between\<close> is \<^verbatim>\<open>__list_add\<close>: the four stores in the order of the source.\<close>

definition list_add_between :: "'p \<Rightarrow> 'p \<Rightarrow> 'p \<Rightarrow> 'p links \<Rightarrow> 'p links" where
  "list_add_between n p q s =
     (let s1 = s\<lparr>prv := (prv s)(q := n)\<rparr>;
          s2 = s1\<lparr>nxt := (nxt s1)(n := q)\<rparr>;
          s3 = s2\<lparr>prv := (prv s2)(n := p)\<rparr>
      in s3\<lparr>nxt := (nxt s3)(p := n)\<rparr>)"

definition list_add :: "'p \<Rightarrow> 'p \<Rightarrow> 'p links \<Rightarrow> 'p links" where
  "list_add n h s = list_add_between n h (nxt s h) s"

definition list_add_tail :: "'p \<Rightarrow> 'p \<Rightarrow> 'p links \<Rightarrow> 'p links" where
  "list_add_tail n h s = list_add_between n (prv s h) h s"

definition list_del :: "'p \<Rightarrow> 'p links \<Rightarrow> 'p links" where
  "list_del e s =
     (let s1 = s\<lparr>prv := (prv s)(nxt s e := prv s e)\<rparr>;
          s2 = s1\<lparr>nxt := (nxt s1)(prv s1 e := nxt s1 e)\<rparr>
      in s2\<lparr>nxt := (nxt s2)(e := e), prv := (prv s2)(e := e)\<rparr>)"

definition list_linked :: "'p \<Rightarrow> 'p links \<Rightarrow> bool" where
  "list_linked e s \<longleftrightarrow> nxt s e \<noteq> e"

definition list_first_entry :: "'p \<Rightarrow> 'p links \<Rightarrow> 'p" where
  "list_first_entry h s = nxt s h"

text \<open>
  The \<^verbatim>\<open>list_for_each\<close> traversal from a position, with fuel: the nodes visited before the head comes
  round again, or \<open>None\<close> when the fuel runs out.
\<close>

fun list_walk :: "nat \<Rightarrow> 'p \<Rightarrow> 'p \<Rightarrow> 'p links \<Rightarrow> 'p list option" where
  "list_walk 0 h p s = None"
| "list_walk (Suc k) h p s =
     (if p = h then Some [] else map_option ((#) p) (list_walk k h (nxt s p) s))"

definition list_for_each :: "nat \<Rightarrow> 'p \<Rightarrow> 'p links \<Rightarrow> 'p list option" where
  "list_for_each k h s = list_walk k h (nxt s h) s"


section \<open>What a ring represents\<close>

fun seg :: "'p links \<Rightarrow> 'p \<Rightarrow> 'p list \<Rightarrow> 'p \<Rightarrow> bool" where
  "seg s a [] b \<longleftrightarrow> nxt s a = b \<and> prv s b = a"
| "seg s a (x # xs) b \<longleftrightarrow> nxt s a = x \<and> prv s x = a \<and> seg s x xs b"

definition ring :: "'p links \<Rightarrow> 'p \<Rightarrow> 'p list \<Rightarrow> bool" where
  "ring s h xs \<longleftrightarrow> seg s h xs h \<and> distinct (h # xs)"

lemma seg_append: "seg s a (xs @ x # ys) b \<longleftrightarrow> seg s a xs x \<and> seg s x ys b"
  by (induction xs arbitrary: a) auto

lemma seg_cong:
  assumes "seg s a xs b"
    and "\<forall>p \<in> set (a # xs). nxt s' p = nxt s p" "\<forall>p \<in> set (xs @ [b]). prv s' p = prv s p"
  shows "seg s' a xs b"
  using assms by (induction xs arbitrary: a) auto

lemma ring_split:
  "ring s h (xs @ x # ys) \<longleftrightarrow> seg s h xs x \<and> seg s x ys h \<and> distinct (h # xs @ x # ys)"
  by (auto simp: ring_def seg_append)

lemma seg_first: "seg s a (xs @ [x]) b \<Longrightarrow> nxt s x = b \<and> prv s b = x"
  by (simp add: seg_append)

lemma ring_nxt: "ring s h (x # xs) \<Longrightarrow> nxt s h = x"
  by (simp add: ring_def)

lemma ring_prv: "ring s h xs \<Longrightarrow> prv s h = (if xs = [] then h else last xs)"
  by (cases xs rule: rev_cases) (auto simp: ring_def seg_append)



lemma ring_add_after:
  assumes "ring s h (xs @ x # ys)" "n \<notin> set (h # xs @ x # ys)"
  shows "ring (list_add n x s) h (xs @ x # n # ys)"
proof -
  from assms(1) have l: "seg s h xs x" and r: "seg s x ys h" and d: "distinct (h # xs @ x # ys)"
    by (auto simp: ring_split)
  let ?q = "nxt s x" and ?s = "list_add n x s"
  have q: "?q = (case ys of [] \<Rightarrow> h | y # _ \<Rightarrow> y)" using r by (cases ys) auto
  have "seg ?s h xs x"
    by (rule seg_cong [OF l]) (use assms(2) d q in \<open>auto simp: list_add_def list_add_between_def Let_def split: list.splits\<close>)
  moreover have "nxt ?s x = n" "prv ?s n = x" "nxt ?s n = ?q" "prv ?s ?q = n"
    using assms(2) q by (auto simp: list_add_def list_add_between_def Let_def split: list.splits)
  moreover have "seg ?s n ys h"
  proof (cases ys)
    case Nil
    then show ?thesis using calculation q by simp
  next
    case (Cons y zs)
    then have "seg s y zs h" using r by simp
    then have "seg ?s y zs h"
      by (rule seg_cong) (use assms(2) d q Cons in \<open>auto simp: list_add_def list_add_between_def Let_def\<close>)
    then show ?thesis using calculation q Cons by simp
  qed
  ultimately show ?thesis using assms(2) d by (auto simp: ring_split)
qed

lemma ring_add:
  assumes "ring s h xs" "n \<notin> set (h # xs)"
  shows "ring (list_add n h s) h (n # xs)"
proof (cases xs)
  case Nil
  then show ?thesis using assms by (auto simp: ring_def list_add_def list_add_between_def Let_def)
next
  case (Cons x ys)
  then have q: "nxt s h = x" and r: "seg s x ys h" using assms(1) by (auto simp: ring_def)
  have "seg (list_add n h s) x ys h"
    by (rule seg_cong [OF r]) (use assms Cons q in \<open>auto simp: ring_def list_add_def list_add_between_def Let_def\<close>)
  then show ?thesis
    using assms Cons q by (auto simp: ring_def list_add_def list_add_between_def Let_def)
qed

lemma list_add_tail_eq: "list_add_tail n q s = list_add n (prv s q) s" if "nxt s (prv s q) = q"
  using that by (simp add: list_add_tail_def list_add_def)

lemma ring_add_tail:
  assumes "ring s h xs" "n \<notin> set (h # xs)"
  shows "ring (list_add_tail n h s) h (xs @ [n])"
proof (cases xs rule: rev_cases)
  case Nil
  then have "nxt s h = h" "prv s h = h" using assms(1) by (auto simp: ring_def)
  then have "list_add_tail n h s = list_add n h s" by (simp add: list_add_tail_eq)
  then show ?thesis using ring_add [OF assms] Nil by simp
next
  case (snoc ys y)
  then have "prv s h = y" "nxt s y = h" using assms(1) by (auto simp: ring_def seg_append)
  then have "list_add_tail n h s = list_add n y s" by (simp add: list_add_tail_eq)
  then show ?thesis using ring_add_after [of s h ys y "[]" n] assms snoc by simp
qed

lemma ring_add_before:
  assumes "ring s h (xs @ x # ys)" "n \<notin> set (h # xs @ x # ys)"
  shows "ring (list_add_tail n x s) h (xs @ n # x # ys)"
proof (cases xs rule: rev_cases)
  case Nil
  then have "prv s x = h" "nxt s h = x" using assms(1) by (auto simp: ring_def)
  then have "list_add_tail n x s = list_add n h s" by (simp add: list_add_tail_eq)
  then show ?thesis using ring_add [of s h "x # ys" n] assms Nil by simp
next
  case (snoc zs z)
  then have "prv s x = z" "nxt s z = x" using assms(1) by (auto simp: ring_def seg_append)
  then have "list_add_tail n x s = list_add n z s" by (simp add: list_add_tail_eq)
  then show ?thesis using ring_add_after [of s h zs z "x # ys" n] assms snoc by simp
qed

lemma ring_del:
  assumes "ring s h (xs @ x # ys)"
  shows "ring (list_del x s) h (xs @ ys) \<and> \<not> list_linked x (list_del x s)"
proof -
  from assms have l: "seg s h xs x" and r: "seg s x ys h" and d: "distinct (h # xs @ x # ys)"
    by (auto simp: ring_split)
  let ?p = "prv s x" and ?q = "nxt s x" and ?s = "list_del x s"
  have p: "?p = (if xs = [] then h else last xs)" using l by (cases xs rule: rev_cases) (auto simp: seg_append)
  have q: "?q = (case ys of [] \<Rightarrow> h | y # _ \<Rightarrow> y)" using r by (cases ys) auto
  have pq: "?p \<noteq> x" "?q \<noteq> x" using p q d by (auto split: list.splits if_splits)
  then have e: "nxt ?s = (nxt s)(?p := ?q, x := x)" "prv ?s = (prv s)(?q := ?p, x := x)"
    by (auto simp: list_del_def Let_def)
  have left: "xs = us @ [u] \<Longrightarrow> seg s h us u" for us u using l by (simp add: seg_append)
  have "seg ?s h (xs @ ys) h"
  proof (cases xs rule: rev_cases)
    case Nil
    show ?thesis
    proof (cases ys)
      case (Cons y zs)
      then have "seg s y zs h" using r by simp
      then have "seg ?s y zs h" by (rule seg_cong) (use d Nil Cons p q in \<open>auto simp: e\<close>)
      then show ?thesis using Nil Cons p q d by (auto simp: e)
    qed (use Nil p q d in \<open>auto simp: e\<close>)
  next
    case (snoc us u)
    have s1: "seg ?s h us u"
      by (rule seg_cong [OF left [OF snoc]]) (use d snoc p q in \<open>auto simp: e split: list.splits\<close>)
    show ?thesis
    proof (cases ys)
      case (Cons y zs)
      then have "seg s y zs h" using r by simp
      then have "seg ?s y zs h" by (rule seg_cong) (use d snoc Cons p q in \<open>auto simp: e\<close>)
      then show ?thesis using s1 snoc Cons p q d by (auto simp: e seg_append)
    qed (use s1 snoc p q d in \<open>auto simp: e seg_append\<close>)
  qed
  moreover have "\<not> list_linked x ?s" by (simp add: list_linked_def e)
  ultimately show ?thesis using d by (auto simp: ring_def)
qed


lemma ring_frame_cong:
  assumes "ring s g ys" "\<forall>p \<in> set (g # ys). nxt s' p = nxt s p \<and> prv s' p = prv s p"
  shows "ring s' g ys"
proof -
  have "seg s g ys g" using assms(1) by (simp add: ring_def)
  then have "seg s' g ys g" by (rule seg_cong) (use assms(2) in simp_all)
  then show ?thesis using assms(1) by (simp add: ring_def)
qed

lemma ring_nodes:
  assumes "ring s h xs" "p \<in> set (h # xs)"
  shows "nxt s p \<in> set (h # xs) \<and> prv s p \<in> set (h # xs)"
proof (cases "p = h")
  case True
  then show ?thesis
    using assms(1) ring_prv [OF assms(1)] by (cases xs) (auto simp: ring_def)
next
  case False
  then obtain us vs where xs: "xs = us @ p # vs" using assms(2) by (auto dest: split_list)
  have "prv s p \<in> set (h # us)"
    using assms(1) xs by (cases us rule: rev_cases) (auto simp: ring_def seg_append)
  moreover have "nxt s p \<in> set (h # vs)" using assms(1) xs by (cases vs) (auto simp: ring_split)
  ultimately show ?thesis using xs by auto
qed

lemma ring_add_tail_frame:
  assumes "ring s h xs" "ring s g ys" "set (h # xs) \<inter> set (g # ys) = {}" "n \<notin> set (g # ys)"
  shows "ring (list_add_tail n h s) g ys"
proof -
  have "prv s h \<in> set (h # xs)" "h \<in> set (h # xs)" using ring_nodes [OF assms(1), of h] by simp_all
  then have "prv s h \<notin> set (g # ys)" "h \<notin> set (g # ys)" using assms(3) by blast+
  then have "\<forall>p \<in> set (g # ys). p \<noteq> prv s h \<and> p \<noteq> h \<and> p \<noteq> n" using assms(4) by blast
  then have "\<forall>p \<in> set (g # ys). nxt (list_add_tail n h s) p = nxt s p \<and> prv (list_add_tail n h s) p = prv s p"
    by (simp add: list_add_tail_def list_add_between_def Let_def)
  then show ?thesis by (rule ring_frame_cong [OF assms(2)])
qed

lemma ring_del_frame:
  assumes "ring s h xs" "x \<in> set xs" "ring s g ys" "set (h # xs) \<inter> set (g # ys) = {}"
  shows "ring (list_del x s) g ys"
proof -
  have "nxt s x \<in> set (h # xs)" "prv s x \<in> set (h # xs)" "x \<in> set (h # xs)"
    using ring_nodes [OF assms(1), of x] assms(2) by simp_all
  then have "nxt s x \<notin> set (g # ys)" "prv s x \<notin> set (g # ys)" "x \<notin> set (g # ys)"
    using assms(4) by blast+
  then have o: "\<forall>p \<in> set (g # ys). p \<noteq> nxt s x \<and> p \<noteq> prv s x \<and> p \<noteq> x" by blast
  have px: "((prv s)(nxt s x := prv s x)) x = prv s x" by simp
  have "\<forall>p \<in> set (g # ys). nxt (list_del x s) p = nxt s p \<and> prv (list_del x s) p = prv s p"
    using o by (simp add: list_del_def Let_def px del: fun_upd_apply) simp
  then show ?thesis by (rule ring_frame_cong [OF assms(3)])
qed

lemma ring_empty_iff: "ring s h xs \<Longrightarrow> list_empty h s \<longleftrightarrow> xs = []"
  by (cases xs) (auto simp: ring_def list_empty_def)

lemma ring_init: "ring (list_init h s) h []"
  by (simp add: ring_def list_init_def)


section \<open>The list interface\<close>

text \<open>
  What the kernel's users of the header rely on: a head holds a sequence of nodes, nodes are taken
  from the front and put at the back, and lists over other nodes do not notice.
\<close>

locale node_queue =
  fixes rep :: "'s \<Rightarrow> 'p \<Rightarrow> 'p list \<Rightarrow> bool"
    and is_empty :: "'p \<Rightarrow> 's \<Rightarrow> bool"
    and front :: "'p \<Rightarrow> 's \<Rightarrow> 'p"
    and put_back :: "'p \<Rightarrow> 'p \<Rightarrow> 's \<Rightarrow> 's"
    and unlink :: "'p \<Rightarrow> 's \<Rightarrow> 's"
  assumes empty_iff: "rep s h xs \<Longrightarrow> is_empty h s \<longleftrightarrow> xs = []"
    and front_eq: "rep s h (x # xs) \<Longrightarrow> front h s = x"
    and put_back_rep: "rep s h xs \<Longrightarrow> n \<notin> set (h # xs) \<Longrightarrow> rep (put_back n h s) h (xs @ [n])"
    and unlink_rep: "rep s h (xs @ x # ys) \<Longrightarrow> rep (unlink x s) h (xs @ ys)"
    and rep_distinct: "rep s h xs \<Longrightarrow> distinct (h # xs)"
    and put_back_frame: "rep s h xs \<Longrightarrow> rep s g ys \<Longrightarrow> set (h # xs) \<inter> set (g # ys) = {} \<Longrightarrow>
      n \<notin> set (g # ys) \<Longrightarrow> rep (put_back n h s) g ys"
    and unlink_frame: "rep s h xs \<Longrightarrow> x \<in> set xs \<Longrightarrow> rep s g ys \<Longrightarrow>
      set (h # xs) \<inter> set (g # ys) = {} \<Longrightarrow> rep (unlink x s) g ys"
begin

lemma move_front:
  assumes "rep s h (x # xs)" "rep s g ys" "set (h # x # xs) \<inter> set (g # ys) = {}"
  shows "rep (put_back x g (unlink x s)) h xs" "rep (put_back x g (unlink x s)) g (ys @ [x])"
proof -
  have h: "rep (unlink x s) h xs" using unlink_rep [of s h "[]" x xs] assms(1) by simp
  have g: "rep (unlink x s) g ys" using unlink_frame [OF assms(1) _ assms(2,3)] by simp
  have d: "distinct (h # x # xs)" using rep_distinct [OF assms(1)] .
  show "rep (put_back x g (unlink x s)) g (ys @ [x])" by (rule put_back_rep [OF g]) (use assms(3) in auto)
  show "rep (put_back x g (unlink x s)) h xs"
    by (rule put_back_frame [OF g h]) (use assms(3) d in auto)
qed

end

interpretation lh: node_queue ring list_empty list_first_entry list_add_tail list_del
proof (unfold_locales, goal_cases)
  case 1 then show ?case by (rule ring_empty_iff)
next
  case 2 then show ?case by (simp add: list_first_entry_def ring_nxt)
next
  case 3 then show ?case by (rule ring_add_tail)
next
  case 4 then show ?case by (simp add: ring_del)
next
  case 5 then show ?case by (simp add: ring_def)
next
  case 6 then show ?case by (rule ring_add_tail_frame)
next
  case 7 then show ?case by (rule ring_del_frame)
qed

text \<open>
  The drain loop of \<^verbatim>\<open>chan_release\<close> in kernel/channel.c: every node of one list is unlinked and put at
  the back of another, until the first is empty.
\<close>

fun list_move_all :: "nat \<Rightarrow> 'p \<Rightarrow> 'p \<Rightarrow> 'p links \<Rightarrow> 'p links option" where
  "list_move_all 0 h g s = None"
| "list_move_all (Suc k) h g s =
     (if list_empty h s then Some s
      else let m = list_first_entry h s in list_move_all k h g (list_add_tail m g (list_del m s)))"

text \<open>
  C11: on two disjoint rings the drain loop ends after one round per node, leaves the first ring
  empty, and the second one extended by the nodes of the first in their order.
\<close>

theorem list_move_all_spec:
  assumes "ring s h xs" "ring s g ys" "set (h # xs) \<inter> set (g # ys) = {}" "length xs < k"
  shows "\<exists>s'. list_move_all k h g s = Some s' \<and> ring s' h [] \<and> ring s' g (ys @ xs)"
  using assms
proof (induction xs arbitrary: s ys k)
  case Nil
  then show ?case by (cases k) (auto simp: ring_empty_iff)
next
  case (Cons x xs)
  then obtain k' where k: "k = Suc k'" by (cases k) auto
  let ?s = "list_add_tail x g (list_del x s)"
  note mv = lh.move_front [OF Cons.prems(1-3)]
  have dj: "set (h # xs) \<inter> set (g # ys @ [x]) = {}"
    using Cons.prems(3) lh.rep_distinct [OF Cons.prems(1)] by auto
  have len: "length xs < k'" using Cons.prems(4) k by simp
  have "\<not> list_empty h s" "list_first_entry h s = x"
    using ring_empty_iff [OF Cons.prems(1)] lh.front_eq [OF Cons.prems(1)] by simp_all
  then have "list_move_all k h g s = list_move_all k' h g ?s" by (simp add: k Let_def)
  then show ?case using Cons.IH [OF mv dj len] by simp
qed

lemma list_walk_seg:
  "seg s p xs h \<Longrightarrow> h \<notin> set (p # xs) \<Longrightarrow> Suc (length xs) < k \<Longrightarrow> list_walk k h p s = Some (p # xs)"
proof (induction xs arbitrary: p k)
  case Nil
  then obtain j where "k = Suc j" by (cases k) auto
  then show ?case using Nil by (cases j) auto
next
  case (Cons x xs)
  then obtain j where "k = Suc j" by (cases k) auto
  then show ?case using Cons by auto
qed

lemma list_for_each_eq:
  assumes "ring s h xs" "length xs < k"
  shows "list_for_each k h s = Some xs"
proof (cases xs)
  case Nil
  then show ?thesis using assms by (cases k) (auto simp: ring_def list_for_each_def)
next
  case (Cons x ys)
  then have "seg s x ys h" "h \<notin> set (x # ys)" "nxt s h = x" using assms(1) by (auto simp: ring_def)
  then show ?thesis using list_walk_seg [of s x ys h k] assms(2) Cons by (simp add: list_for_each_def)
qed

text \<open>
  with fuel for one step more than there are nodes, the \<^verbatim>\<open>list_for_each\<close> traversal of a ring
  visits exactly its nodes in order, and every node it visits can be unlinked or followed by a new
  node with the effect of the HOL list operation.
\<close>

lemma list_for_each_ring:
  assumes "ring s h (xs @ x # ys)" "n \<notin> set (h # xs @ x # ys)" "Suc (length (xs @ x # ys)) < k"
  shows "list_for_each k h s = Some (xs @ x # ys) \<and>
    list_for_each k h (list_del x s) = Some (xs @ ys) \<and>
    list_for_each k h (list_add n x s) = Some (xs @ x # n # ys)"
  using list_for_each_eq [OF assms(1)] list_for_each_eq [of "list_del x s" h "xs @ ys"]
    list_for_each_eq [OF ring_add_after [OF assms(1,2)]] ring_del [OF assms(1)] assms(3)
  by simp


section \<open>Instances\<close>

text \<open>Two heads (0 and 10) and two nodes (1 and 2) linked on the first.\<close>

definition demo_links :: "nat links" where
  "demo_links = list_add_tail 2 0 (list_add_tail 1 0 (list_init 10 (list_init 0 \<lparr>nxt = id, prv = id\<rparr>)))"

lemma demo_rings: "ring demo_links 0 [1, 2]" "ring demo_links 10 []"
  by (simp_all add: demo_links_def ring_def list_init_def list_add_tail_def list_add_between_def Let_def)

theorem list_move_all_spec_witness:
  "\<exists>s'. list_move_all 5 0 10 demo_links = Some s' \<and> ring s' 0 [] \<and> ring s' 10 [1, 2]"
  using list_move_all_spec [OF demo_rings, of 5] by simp

end
