(* ===== verification/Olux_Memblock.thy ===== *)
theory Olux_Memblock
  imports Olux_Prelude
begin

text \<open>
  Early physical memory bookkeeping (mm/memblock.c): the sorted lists of RAM regions and of
  reserved regions, insertion with merging of overlapping and adjacent regions, and the top-down
  allocator that avoids reserved ranges.  A \<^verbatim>\<open>struct region_list\<close> is the HOL list of its first
  \<^verbatim>\<open>n\<close> array entries.  Addresses are 64-bit words, so every sum wraps as in the source; the
  lemmas state where wrapping is excluded.
\<close>

section \<open>Regions and lists of regions\<close>

record memblock_region =
  rbase :: u64
  rsize :: u64

definition rend :: "memblock_region \<Rightarrow> u64" where
  "rend r = rbase r + rsize r"

definition MEMBLOCK_MAX :: nat where "MEMBLOCK_MAX = 64"

record memblock =
  memory :: "memblock_region list"
  reserved :: "memblock_region list"

text \<open>The merging loop of \<^verbatim>\<open>insert\<close>: one pass that absorbs every region touching the new range.\<close>

fun insert_merge :: "memblock_region list \<Rightarrow> u64 \<Rightarrow> u64 \<Rightarrow> memblock_region list \<times> u64 \<times> u64" where
  "insert_merge [] base e = ([], base, e)"
| "insert_merge (r # rs) base e =
     (if rend r < base \<or> e < rbase r
      then (case insert_merge rs base e of (rs', base', e') \<Rightarrow> (r # rs', base', e'))
      else insert_merge rs (min base (rbase r)) (max e (rend r)))"

text \<open>The second loop: the new region goes before the first one whose base is not smaller.\<close>

fun insert_place :: "memblock_region list \<Rightarrow> memblock_region \<Rightarrow> memblock_region list" where
  "insert_place [] n = [n]"
| "insert_place (r # rs) n = (if rbase r < rbase n then r # insert_place rs n else n # r # rs)"

definition mb_insert :: "memblock_region list \<Rightarrow> u64 \<Rightarrow> u64 \<Rightarrow> memblock_region list kres" where
  "mb_insert l base sz =
     (if sz = 0 then Inr l
      else case insert_merge l base (base + sz) of (l', base', e') \<Rightarrow>
        if length l' = MEMBLOCK_MAX then Inl ''memblock: too many regions''
        else Inr (insert_place l' \<lparr>rbase = base', rsize = e' - base'\<rparr>))"

definition memblock_add :: "memblock \<Rightarrow> u64 \<Rightarrow> u64 \<Rightarrow> memblock kres" where
  "memblock_add mb base sz =
     (let b = ALIGN_UP base PAGE_SIZE; e = ALIGN_DOWN (base + sz) PAGE_SIZE in
      if b < e
      then map_sum id (\<lambda>l. mb\<lparr>memory := l\<rparr>) (mb_insert (memory mb) b (e - b))
      else Inr mb)"

definition memblock_reserve :: "memblock \<Rightarrow> u64 \<Rightarrow> u64 \<Rightarrow> memblock kres" where
  "memblock_reserve mb base sz =
     (let b = ALIGN_DOWN base PAGE_SIZE; e = ALIGN_UP (base + sz) PAGE_SIZE in
      map_sum id (\<lambda>l. mb\<lparr>reserved := l\<rparr>) (mb_insert (reserved mb) b (e - b)))"

definition memblock_is_reserved :: "memblock \<Rightarrow> u64 \<Rightarrow> bool" where
  "memblock_is_reserved mb pa =
     list_ex (\<lambda>r. rbase r \<le> pa \<and> pa - rbase r < rsize r) (reserved mb)"


section \<open>Top-down allocation\<close>

definition conflicts :: "u64 \<Rightarrow> u64 \<Rightarrow> memblock_region \<Rightarrow> bool" where
  "conflicts cand sz r \<longleftrightarrow> cand < rend r \<and> rbase r < cand + sz"

lemma conflict_decreases:
  assumes "conflicts cand sz r" "sz \<le> rbase r"
  shows "rbase r - sz < cand"
  using assms by (simp add: conflicts_def) unat_arith

text \<open>
  The \<^verbatim>\<open>while (cand >= lo)\<close> loop over one memory region.  A conflicting candidate moves below the
  first conflicting region, so the loop terminates for every input.
\<close>

function alloc_scan :: "memblock_region list \<Rightarrow> u64 \<Rightarrow> u64 \<Rightarrow> u64 \<Rightarrow> u64 \<Rightarrow> u64 option" where
  "alloc_scan rs lo sz align cand =
     (if cand < lo then None
      else case find (conflicts cand sz) rs of
             None \<Rightarrow> Some cand
           | Some r \<Rightarrow>
               if rbase r < sz then None
               else alloc_scan rs lo sz align (ALIGN_DOWN (rbase r - sz) align))"
  by pat_completeness auto
termination
proof (relation "measure (\<lambda>(rs, lo, sz, align, cand). unat cand)")
  show "wf (measure (\<lambda>(rs :: memblock_region list, lo :: u64, sz :: u64, align :: u64, cand :: u64).
    unat cand))" by simp
next
  fix rs and lo sz align cand :: u64 and r
  assume "find (conflicts cand sz) rs = Some r" "\<not> rbase r < sz"
  then have "rbase r - sz < cand"
    by (auto simp: find_Some_iff intro: conflict_decreases)
  then have "ALIGN_DOWN (rbase r - sz) align < cand"
    using ALIGN_DOWN_le order_le_less_trans by blast
  then show "((rs, lo, sz, align, ALIGN_DOWN (rbase r - sz) align), (rs, lo, sz, align, cand))
      \<in> measure (\<lambda>(rs, lo, sz, align, cand). unat cand)"
    by (simp add: word_less_nat_alt)
qed

declare alloc_scan.simps [simp del]

text \<open>The loop over the memory regions from the highest to the lowest.\<close>

fun alloc_regions ::
  "memblock_region list \<Rightarrow> memblock_region list \<Rightarrow> u64 \<Rightarrow> u64 \<Rightarrow> u64 \<Rightarrow> u64 option" where
  "alloc_regions [] rs sz align limit = None"
| "alloc_regions (m # ms) rs sz align limit =
     (let lo = rbase m; hi = min (rend m) limit in
      if hi \<le> lo \<or> hi - lo < sz then alloc_regions ms rs sz align limit
      else case alloc_scan rs lo sz align (ALIGN_DOWN (hi - sz) align) of
             Some c \<Rightarrow> Some c
           | None \<Rightarrow> alloc_regions ms rs sz align limit)"

definition memblock_alloc :: "memblock \<Rightarrow> u64 \<Rightarrow> u64 \<Rightarrow> u64 \<Rightarrow> (u64 \<times> memblock) kres" where
  "memblock_alloc mb sz0 align limit =
     (let sz = ALIGN_UP sz0 PAGE_SIZE in
      case alloc_regions (rev (memory mb)) (reserved mb) sz align limit of
        Some cand \<Rightarrow> map_sum id (\<lambda>mb'. (cand, mb')) (memblock_reserve mb cand sz)
      | None \<Rightarrow> Inr (0, mb))"

definition memblock_start :: "memblock \<Rightarrow> u64" where
  "memblock_start mb = (case memory mb of [] \<Rightarrow> 0 | r # _ \<Rightarrow> rbase r)"

definition memblock_end :: "memblock \<Rightarrow> u64" where
  "memblock_end mb = (if memory mb = [] then 0 else rend (last (memory mb)))"

definition memblock_total :: "memblock \<Rightarrow> u64" where
  "memblock_total mb = foldl (\<lambda>t r. t + rsize r) 0 (memory mb)"


section \<open>Well-formed region lists and the addresses they cover\<close>

definition lo_of :: "memblock_region \<Rightarrow> nat" where
  "lo_of r = unat (rbase r)"

definition hi_of :: "memblock_region \<Rightarrow> nat" where
  "hi_of r = unat (rbase r) + unat (rsize r)"

definition wf_region :: "memblock_region \<Rightarrow> bool" where
  "wf_region r \<longleftrightarrow> 0 < unat (rsize r) \<and> hi_of r < 2 ^ 64"

definition wf_regions :: "memblock_region list \<Rightarrow> bool" where
  "wf_regions l \<longleftrightarrow> length l \<le> MEMBLOCK_MAX \<and> (\<forall>r \<in> set l. wf_region r) \<and>
     sorted_wrt (\<lambda>r s. hi_of r < lo_of s) l"

definition span_of :: "memblock_region \<Rightarrow> nat set" where
  "span_of r = {lo_of r ..< hi_of r}"

definition cover :: "memblock_region list \<Rightarrow> nat set" where
  "cover l = (\<Union>r \<in> set l. span_of r)"

lemma cover_simps [simp]: "cover [] = {}" "cover (r # l) = span_of r \<union> cover l"
  by (auto simp: cover_def)

lemma unat_rend [simp]: "wf_region r \<Longrightarrow> unat (rend r) = hi_of r"
  by (simp add: wf_region_def hi_of_def rend_def u64_add)

lemma unat_rbase: "unat (rbase r) = lo_of r"
  by (simp add: lo_of_def)

lemma wf_region_lo_hi: "wf_region r \<Longrightarrow> lo_of r < hi_of r"
  by (simp add: wf_region_def lo_of_def hi_of_def)

lemma insert_merge_beyond:
  "\<forall>r \<in> set l. unat e < lo_of r \<Longrightarrow> insert_merge l b e = (l, b, e)"
  by (induction l) (auto simp: word_less_nat_alt lo_of_def)

text \<open>
  What the merging pass leaves: the kept regions are regions of the input, none touches the grown
  range, and together they cover exactly what was covered before.
\<close>

lemma insert_merge_spec:
  assumes "insert_merge l b e = (l', b', e')"
    and "sorted_wrt (\<lambda>r s. hi_of r < lo_of s) l" "\<forall>r \<in> set l. wf_region r" "unat b < unat e"
  shows "set l' \<subseteq> set l \<and> sorted_wrt (\<lambda>r s. hi_of r < lo_of s) l' \<and> length l' \<le> length l \<and>
    unat b' \<le> unat b \<and> unat e \<le> unat e' \<and>
    (unat b' = unat b \<or> (\<exists>r \<in> set l. unat b' = lo_of r)) \<and>
    (\<forall>r \<in> set l'. hi_of r < unat b' \<or> unat e' < lo_of r) \<and>
    cover l' \<union> {unat b' ..< unat e'} = cover l \<union> {unat b ..< unat e}"
  using assms
proof (induction l arbitrary: b e l' b' e')
  case Nil
  then show ?case by simp
next
  case (Cons r rs)
  from Cons.prems(2,3) have srt: "sorted_wrt (\<lambda>r s. hi_of r < lo_of s) rs"
    and later: "\<forall>s \<in> set rs. hi_of r < lo_of s"
    and wfr: "wf_region r" and wfrs: "\<forall>s \<in> set rs. wf_region s" by auto
  show ?case
  proof (cases "rend r < b \<or> e < rbase r")
    case True
    then obtain rs' where m: "insert_merge rs b e = (rs', b', e')" and l': "l' = r # rs'"
      using Cons.prems(1) by (auto split: prod.splits)
    note IH = Cons.IH [OF m srt wfrs Cons.prems(4)]
    from True wfr have sep: "hi_of r < unat b \<or> unat e < lo_of r"
      by (auto simp: word_less_nat_alt lo_of_def)
    have "hi_of r < unat b' \<or> unat e' < lo_of r"
    proof (cases "hi_of r < unat b")
      case True
      then show ?thesis using IH later by auto
    next
      case False
      with sep have "unat e < lo_of r" by simp
      then have "\<forall>s \<in> set rs. unat e < lo_of s"
        using later wf_region_lo_hi [OF wfr] by (auto intro: less_trans)
      then have "e' = e" using insert_merge_beyond [of rs e b] m by simp
      then show ?thesis using \<open>unat e < lo_of r\<close> by simp
    qed
    then show ?thesis using IH later l' by auto
  next
    case False
    then have m: "insert_merge rs (min b (rbase r)) (max e (rend r)) = (l', b', e')"
      using Cons.prems(1) by simp
    from False wfr have touch: "unat b \<le> hi_of r" "lo_of r \<le> unat e"
      by (auto simp: word_less_nat_alt lo_of_def)
    have ub: "unat (min b (rbase r)) = min (unat b) (lo_of r)"
      and ue: "unat (max e (rend r)) = max (unat e) (hi_of r)"
      using wfr by (simp_all add: unat_min unat_max lo_of_def)
    have lt: "unat (min b (rbase r)) < unat (max e (rend r))"
      using Cons.prems(4) ub ue by simp
    have span: "{min (unat b) (lo_of r) ..< max (unat e) (hi_of r)} = {unat b ..< unat e} \<union> span_of r"
      using touch Cons.prems(4) wf_region_lo_hi [OF wfr] by (auto simp: span_of_def)
    note IH = Cons.IH [OF m srt wfrs lt, unfolded ub ue span]
    then show ?thesis by (auto simp: min_def split: if_splits)
  qed
qed

lemma set_insert_place [simp]: "set (insert_place l n) = insert n (set l)"
  by (induction l) auto

lemma length_insert_place [simp]: "length (insert_place l n) = Suc (length l)"
  by (induction l) auto

lemma cover_insert_place [simp]: "cover (insert_place l n) = span_of n \<union> cover l"
  by (auto simp: cover_def)

lemma sorted_insert_place:
  assumes "sorted_wrt (\<lambda>r s. hi_of r < lo_of s) l" "wf_region n"
    and "\<forall>r \<in> set l. wf_region r \<and> (hi_of r < lo_of n \<or> hi_of n < lo_of r)"
  shows "sorted_wrt (\<lambda>r s. hi_of r < lo_of s) (insert_place l n)"
  using assms
proof (induction l)
  case (Cons r rs)
  then have r: "wf_region r" "hi_of r < lo_of n \<or> hi_of n < lo_of r" by auto
  note lh = wf_region_lo_hi [OF r(1)] wf_region_lo_hi [OF assms(2)]
  show ?case
  proof (cases "rbase r < rbase n")
    case True
    then have "hi_of r < lo_of n" using r lh by (auto simp: word_less_nat_alt lo_of_def)
    then show ?thesis using True Cons by auto
  next
    case False
    then have "hi_of n < lo_of r" using r lh by (auto simp: word_less_nat_alt lo_of_def)
    moreover have "\<forall>s \<in> set rs. hi_of n < lo_of s"
      using calculation lh Cons.prems(1) by (auto intro: less_trans)
    ultimately show ?thesis using False Cons.prems by auto
  qed
qed simp

lemma mb_insert_spec:
  assumes "wf_regions l" "0 < unat sz" "unat base + unat sz < 2 ^ 64" "mb_insert l base sz = Inr l'"
  shows "wf_regions l' \<and> cover l' = cover l \<union> {unat base ..< unat base + unat sz}"
proof -
  obtain m b e where me: "insert_merge l base (base + sz) = (m, b, e)" by (metis prod_cases3)
  have ue: "unat (base + sz) = unat base + unat sz" by (rule u64_add) (rule assms(3))
  have sz0: "sz \<noteq> 0" using assms(2) by auto
  note ms = insert_merge_spec [OF me, unfolded ue] 
  have srt: "sorted_wrt (\<lambda>r s. hi_of r < lo_of s) l" "\<forall>r \<in> set l. wf_region r" "length l \<le> MEMBLOCK_MAX"
    using assms(1) by (auto simp: wf_regions_def)
  note spec = ms [OF srt(1,2)]
  let ?n = "\<lparr>rbase = b, rsize = e - b\<rparr>"
  from assms(4) sz0 me have len: "length m \<noteq> MEMBLOCK_MAX" and l': "l' = insert_place m ?n"
    by (auto simp: mb_insert_def split: if_splits)
  from spec assms(2) have be: "unat b < unat e" by simp
  then have dn: "lo_of ?n = unat b" "hi_of ?n = unat e"
    by (simp_all add: lo_of_def hi_of_def unat_sub_nowrap)
  have wfn: "wf_region ?n"
    using be u64_bound [of e] unfolding wf_region_def dn by (simp add: unat_sub_nowrap)
  have "sorted_wrt (\<lambda>r s. hi_of r < lo_of s) l'"
    unfolding l' using spec assms(2) srt(2) wfn dn by (intro sorted_insert_place) auto
  then show ?thesis
    using spec assms(2) srt len wfn dn unfolding l' wf_regions_def by (auto simp: span_of_def)
qed


section \<open>The exported operations\<close>

definition wf_memblock :: "memblock \<Rightarrow> bool" where
  "wf_memblock mb \<longleftrightarrow> wf_regions (memory mb) \<and> wf_regions (reserved mb)"

lemma wf_memblockD:
  assumes "wf_memblock mb"
  shows "r \<in> set (memory mb) \<Longrightarrow> wf_region r" "r \<in> set (reserved mb) \<Longrightarrow> wf_region r"
  using assms by (auto simp: wf_memblock_def wf_regions_def)

lemma page_floor: "unat (ALIGN_DOWN x PAGE_SIZE) = unat x - unat x mod 4096"
  using unat_ALIGN_DOWN [OF PAGE_SIZE_pow2] by simp

lemma page_ceil:
  assumes "unat x + 4096 \<le> 2 ^ 64"
  shows "unat (ALIGN_UP x PAGE_SIZE) = (unat x + 4095) div 4096 * 4096"
  using unat_ALIGN_UP [OF PAGE_SIZE_pow2] assms by simp

text \<open>
  adding a RAM bank keeps the memory list sorted, disjoint and non-adjacent, and the list then
  covers in addition exactly the whole pages that lie inside the bank; the reserved list is
  untouched.
\<close>

lemma memblock_add_spec:
  assumes "wf_memblock mb" "unat base + unat sz + 4096 \<le> 2 ^ 64" "memblock_add mb base sz = Inr mb'"
  shows "wf_memblock mb' \<and> reserved mb' = reserved mb \<and>
    cover (memory mb') = cover (memory mb) \<union>
      {(unat base + 4095) div 4096 * 4096 ..< (unat base + unat sz) div 4096 * 4096}"
proof -
  let ?b = "ALIGN_UP base PAGE_SIZE" and ?e = "ALIGN_DOWN (base + sz) PAGE_SIZE"
  have sum: "unat (base + sz) = unat base + unat sz" using assms(2) by (simp add: u64_add)
  have b: "unat ?b = (unat base + 4095) div 4096 * 4096" using assms(2) by (simp add: page_ceil)
  have e: "unat ?e = (unat base + unat sz) div 4096 * 4096"
    using sum by (simp add: page_floor minus_mod_eq_mult_div mult.commute)
  show ?thesis
  proof (cases "?b < ?e")
    case True
    then have lt: "unat ?b < unat ?e" by (simp add: word_less_nat_alt)
    then have d: "unat (?e - ?b) = unat ?e - unat ?b" by (simp add: unat_sub_nowrap)
    obtain l' where l': "mb_insert (memory mb) ?b (?e - ?b) = Inr l'" "mb' = mb\<lparr>memory := l'\<rparr>"
      using assms(3) True by (auto simp: memblock_add_def Let_def map_sum_def split: sum.splits)
    have "wf_regions l' \<and> cover l' = cover (memory mb) \<union> {unat ?b ..< unat ?b + unat (?e - ?b)}"
      using assms(1) lt d u64_bound [of ?e] by (intro mb_insert_spec [OF _ _ _ l'(1)]) (auto simp: wf_memblock_def)
    then show ?thesis using l'(2) lt d b e assms(1) by (simp add: wf_memblock_def)
  next
    case False
    then have "unat ?e \<le> unat ?b" by (simp add: word_less_nat_alt)
    then show ?thesis using False assms(1,3) b e by (simp add: memblock_add_def Let_def)
  qed
qed

lemma memblock_reserve_spec:
  assumes "wf_memblock mb" "unat base + unat sz + 4096 \<le> 2 ^ 64" "0 < unat sz"
    and "memblock_reserve mb base sz = Inr mb'"
  shows "wf_memblock mb' \<and> memory mb' = memory mb \<and>
    cover (reserved mb') = cover (reserved mb) \<union>
      {unat base div 4096 * 4096 ..< (unat base + unat sz + 4095) div 4096 * 4096}"
proof -
  let ?b = "ALIGN_DOWN base PAGE_SIZE" and ?e = "ALIGN_UP (base + sz) PAGE_SIZE"
  have sum: "unat (base + sz) = unat base + unat sz" using assms(2) by (simp add: u64_add)
  have b: "unat ?b = unat base div 4096 * 4096"
    by (simp add: page_floor minus_mod_eq_mult_div mult.commute)
  have e: "unat ?e = (unat base + unat sz + 4095) div 4096 * 4096"
    using assms(2) sum by (simp add: page_ceil)
  have lt: "unat ?b < unat ?e" using assms(3) unfolding b e by simp
  then have d: "unat (?e - ?b) = unat ?e - unat ?b" by (simp add: unat_sub_nowrap)
  obtain l' where l': "mb_insert (reserved mb) ?b (?e - ?b) = Inr l'" "mb' = mb\<lparr>reserved := l'\<rparr>"
    using assms(4) by (auto simp: memblock_reserve_def Let_def map_sum_def split: sum.splits)
  have "wf_regions l' \<and> cover l' = cover (reserved mb) \<union> {unat ?b ..< unat ?b + unat (?e - ?b)}"
    using assms(1) lt d u64_bound [of ?e] by (intro mb_insert_spec [OF _ _ _ l'(1)]) (auto simp: wf_memblock_def)
  then show ?thesis using l'(2) lt d b e assms(1) by (simp add: wf_memblock_def)
qed

lemma memblock_is_reserved_iff:
  assumes "wf_memblock mb"
  shows "memblock_is_reserved mb pa \<longleftrightarrow> unat pa \<in> cover (reserved mb)"
proof -
  have "(rbase r \<le> pa \<and> pa - rbase r < rsize r) \<longleftrightarrow> unat pa \<in> span_of r"
    if "r \<in> set (reserved mb)" for r
    using wf_memblockD(2) [OF assms that]
    by (auto simp: span_of_def lo_of_def hi_of_def word_le_nat_alt word_less_nat_alt unat_sub_nowrap)
  then show ?thesis by (auto simp: memblock_is_reserved_def list_ex_iff cover_def)
qed


lemma page_room:
  fixes x :: nat
  assumes "4096 dvd x" "x < 2 ^ 64"
  shows "x + 4096 \<le> 2 ^ 64"
proof -
  obtain q where q: "x = 4096 * q" using assms(1) by blast
  then have "q < 2 ^ 52" using assms(2) by simp
  then show ?thesis unfolding q by simp
qed

lemma page_ceil_id: "4096 dvd x \<Longrightarrow> (x + 4095) div 4096 * 4096 = x" for x :: nat
  by (auto simp: dvd_def)

lemma conflicts_iff:
  assumes "wf_region r" "unat c + unat sz < 2 ^ 64"
  shows "conflicts c sz r \<longleftrightarrow> unat c < hi_of r \<and> lo_of r < unat c + unat sz"
  using assms by (simp add: conflicts_def word_less_nat_alt u64_add unat_rbase)

lemma no_conflict_disjoint:
  assumes "\<forall>r \<in> set rs. wf_region r" "unat c + unat sz < 2 ^ 64" "\<forall>r \<in> set rs. \<not> conflicts c sz r"
  shows "{unat c ..< unat c + unat sz} \<inter> cover rs = {}"
  using assms by (auto simp: cover_def span_of_def conflicts_iff)

lemma conflict_meets:
  assumes "wf_region r" "r \<in> set rs" "unat c + unat sz < 2 ^ 64" "conflicts c sz r" "0 < unat sz"
  shows "{unat c ..< unat c + unat sz} \<inter> cover rs \<noteq> {}"
proof -
  from assms have h: "unat c < hi_of r" "lo_of r < unat c + unat sz" by (auto simp: conflicts_iff)
  let ?x = "max (unat c) (lo_of r)"
  have "?x \<in> {unat c ..< unat c + unat sz}" using h assms(5) by auto
  moreover have "?x \<in> span_of r" using h wf_region_lo_hi [OF assms(1)] by (auto simp: span_of_def)
  then have "?x \<in> cover rs" using assms(2) by (auto simp: cover_def)
  ultimately show ?thesis by blast
qed

lemma alloc_scan_Some:
  assumes "alloc_scan rs lo sz align cand = Some c" "align = 2 ^ k" "2 ^ k dvd unat cand"
  shows "lo \<le> c \<and> c \<le> cand \<and> 2 ^ k dvd unat c \<and> (\<forall>r \<in> set rs. \<not> conflicts c sz r)"
  using assms
proof (induction rs lo sz align cand rule: alloc_scan.induct)
  case (1 rs lo sz align cand)
  show ?case
  proof (cases "find (conflicts cand sz) rs")
    case None
    then have "alloc_scan rs lo sz align cand = (if cand < lo then None else Some cand)"
      by (simp add: alloc_scan.simps [of rs lo sz align cand])
    then show ?thesis using "1.prems" None by (auto simp: find_None_iff split: if_splits)
  next
    case (Some r)
    then have nb: "\<not> cand < lo" "\<not> rbase r < sz"
      and rc: "alloc_scan rs lo sz align (ALIGN_DOWN (rbase r - sz) align) = Some c"
      using "1.prems"(1) by (auto simp: alloc_scan.simps [of rs lo sz align cand] split: if_splits)
    have "ALIGN_DOWN (rbase r - sz) align \<le> cand"
      using Some nb conflict_decreases [of cand sz r] ALIGN_DOWN_le [of "rbase r - sz" align]
      by (auto simp: find_Some_iff not_less)
    then show ?thesis
      using "1.IH" [OF nb(1) Some nb(2) rc "1.prems"(2)] ALIGN_DOWN_dvd [OF "1.prems"(2)]
      by auto
  qed
qed

text \<open>The scan skips no aligned position of the region that would have fitted.\<close>

lemma alloc_scan_None:
  assumes "alloc_scan rs lo sz align cand = None" "align = 2 ^ k" "\<forall>r \<in> set rs. wf_region r"
    and "unat cand + unat sz < 2 ^ 64" "lo \<le> c" "c \<le> cand" "2 ^ k dvd unat c"
  shows "\<exists>r \<in> set rs. conflicts c sz r"
  using assms
proof (induction rs lo sz align cand rule: alloc_scan.induct)
  case (1 rs lo sz align cand)
  from "1.prems"(5,6) have lo: "\<not> cand < lo" by auto
  then obtain r where fr: "find (conflicts cand sz) rs = Some r"
    using "1.prems"(1) by (auto simp: alloc_scan.simps [of rs lo sz align cand] split: option.splits)
  then have r: "r \<in> set rs" "conflicts cand sz r" by (auto simp: find_Some_iff)
  then have wfr: "wf_region r" and hit: "unat cand < hi_of r" "lo_of r < unat cand + unat sz"
    using "1.prems"(3,4) by (auto simp: conflicts_iff)
  have cle: "unat c \<le> unat cand" using "1.prems"(6) by (simp add: word_le_nat_alt)
  show ?case
  proof (cases "lo_of r < unat c + unat sz")
    case True
    then have "conflicts c sz r" using wfr hit cle "1.prems"(4) by (subst conflicts_iff) auto
    then show ?thesis using r(1) by blast
  next
    case False
    then have nb: "\<not> rbase r < sz" by (simp add: word_less_nat_alt unat_rbase)
    let ?c' = "ALIGN_DOWN (rbase r - sz) align"
    have rc: "alloc_scan rs lo sz align ?c' = None"
      using "1.prems"(1) lo fr nb by (simp add: alloc_scan.simps [of rs lo sz align cand])
    have sub: "unat (rbase r - sz) = lo_of r - unat sz"
      using False by (simp add: unat_sub_nowrap unat_rbase)
    then have "c \<le> rbase r - sz" using False by (simp add: word_le_nat_alt)
    then have cc: "c \<le> ?c'" by (rule ALIGN_DOWN_greatest [OF "1.prems"(2,7)])
    have "unat ?c' \<le> lo_of r - unat sz"
      using ALIGN_DOWN_le [of "rbase r - sz" align] sub by (simp add: word_le_nat_alt)
    then have "unat ?c' + unat sz < 2 ^ 64"
      using False wf_region_lo_hi [OF wfr] wfr [unfolded wf_region_def] by linarith
    then show ?thesis
      using "1.IH" [OF lo fr nb rc "1.prems"(2,3) _ "1.prems"(5) cc "1.prems"(7)] by simp
  qed
qed

definition fits :: "memblock_region \<Rightarrow> u64 \<Rightarrow> nat \<Rightarrow> nat \<Rightarrow> bool" where
  "fits m limit n c \<longleftrightarrow> lo_of m \<le> c \<and> c + n \<le> min (hi_of m) (unat limit)"

lemma region_window:
  assumes "wf_region m" "\<not> (min (rend m) limit \<le> rbase m \<or> min (rend m) limit - rbase m < sz)"
  shows "unat (min (rend m) limit - sz) = min (hi_of m) (unat limit) - unat sz"
    "lo_of m + unat sz \<le> min (hi_of m) (unat limit)"
proof -
  have u: "unat (min (rend m) limit) = min (hi_of m) (unat limit)" using assms(1) by (simp add: unat_min)
  have lt: "lo_of m < min (hi_of m) (unat limit)"
    using assms(2) u by (auto simp: word_le_nat_alt unat_rbase)
  then have "unat (min (rend m) limit - rbase m) = min (hi_of m) (unat limit) - lo_of m"
    using u by (simp add: unat_sub_nowrap unat_rbase)
  then have sz: "unat sz \<le> min (hi_of m) (unat limit) - lo_of m"
    using assms(2) by (simp add: word_less_nat_alt)
  then show "unat (min (rend m) limit - sz) = min (hi_of m) (unat limit) - unat sz"
    "lo_of m + unat sz \<le> min (hi_of m) (unat limit)"
    using u lt sz unat_sub_nowrap [of sz "min (rend m) limit"] by simp_all linarith+
qed

lemma alloc_regions_Some:
  assumes "alloc_regions ms rs sz align limit = Some c" "align = 2 ^ k" "\<forall>m \<in> set ms. wf_region m"
  shows "\<exists>m \<in> set ms. fits m limit (unat sz) (unat c) \<and> 2 ^ k dvd unat c \<and>
    (\<forall>r \<in> set rs. \<not> conflicts c sz r)"
  using assms
proof (induction ms)
  case (Cons m ms)
  let ?hi = "min (rend m) limit"
  show ?case
  proof (cases "?hi \<le> rbase m \<or> ?hi - rbase m < sz")
    case False
    note w = region_window [OF _ False]
    show ?thesis
    proof (cases "alloc_scan rs (rbase m) sz align (ALIGN_DOWN (?hi - sz) align)")
      case (Some c')
      then have "c' = c" using Cons.prems(1) False by (simp add: Let_def)
      note sc = alloc_scan_Some [OF Some Cons.prems(2) ALIGN_DOWN_dvd [OF Cons.prems(2)]]
      have "c' \<le> ?hi - sz" using sc ALIGN_DOWN_le [of "?hi - sz" align] by auto
      then have "unat c' \<le> min (hi_of m) (unat limit) - unat sz" using w Cons.prems(3) by (simp add: word_le_nat_alt)
      then show ?thesis
        using sc w Cons.prems(3) \<open>c' = c\<close> by (auto simp: fits_def word_le_nat_alt unat_rbase)
    qed (use Cons False in \<open>auto simp: Let_def\<close>)
  qed (use Cons in \<open>auto simp: Let_def\<close>)
qed simp

lemma alloc_regions_None:
  assumes "alloc_regions ms rs sz align limit = None" "align = 2 ^ k" "\<forall>m \<in> set ms. wf_region m"
    and "\<forall>r \<in> set rs. wf_region r" "m \<in> set ms" "fits m limit (unat sz) (unat c)" "2 ^ k dvd unat c"
    and "0 < unat sz"
  shows "\<exists>r \<in> set rs. conflicts c sz r"
  using assms
proof (induction ms)
  case (Cons m' ms)
  let ?hi = "min (rend m') limit"
  have rest: "alloc_regions ms rs sz align limit = None"
    using Cons.prems(1) by (auto simp: Let_def split: if_splits option.splits)
  show ?case
  proof (cases "m = m'")
    case True
    have wfm: "wf_region m'" using Cons.prems(3) by simp
    have uhi: "unat ?hi = min (hi_of m') (unat limit)" using wfm by (simp add: unat_min)
    have nb: "\<not> (?hi \<le> rbase m' \<or> ?hi - rbase m' < sz)"
      using Cons.prems(6,8) True uhi
      by (auto simp: fits_def word_le_nat_alt word_less_nat_alt unat_sub_nowrap unat_rbase)
    note w = region_window [OF wfm nb]
    have sc: "alloc_scan rs (rbase m') sz align (ALIGN_DOWN (?hi - sz) align) = None"
      using Cons.prems(1) nb by (auto simp: Let_def split: option.splits)
    have "c \<le> ?hi - sz" using Cons.prems(6) True w by (auto simp: fits_def word_le_nat_alt)
    then have "c \<le> ALIGN_DOWN (?hi - sz) align" by (rule ALIGN_DOWN_greatest [OF Cons.prems(2,7)])
    moreover have "rbase m' \<le> c" using Cons.prems(6) True by (simp add: fits_def word_le_nat_alt unat_rbase)
    moreover have "unat (ALIGN_DOWN (?hi - sz) align) + unat sz < 2 ^ 64"
      using ALIGN_DOWN_le [of "?hi - sz" align, unfolded word_le_nat_alt w(1)] w(2)
        wfm [unfolded wf_region_def] by linarith
    ultimately show ?thesis using alloc_scan_None [OF sc Cons.prems(2,4)] Cons.prems(7) by blast
  qed (use Cons rest in auto)
qed simp

lemma memblock_alloc_result:
  assumes "wf_memblock mb" "align = 2 ^ k" "12 \<le> k" "0 < unat sz0" "unat sz0 + 4096 \<le> 2 ^ 64"
    and "memblock_alloc mb sz0 align limit = Inr (pa, mb')" "pa \<noteq> 0"
  shows "\<exists>m \<in> set (memory mb). \<exists>n. n = (unat sz0 + 4095) div 4096 * 4096 \<and>
    fits m limit n (unat pa) \<and> 2 ^ k dvd unat pa \<and>
    {unat pa ..< unat pa + n} \<inter> cover (reserved mb) = {} \<and>
    wf_memblock mb' \<and> memory mb' = memory mb \<and>
    cover (reserved mb') = cover (reserved mb) \<union> {unat pa ..< unat pa + n}"
proof -
  let ?sz = "ALIGN_UP sz0 PAGE_SIZE" and ?n = "(unat sz0 + 4095) div 4096 * 4096"
  have sz: "unat ?sz = ?n" using assms(5) by (rule page_ceil)
  obtain c where c: "alloc_regions (rev (memory mb)) (reserved mb) ?sz align limit = Some c"
    using assms(6,7) by (auto simp: memblock_alloc_def Let_def split: option.splits)
  with assms(6) have pc: "pa = c" and res: "memblock_reserve mb c ?sz = Inr mb'"
    by (auto simp: memblock_alloc_def Let_def map_sum_def split: sum.splits)
  obtain m where m: "m \<in> set (memory mb)" "fits m limit ?n (unat c)" "2 ^ k dvd unat c"
    "\<forall>r \<in> set (reserved mb). \<not> conflicts c ?sz r"
    using alloc_regions_Some [OF c assms(2)] wf_memblockD(1) [OF assms(1)] sz by auto
  have pg: "4096 dvd unat c"
    using dvd_trans [OF le_imp_power_dvd [OF assms(3)] m(3)] by simp
  have bound: "unat c + ?n < 2 ^ 64"
    using m(2) wf_memblockD(1) [OF assms(1) m(1)] by (auto simp: fits_def wf_region_def)
  have bound': "unat c + ?n + 4096 \<le> 2 ^ 64" by (rule page_room) (use bound pg in simp_all)
  have pos: "0 < ?n" using assms(4) by simp
  note rs = memblock_reserve_spec [OF assms(1) _ _ res, unfolded sz, OF bound' pos]
  have "unat c div 4096 * 4096 = unat c" using pg by simp
  moreover have "(unat c + ?n + 4095) div 4096 * 4096 = unat c + ?n"
    by (rule page_ceil_id) (use pg in simp)
  ultimately show ?thesis
    using m rs no_conflict_disjoint [of "reserved mb" c ?sz] wf_memblockD(2) [OF assms(1)] bound sz pc by auto
qed

text \<open>
  C10: a non-zero result of \<^verbatim>\<open>memblock_alloc\<close> is an aligned, page-rounded range that lies in one RAM
  region below the limit, was free of every reservation, and is reserved (and nothing else is)
  afterwards.
\<close>

theorem memblock_alloc_sound:
  assumes "wf_memblock mb" "align = 2 ^ k" "12 \<le> k" "0 < unat sz0" "unat sz0 + 4096 \<le> 2 ^ 64"
    and "memblock_alloc mb sz0 align limit = Inr (pa, mb')" "pa \<noteq> 0"
  shows "\<exists>m \<in> set (memory mb). \<exists>n. n = (unat sz0 + 4095) div 4096 * 4096 \<and>
    fits m limit n (unat pa) \<and> 2 ^ k dvd unat pa \<and>
    {unat pa ..< unat pa + n} \<inter> cover (reserved mb) = {} \<and>
    wf_memblock mb' \<and> memory mb' = memory mb \<and>
    cover (reserved mb') = cover (reserved mb) \<union> {unat pa ..< unat pa + n}"
  using assms by (rule memblock_alloc_result)

text \<open>
  when the search finds nothing, no RAM region has an aligned position below the limit that
  avoids every reservation: the allocator never fails while a fit exists.
\<close>

lemma memblock_alloc_complete:
  assumes "wf_memblock mb" "align = 2 ^ k" "0 < unat sz0" "unat sz0 + 4096 \<le> 2 ^ 64"
    and "memblock_alloc mb sz0 align limit = Inr (0, mb)"
    and "m \<in> set (memory mb)" "n = (unat sz0 + 4095) div 4096 * 4096"
    and "fits m limit n c" "2 ^ k dvd c"
  shows "{c ..< c + n} \<inter> cover (reserved mb) \<noteq> {}"
proof -
  let ?sz = "ALIGN_UP sz0 PAGE_SIZE"
  have sz: "unat ?sz = n" using page_ceil [OF assms(4)] assms(7) by simp
  have pos: "0 < n" using assms(3,7) by simp
  have bound: "c + n < 2 ^ 64"
    using assms(8) wf_memblockD(1) [OF assms(1,6)] by (auto simp: fits_def wf_region_def)
  then have uc: "unat (of_nat c :: u64) = c" by (simp add: unat_of_nat)
  have none: "alloc_regions (rev (memory mb)) (reserved mb) ?sz align limit = None"
  proof (rule ccontr)
    assume "\<not> ?thesis"
    then obtain c' where c': "alloc_regions (rev (memory mb)) (reserved mb) ?sz align limit = Some c'" by blast
    with assms(5) have z: "c' = 0" and res: "memblock_reserve mb 0 ?sz = Inr mb"
      by (auto simp: memblock_alloc_def Let_def map_sum_def split: sum.splits)
    have "n + 4096 \<le> 2 ^ 64" by (rule page_room) (use bound assms(7) in simp_all)
    then have "{0 ..< n} \<subseteq> cover (reserved mb)"
      using memblock_reserve_spec [OF assms(1) _ _ res] sz pos assms(7) by auto
    moreover have "{unat c' ..< unat c' + unat ?sz} \<inter> cover (reserved mb) = {}"
      using alloc_regions_Some [OF c' assms(2)] wf_memblockD [OF assms(1)] bound z sz
      by (intro no_conflict_disjoint) auto
    moreover have "0 \<in> {0 ..< n}" using pos by simp
    ultimately show False using z sz by (simp add: disjoint_iff subset_iff)
  qed
  obtain r where "r \<in> set (reserved mb)" "conflicts (of_nat c) ?sz r"
    using alloc_regions_None [OF none assms(2), of m "of_nat c"] wf_memblockD [OF assms(1)]
      assms(6,8,9) uc sz pos by auto
  then show ?thesis
    using conflict_meets [of r "reserved mb" "of_nat c" ?sz] wf_memblockD(2) [OF assms(1)] uc sz bound pos
    by auto
qed


section \<open>Page alignment\<close>

text \<open>Both ends of every region are page boundaries; \<^verbatim>\<open>memblock_add\<close> rounds inwards to keep it so.\<close>

definition paged :: "memblock_region list \<Rightarrow> bool" where
  "paged l \<longleftrightarrow> (\<forall>r \<in> set l. 4096 dvd lo_of r \<and> 4096 dvd hi_of r)"

lemma insert_merge_paged:
  assumes "insert_merge l b e = (l', b', e')" "paged l" "\<forall>r \<in> set l. wf_region r"
    "4096 dvd unat b" "4096 dvd unat e"
  shows "paged l' \<and> 4096 dvd unat b' \<and> 4096 dvd unat e'"
  using assms
proof (induction l arbitrary: b e l')
  case (Cons r rs)
  have rs: "paged rs" "\<forall>r \<in> set rs. wf_region r" and r: "4096 dvd lo_of r" "4096 dvd hi_of r" "wf_region r"
    using Cons.prems(2,3) by (simp_all add: paged_def)
  show ?case
  proof (cases "rend r < b \<or> e < rbase r")
    case True
    obtain l2 b2 e2 where m: "insert_merge rs b e = (l2, b2, e2)" by (metis prod_cases3)
    then have "l' = r # l2" "b' = b2" "e' = e2" using Cons.prems(1) True by simp_all
    then show ?thesis using Cons.IH [OF _ rs Cons.prems(4,5)] m r by (simp add: paged_def)
  next
    case False
    then have m: "insert_merge rs (min b (rbase r)) (max e (rend r)) = (l', b', e')"
      using Cons.prems(1) by simp
    have "4096 dvd unat (min b (rbase r))" "4096 dvd unat (max e (rend r))"
      using Cons.prems(4,5) r by (simp_all add: unat_min unat_max unat_rbase min_def max_def)
    then show ?thesis using Cons.IH [OF m rs] by blast
  qed
qed (simp add: paged_def)

lemma memblock_add_paged:
  assumes "wf_memblock mb" "paged (memory mb)" "unat base + unat sz + 4096 \<le> 2 ^ 64"
    "memblock_add mb base sz = Inr mb'"
  shows "paged (memory mb')"
proof (cases "ALIGN_UP base PAGE_SIZE < ALIGN_DOWN (base + sz) PAGE_SIZE")
  case False
  then show ?thesis using assms by (auto simp: memblock_add_def Let_def)
next
  case True
  let ?b = "ALIGN_UP base PAGE_SIZE" and ?e = "ALIGN_DOWN (base + sz) PAGE_SIZE"
  obtain l b e where m: "insert_merge (memory mb) ?b (?b + (?e - ?b)) = (l, b, e)" by (metis prod_cases3)
  have be: "4096 dvd unat ?b" "4096 dvd unat ?e"
    using assms(3) page_ceil [of base] page_floor [of "base + sz"] by (auto simp: dvd_minus_mod)
  have lt: "unat ?b < unat ?e" using True by (simp add: word_less_nat_alt)
  have wf: "\<forall>r \<in> set (memory mb). wf_region r" "sorted_wrt (\<lambda>r s. hi_of r < lo_of s) (memory mb)"
    using assms(1) by (auto simp: wf_memblock_def wf_regions_def)
  have p: "paged l \<and> 4096 dvd unat b \<and> 4096 dvd unat e"
    using insert_merge_paged [OF m assms(2) wf(1) be(1)] be(2) by simp
  have "unat b \<le> unat ?b" "unat ?e \<le> unat e"
    using insert_merge_spec [OF m wf(2,1)] lt by auto
  then have "unat b < unat e" using lt by linarith
  then have "hi_of \<lparr>rbase = b, rsize = e - b\<rparr> = unat e" by (simp add: hi_of_def unat_sub_nowrap word_le_nat_alt)
  moreover have "memory mb' = insert_place l \<lparr>rbase = b, rsize = e - b\<rparr>"
    using assms(4) True m by (auto simp: memblock_add_def mb_insert_def Let_def split: if_splits)
  ultimately show ?thesis using p by (simp add: paged_def lo_of_def)
qed


section \<open>Instances\<close>

text \<open>A board with one bank of 256 MiB at 1 GiB whose first 2 MiB hold the kernel image.\<close>

definition board :: memblock where
  "board = \<lparr>memory = [\<lparr>rbase = 0x40000000, rsize = 0x10000000\<rparr>],
            reserved = [\<lparr>rbase = 0x40000000, rsize = 0x200000\<rparr>]\<rparr>"

lemma wf_board: "wf_memblock board"
  by (simp add: board_def wf_memblock_def wf_regions_def wf_region_def hi_of_def MEMBLOCK_MAX_def)

lemma board_alloc:
  "memblock_alloc board 0x1800 0x10000 0x48000000 =
     Inr (0x47ff0000, board\<lparr>reserved := reserved board @ [\<lparr>rbase = 0x47ff0000, rsize = 0x2000\<rparr>]\<rparr>)"
  by (simp add: memblock_alloc_def memblock_reserve_def mb_insert_def board_def ALIGN_UP_def
      ALIGN_DOWN_def PAGE_SIZE_def MEMBLOCK_MAX_def rend_def alloc_scan.simps conflicts_def)

theorem memblock_alloc_sound_witness:
  "\<exists>mb'. memblock_alloc board 0x1800 0x10000 0x48000000 = Inr (0x47ff0000, mb') \<and> wf_memblock mb' \<and>
     {0x47ff0000 ..< 0x47ff2000} \<inter> cover (reserved board) = {}"
  using memblock_alloc_sound [OF wf_board _ _ _ _ board_alloc, of 16] board_alloc by (auto simp: Bex_def)

end
