(* ===== verification/Olux_Page_Alloc.thy ===== *)
theory Olux_Page_Alloc
  imports Olux_Memblock
begin

text \<open>
  The binary buddy page allocator (mm/page_alloc.c, with the page descriptors and pfn helpers of
  include/olux/mm.h).  A page is named by its page frame number; \<^verbatim>\<open>mem_map\<close> is a function from
  frame numbers to descriptors and a zone's free lists are HOL lists of frame numbers (the
  \<^verbatim>\<open>lru\<close> links are those of the list theory).  Frame numbers and page counts are natural numbers: a
  frame number is an address shifted right by 12, so it is below \<open>2 ^ 52\<close> and no sum of the source
  wraps.  Memory contents are kept per 8-byte cell.  The model is the build without CONFIG\_DEBUG
  (no poisoning of freed pages); the zone spinlock makes each operation atomic.
\<close>

section \<open>Page descriptors, zones, state\<close>

definition MAX_ORDER :: nat where "MAX_ORDER = 11"

definition PG_RESERVED :: u32 where "PG_RESERVED = 0x1"
definition PG_BUDDY :: u32 where "PG_BUDDY = 0x2"
definition PG_SLAB :: u32 where "PG_SLAB = 0x4"
definition PG_COMPOUND :: u32 where "PG_COMPOUND = 0x8"

lemmas pg_flag_defs = PG_RESERVED_def PG_BUDDY_def PG_SLAB_def PG_COMPOUND_def

definition GFP_ZERO :: u32 where "GFP_ZERO = 0x1"
definition GFP_DMA :: u32 where "GFP_DMA = 0x2"
definition GFP_DMA32 :: u32 where "GFP_DMA32 = 0x4"

record page =
  pflags :: u32
  refcount :: int
  porder :: nat
  slab_class :: nat
  slab_inuse :: nat
  freelist :: u64

record zone =
  start_pfn :: nat
  end_pfn :: nat
  free_area :: "nat \<Rightarrow> nat list"
  nr_free :: "nat \<Rightarrow> nat"
  free_cnt :: nat
  managed_pages :: nat

record pgstate =
  mem_map :: "nat \<Rightarrow> page"
  base_pfn :: nat
  map_pfns :: nat
  zones :: "nat \<Rightarrow> zone"
  ram :: "nat \<Rightarrow> u64"

definition NR_ZONES :: nat where "NR_ZONES = 3"

definition pfn_valid :: "pgstate \<Rightarrow> nat \<Rightarrow> bool" where
  "pfn_valid s pfn \<longleftrightarrow> base_pfn s \<le> pfn \<and> pfn < base_pfn s + map_pfns s"

text \<open>The zone of a frame, searched from the highest zone down.\<close>

definition pfn_zone :: "pgstate \<Rightarrow> nat \<Rightarrow> nat" where
  "pfn_zone s pfn =
     (if start_pfn (zones s 2) \<le> pfn then 2
      else if start_pfn (zones s 1) \<le> pfn then 1
      else 0)"


section \<open>Free lists, splitting and merging\<close>

definition add_free :: "pgstate \<Rightarrow> nat \<Rightarrow> nat \<Rightarrow> nat \<Rightarrow> pgstate" where
  "add_free s z p ord =
     s\<lparr>mem_map := (mem_map s)
         (p := (mem_map s p)\<lparr>pflags := set_flag (pflags (mem_map s p)) PG_BUDDY, porder := ord\<rparr>),
       zones := (zones s)
         (z := (zones s z)\<lparr>free_area := (free_area (zones s z))(ord := p # free_area (zones s z) ord),
                          nr_free := (nr_free (zones s z))(ord := nr_free (zones s z) ord + 1)\<rparr>)\<rparr>"

definition del_free :: "pgstate \<Rightarrow> nat \<Rightarrow> nat \<Rightarrow> nat \<Rightarrow> pgstate" where
  "del_free s z p ord =
     s\<lparr>mem_map := (mem_map s)
         (p := (mem_map s p)\<lparr>pflags := clear_flag (pflags (mem_map s p)) PG_BUDDY\<rparr>),
       zones := (zones s)
         (z := (zones s z)\<lparr>free_area := (free_area (zones s z))
                            (ord := remove1 p (free_area (zones s z) ord)),
                          nr_free := (nr_free (zones s z))(ord := nr_free (zones s z) ord - 1)\<rparr>)\<rparr>"

definition add_free_cnt :: "pgstate \<Rightarrow> nat \<Rightarrow> nat \<Rightarrow> pgstate" where
  "add_free_cnt s z n = s\<lparr>zones := (zones s)(z := (zones s z)\<lparr>free_cnt := free_cnt (zones s z) + n\<rparr>)\<rparr>"

definition sub_free_cnt :: "pgstate \<Rightarrow> nat \<Rightarrow> nat \<Rightarrow> pgstate" where
  "sub_free_cnt s z n = s\<lparr>zones := (zones s)(z := (zones s z)\<lparr>free_cnt := free_cnt (zones s z) - n\<rparr>)\<rparr>"

text \<open>The merging loop of \<^verbatim>\<open>__free\<close>: absorb the buddy while it is a free block of the same order.\<close>

function buddy_merge :: "pgstate \<Rightarrow> nat \<Rightarrow> nat \<Rightarrow> nat \<Rightarrow> pgstate \<times> nat \<times> nat" where
  "buddy_merge s z pfn ord =
     (if ord < MAX_ORDER - 1 then
        let b = pfn XOR 2 ^ ord in
        if \<not> pfn_valid s b \<or> b < start_pfn (zones s z) \<or> end_pfn (zones s z) \<le> b then (s, pfn, ord)
        else if \<not> has_flag (pflags (mem_map s b)) PG_BUDDY \<or> porder (mem_map s b) \<noteq> ord
        then (s, pfn, ord)
        else buddy_merge (del_free s z b ord) z (unset_bit ord pfn) (ord + 1)
      else (s, pfn, ord))"
  by pat_completeness auto
termination
  by (relation "measure (\<lambda>(s, z, pfn, ord). MAX_ORDER - ord)") auto

declare buddy_merge.simps [simp del]

definition free_block :: "pgstate \<Rightarrow> nat \<Rightarrow> nat \<Rightarrow> pgstate" where
  "free_block s p ord =
     (let z = pfn_zone s p; s1 = add_free_cnt s z (2 ^ ord) in
      case buddy_merge s1 z p ord of (s2, pfn, o') \<Rightarrow> add_free s2 z pfn o')"

text \<open>\<^verbatim>\<open>__alloc\<close>: the smallest non-empty order, then halving with the upper halves given back.\<close>

function find_order :: "pgstate \<Rightarrow> nat \<Rightarrow> nat \<Rightarrow> nat option" where
  "find_order s z ord =
     (if ord < MAX_ORDER
      then if free_area (zones s z) ord = [] then find_order s z (ord + 1) else Some ord
      else None)"
  by pat_completeness auto
termination
  by (relation "measure (\<lambda>(s, z, ord). MAX_ORDER - ord)") auto

declare find_order.simps [simp del]

function split_block :: "pgstate \<Rightarrow> nat \<Rightarrow> nat \<Rightarrow> nat \<Rightarrow> nat \<Rightarrow> pgstate" where
  "split_block s z p ord target =
     (if target < ord
      then split_block (add_free s z (p + 2 ^ (ord - 1)) (ord - 1)) z p (ord - 1) target
      else s)"
  by pat_completeness auto
termination
  by (relation "measure (\<lambda>(s, z, p, ord, target). ord)") auto

declare split_block.simps [simp del]

definition alloc_block :: "pgstate \<Rightarrow> nat \<Rightarrow> nat \<Rightarrow> nat option \<times> pgstate" where
  "alloc_block s z ord =
     (case find_order s z ord of
        None \<Rightarrow> (None, s)
      | Some k \<Rightarrow>
          let p = hd (free_area (zones s z) k);
              s1 = del_free s z p k;
              s2 = split_block s1 z p k ord
          in (Some p, sub_free_cnt s2 z (2 ^ ord)))"


section \<open>The exported operations\<close>

text \<open>The zones a request may use: its preferred zone and every lower one, in this order.\<close>

fun alloc_zones :: "pgstate \<Rightarrow> nat list \<Rightarrow> nat \<Rightarrow> nat option \<times> pgstate" where
  "alloc_zones s [] ord = (None, s)"
| "alloc_zones s (z # zs) ord =
     (case alloc_block s z ord of
        (Some p, s') \<Rightarrow> (Some p, s')
      | (None, s') \<Rightarrow> alloc_zones s' zs ord)"

definition zone_list :: "u32 \<Rightarrow> nat list" where
  "zone_list g =
     (if has_flag g GFP_DMA then [0] else if has_flag g GFP_DMA32 then [1, 0] else [2, 1, 0])"

definition set_refcounts :: "pgstate \<Rightarrow> nat \<Rightarrow> nat \<Rightarrow> int \<Rightarrow> pgstate" where
  "set_refcounts s p n c =
     s\<lparr>mem_map := (\<lambda>q. if p \<le> q \<and> q < p + n then (mem_map s q)\<lparr>refcount := c\<rparr> else mem_map s q)\<rparr>"

definition clear_pages :: "pgstate \<Rightarrow> nat \<Rightarrow> nat \<Rightarrow> pgstate" where
  "clear_pages s p n = s\<lparr>ram := (\<lambda>c. if p * 512 \<le> c \<and> c < (p + n) * 512 then 0 else ram s c)\<rparr>"

definition set_porder :: "pgstate \<Rightarrow> nat \<Rightarrow> nat \<Rightarrow> pgstate" where
  "set_porder s p ord = s\<lparr>mem_map := (mem_map s)(p := (mem_map s p)\<lparr>porder := ord\<rparr>)\<rparr>"

definition alloc_pages :: "pgstate \<Rightarrow> u32 \<Rightarrow> nat \<Rightarrow> (nat option \<times> pgstate) kres" where
  "alloc_pages s g ord =
     (if MAX_ORDER \<le> ord then Inr (None, s)
      else case alloc_zones s (zone_list g) ord of
        (None, s') \<Rightarrow> Inr (None, s')
      | (Some p, s') \<Rightarrow>
          if list_ex (\<lambda>i. has_flag (pflags (mem_map s' (p + i))) (PG_RESERVED OR PG_SLAB)) [0..<2 ^ ord]
          then Inl ''page_alloc: allocated page has flags''
          else
            let s1 = set_porder (set_refcounts s' p (2 ^ ord) 1) p ord
            in Inr (Some p, if has_flag g GFP_ZERO then clear_pages s1 p (2 ^ ord) else s1))"

definition free_pages :: "pgstate \<Rightarrow> nat option \<Rightarrow> nat \<Rightarrow> pgstate kres" where
  "free_pages s pg ord =
     (case pg of
        None \<Rightarrow> Inr s
      | Some p \<Rightarrow>
          if has_flag (pflags (mem_map s p)) (PG_BUDDY OR PG_RESERVED)
          then Inl ''free_pages: double free or reserved page''
          else Inr (free_block (set_refcounts s p (2 ^ ord) 0) p ord))"

definition page_get :: "pgstate \<Rightarrow> nat \<Rightarrow> pgstate" where
  "page_get s p = s\<lparr>mem_map := (mem_map s)(p := (mem_map s p)\<lparr>refcount := refcount (mem_map s p) + 1\<rparr>)\<rparr>"

definition page_put :: "pgstate \<Rightarrow> nat \<Rightarrow> (bool \<times> pgstate) kres" where
  "page_put s p =
     (let r = refcount (mem_map s p) - 1;
          s1 = s\<lparr>mem_map := (mem_map s)(p := (mem_map s p)\<lparr>refcount := r\<rparr>)\<rparr>
      in if r < 0 then Inl ''page_put: refcount underflow''
         else if r = 0
         then map_sum id (Pair True)
                (free_pages (s1\<lparr>mem_map := (mem_map s1)(p := (mem_map s1 p)\<lparr>refcount := 1\<rparr>)\<rparr>) (Some p) 0)
         else Inr (False, s1))"

definition nr_free_pages :: "pgstate \<Rightarrow> nat" where
  "nr_free_pages s = (\<Sum>i \<leftarrow> [0..<NR_ZONES]. free_cnt (zones s i))"

definition nr_total_pages :: "pgstate \<Rightarrow> nat" where
  "nr_total_pages s = (\<Sum>i \<leftarrow> [0..<NR_ZONES]. managed_pages (zones s i))"

text \<open>
  \<^verbatim>\<open>page_alloc_init\<close>: the descriptor array is taken from memblock (\<^verbatim>\<open>sizeof(struct page)\<close> is 40), every
  frame starts reserved, and then each unreserved RAM page is freed into its zone.  The address loop
  of a region is its list of page addresses.
\<close>

definition zone_table :: "nat \<Rightarrow> zone" where
  "zone_table z =
     \<lparr>start_pfn = (if z = 0 then 0 else if z = 1 then 2 ^ 18 else 2 ^ 20),
      end_pfn = (if z = 0 then 2 ^ 18 else if z = 1 then 2 ^ 20 else 2 ^ 64 - 1),
      free_area = (\<lambda>_. []), nr_free = (\<lambda>_. 0), free_cnt = 0, managed_pages = 0\<rparr>"

definition boot_page :: page where
  "boot_page = \<lparr>pflags = PG_RESERVED, refcount = 0, porder = 0, slab_class = 0, slab_inuse = 0, freelist = 0\<rparr>"

definition pa_pfn :: "u64 \<Rightarrow> nat" where
  "pa_pfn pa = unat (drop_bit PAGE_SHIFT pa)"

definition region_pages :: "memblock_region \<Rightarrow> u64 list" where
  "region_pages r = map (\<lambda>i. rbase r + of_nat i * PAGE_SIZE) [0..<(unat (rsize r) + 4095) div 4096]"

definition release_page :: "nat \<Rightarrow> pgstate \<Rightarrow> pgstate" where
  "release_page p s =
     (let s1 = s\<lparr>mem_map := (mem_map s)(p := (mem_map s p)\<lparr>pflags := 0\<rparr>)\<rparr>;
          z = pfn_zone s1 p;
          s2 = s1\<lparr>zones := (zones s1)(z := (zones s1 z)\<lparr>managed_pages := managed_pages (zones s1 z) + 1\<rparr>)\<rparr>
      in free_block s2 p 0)"

definition init_page :: "memblock \<Rightarrow> u64 \<Rightarrow> pgstate \<Rightarrow> pgstate" where
  "init_page mb a s = (if memblock_is_reserved mb a then s else release_page (pa_pfn a) s)"

definition boot_state :: "nat \<Rightarrow> nat \<Rightarrow> (nat \<Rightarrow> u64) \<Rightarrow> pgstate" where
  "boot_state base n r =
     \<lparr>mem_map = (\<lambda>_. boot_page), base_pfn = base, map_pfns = n, zones = zone_table, ram = r\<rparr>"

definition page_alloc_init :: "memblock \<Rightarrow> (nat \<Rightarrow> u64) \<Rightarrow> (memblock \<times> pgstate) kres" where
  "page_alloc_init mb r =
     (let start = pa_pfn (memblock_start mb); n = pa_pfn (memblock_end mb) - start;
          bytes = ALIGN_UP (of_nat n * 40) PAGE_SIZE
      in case memblock_alloc mb bytes PAGE_SIZE (- 1) of
           Inl e \<Rightarrow> Inl e
         | Inr (pa, mb') \<Rightarrow>
             if pa = 0 then Inl ''page_alloc: cannot allocate mem_map''
             else
               let s0 = boot_state start n
                          (\<lambda>c. if unat pa \<le> c * 8 \<and> c * 8 < unat pa + unat bytes then 0 else r c)
               in Inr (mb', fold (init_page mb') (concat (map region_pages (memory mb'))) s0))"


section \<open>The allocator invariant\<close>

definition blk :: "nat \<Rightarrow> nat \<Rightarrow> nat set" where
  "blk p k = {p ..< p + 2 ^ k}"

definition fblocks :: "pgstate \<Rightarrow> nat \<Rightarrow> (nat \<times> nat) set" where
  "fblocks s z = {(p, k). k < MAX_ORDER \<and> p \<in> set (free_area (zones s z) k)}"

definition free_set :: "pgstate \<Rightarrow> nat \<Rightarrow> nat set" where
  "free_set s z = (\<Union>(p, k) \<in> fblocks s z. blk p k)"

definition zone_bounds :: "pgstate \<Rightarrow> bool" where
  "zone_bounds s \<longleftrightarrow>
     start_pfn (zones s 0) = 0 \<and> end_pfn (zones s 0) = 2 ^ 18 \<and>
     start_pfn (zones s 1) = 2 ^ 18 \<and> end_pfn (zones s 1) = 2 ^ 20 \<and>
     start_pfn (zones s 2) = 2 ^ 20 \<and> end_pfn (zones s 2) = 2 ^ 64 - 1 \<and>
     base_pfn s + map_pfns s \<le> 2 ^ 52"

definition good_blk :: "pgstate \<Rightarrow> nat \<Rightarrow> nat \<Rightarrow> nat \<Rightarrow> bool" where
  "good_blk s z p k \<longleftrightarrow> k < MAX_ORDER \<and> 2 ^ k dvd p \<and>
     base_pfn s \<le> p \<and> p + 2 ^ k \<le> base_pfn s + map_pfns s \<and>
     start_pfn (zones s z) \<le> p \<and> p + 2 ^ k \<le> end_pfn (zones s z)"

definition is_buddy :: "pgstate \<Rightarrow> nat \<Rightarrow> bool" where
  "is_buddy s p \<longleftrightarrow> has_flag (pflags (mem_map s p)) PG_BUDDY"

definition clean :: "pgstate \<Rightarrow> nat \<Rightarrow> bool" where
  "clean s p \<longleftrightarrow> \<not> has_flag (pflags (mem_map s p)) (PG_RESERVED OR PG_SLAB)"

definition lists_ok :: "pgstate \<Rightarrow> nat \<Rightarrow> bool" where
  "lists_ok s z \<longleftrightarrow> (\<forall>k < MAX_ORDER. distinct (free_area (zones s z) k) \<and>
     nr_free (zones s z) k = length (free_area (zones s z) k))"

definition blocks_ok :: "pgstate \<Rightarrow> nat \<Rightarrow> bool" where
  "blocks_ok s z \<longleftrightarrow> (\<forall>(p, k) \<in> fblocks s z.
     good_blk s z p k \<and> is_buddy s p \<and> porder (mem_map s p) = k \<and> (\<forall>q \<in> blk p k. clean s q))"

definition disj_ok :: "pgstate \<Rightarrow> nat \<Rightarrow> bool" where
  "disj_ok s z \<longleftrightarrow> (\<forall>a \<in> fblocks s z. \<forall>b \<in> fblocks s z. a \<noteq> b \<longrightarrow>
     blk (fst a) (snd a) \<inter> blk (fst b) (snd b) = {})"

text \<open>No two free blocks could still be merged.\<close>

definition maximal :: "pgstate \<Rightarrow> nat \<Rightarrow> bool" where
  "maximal s z \<longleftrightarrow> (\<forall>(p, k) \<in> fblocks s z. k < MAX_ORDER - 1 \<longrightarrow> (p XOR 2 ^ k, k) \<notin> fblocks s z)"

definition heads_ok :: "pgstate \<Rightarrow> bool" where
  "heads_ok s \<longleftrightarrow> (\<forall>p. pfn_valid s p \<and> is_buddy s p \<longrightarrow>
     (p, porder (mem_map s p)) \<in> fblocks s (pfn_zone s p))"

definition core :: "pgstate \<Rightarrow> bool" where
  "core s \<longleftrightarrow> zone_bounds s \<and> heads_ok s \<and>
     (\<forall>z < NR_ZONES. lists_ok s z \<and> blocks_ok s z \<and> disj_ok s z \<and> maximal s z)"

definition counted :: "pgstate \<Rightarrow> bool" where
  "counted s \<longleftrightarrow> (\<forall>z < NR_ZONES. free_cnt (zones s z) = card (free_set s z))"

text \<open>The invariant of the allocator between operations.\<close>

definition pg_inv :: "pgstate \<Rightarrow> bool" where
  "pg_inv s \<longleftrightarrow> core s \<and> counted s"

text \<open>A block that is in nobody's free list: being freed, or taken off a list and being split.\<close>

definition pending :: "pgstate \<Rightarrow> nat \<Rightarrow> nat \<Rightarrow> nat \<Rightarrow> bool" where
  "pending s z p k \<longleftrightarrow> z < NR_ZONES \<and> good_blk s z p k \<and> blk p k \<inter> free_set s z = {} \<and>
     (\<forall>q \<in> blk p k. clean s q)"

text \<open>Two descriptors that differ in the PG\_BUDDY flag and the order at most.\<close>

definition same_rest :: "page \<Rightarrow> page \<Rightarrow> bool" where
  "same_rest a b \<longleftrightarrow> refcount a = refcount b \<and> slab_class a = slab_class b \<and> slab_inuse a = slab_inuse b \<and>
     freelist a = freelist b \<and> (\<forall>m. PG_BUDDY AND m = 0 \<longrightarrow> has_flag (pflags a) m = has_flag (pflags b) m)"

text \<open>What list operations on blocks inside \<open>A\<close> leave alone: the geometry, memory contents, counters, the other
  zones, and every page descriptor outside \<open>A\<close>.\<close>

definition pg_frame :: "pgstate \<Rightarrow> pgstate \<Rightarrow> nat \<Rightarrow> nat set \<Rightarrow> bool" where
  "pg_frame s s' z A \<longleftrightarrow> base_pfn s' = base_pfn s \<and> map_pfns s' = map_pfns s \<and> ram s' = ram s \<and>
     (\<forall>y. start_pfn (zones s' y) = start_pfn (zones s y) \<and> end_pfn (zones s' y) = end_pfn (zones s y) \<and>
          free_cnt (zones s' y) = free_cnt (zones s y) \<and> managed_pages (zones s' y) = managed_pages (zones s y)) \<and>
     (\<forall>y. y \<noteq> z \<longrightarrow> zones s' y = zones s y) \<and>
     (\<forall>q. q \<notin> A \<longrightarrow> mem_map s' q = mem_map s q) \<and>
     (\<forall>q. refcount (mem_map s' q) = refcount (mem_map s q) \<and> clean s' q = clean s q \<and>
          same_rest (mem_map s' q) (mem_map s q))"

text \<open>What an operation on a zone must leave alone when its free counter may move.\<close>

definition pg_keeps :: "pgstate \<Rightarrow> pgstate \<Rightarrow> nat set \<Rightarrow> bool" where
  "pg_keeps s s' A \<longleftrightarrow> base_pfn s' = base_pfn s \<and> map_pfns s' = map_pfns s \<and> ram s' = ram s \<and>
     (\<forall>y. managed_pages (zones s' y) = managed_pages (zones s y)) \<and>
     (\<forall>q. q \<notin> A \<longrightarrow> mem_map s' q = mem_map s q) \<and>
     (\<forall>q. refcount (mem_map s' q) = refcount (mem_map s q) \<and> same_rest (mem_map s' q) (mem_map s q))"

text \<open>What taking the block \<open>p\<close> of order \<open>n\<close> out of zone \<open>z\<close> does to the allocator.\<close>

definition taken :: "pgstate \<Rightarrow> pgstate \<Rightarrow> nat \<Rightarrow> nat \<Rightarrow> nat \<Rightarrow> bool" where
  "taken s s' z p n \<longleftrightarrow> z < NR_ZONES \<and> pg_inv s' \<and> pending s' z p n \<and> blk p n \<subseteq> free_set s z \<and>
     free_set s' = (free_set s)(z := free_set s z - blk p n) \<and> pg_keeps s s' (free_set s z) \<and>
     clean s' = clean s"


subsection \<open>Block arithmetic\<close>

lemma blk_self [simp]: "p \<in> blk p k"
  by (simp add: blk_def)

lemma finite_blk [simp]: "finite (blk p k)"
  by (simp add: blk_def)

lemma card_blk [simp]: "card (blk p k) = 2 ^ k"
  by (simp add: blk_def)

lemma unset_pow2: "unset_bit k p = (if even (p div 2 ^ k) then p else p - 2 ^ k)" for p :: nat
proof (cases "bit p k")
  case True
  have "set_bit k (unset_bit k p) = p" by (rule bit_eqI) (use True in \<open>auto simp: bit_simps\<close>)
  then have "unset_bit k p + 2 ^ k = p" by (simp add: set_bit_eq bit_unset_bit_iff)
  then show ?thesis using True by (auto simp: bit_iff_odd)
next
  case False
  have "unset_bit k p = p" by (rule bit_eqI) (use False in \<open>auto simp: bit_simps\<close>)
  then show ?thesis using False by (simp add: bit_iff_odd)
qed

lemma xor_pow2: "p XOR 2 ^ k = (if even (p div 2 ^ k) then p + 2 ^ k else p - 2 ^ k)" for p :: nat
proof -
  have "p XOR 2 ^ k = flip_bit k p" by (simp add: flip_bit_eq_xor push_bit_eq_mult)
  then show ?thesis
    by (simp add: flip_bit_eq_if set_bit_eq unset_pow2 bit_iff_odd)
qed

lemma xor_pow2_invol [simp]: "(p XOR 2 ^ k) XOR 2 ^ k = (p :: nat)"
  by (simp add: xor.assoc)

lemma xor_pow2_ne: "p XOR 2 ^ k \<noteq> p" for p :: nat
proof
  assume eq: "p XOR 2 ^ k = p"
  have "p XOR (p XOR 2 ^ k) = 2 ^ k" by (simp flip: xor.assoc)
  then show False using eq by simp
qed

text \<open>A block and its buddy are the two halves of the aligned block of the next order.\<close>

lemma buddy_halves:
  fixes p :: nat
  assumes "2 ^ k dvd p"
  shows "2 ^ Suc k dvd unset_bit k p" "blk (unset_bit k p) (Suc k) = blk p k \<union> blk (p XOR 2 ^ k) k"
    "blk p k \<inter> blk (p XOR 2 ^ k) k = {}" "2 ^ k dvd p XOR 2 ^ k"
    "unset_bit k p = min p (p XOR 2 ^ k)"
proof -
  obtain m where m: "p = 2 ^ k * m" using assms by blast
  have dm: "p div 2 ^ k = m" using m by simp
  note x = xor_pow2 [of p k] unset_pow2 [of k p]
  show "2 ^ Suc k dvd unset_bit k p"
  proof (cases "even m")
    case True
    then obtain j where "m = 2 * j" by blast
    then show ?thesis using x dm m by simp
  next
    case False
    then obtain j where "m = 2 * j + 1" using oddE by blast
    then show ?thesis using x dm m by simp
  qed
  have "odd m \<Longrightarrow> 2 ^ k \<le> p" using m by (cases m) auto
  then show "blk (unset_bit k p) (Suc k) = blk p k \<union> blk (p XOR 2 ^ k) k"
    "blk p k \<inter> blk (p XOR 2 ^ k) k = {}" "unset_bit k p = min p (p XOR 2 ^ k)"
    using x dm by (auto simp: blk_def)
  show "2 ^ k dvd p XOR 2 ^ k" using x assms by (auto intro: dvd_diff_nat)
qed

lemma upper_half:
  fixes p :: nat
  assumes "2 ^ Suc k dvd p"
  shows "(p + 2 ^ k) XOR 2 ^ k = p" "2 ^ k dvd p" "2 ^ k dvd p + 2 ^ k"
    "blk p (Suc k) = blk p k \<union> blk (p + 2 ^ k) k" "blk p k \<inter> blk (p + 2 ^ k) k = {}"
proof -
  show d: "2 ^ k dvd p" using assms by (metis dvd_mult_left power_Suc2)
  then show d2: "2 ^ k dvd p + 2 ^ k" by simp
  obtain m where m: "p = 2 ^ k * (2 * m)" using assms by (auto simp: mult.assoc mult.commute)
  have "(p + 2 ^ k) div 2 ^ k = 2 * m + 1" using m by simp
  then show "(p + 2 ^ k) XOR 2 ^ k = p" using xor_pow2 [of "p + 2 ^ k" k] by simp
  show "blk p (Suc k) = blk p k \<union> blk (p + 2 ^ k) k" "blk p k \<inter> blk (p + 2 ^ k) k = {}"
    by (auto simp: blk_def)
qed


subsection \<open>Effects of the list operations\<close>

lemma add_free_frame [simp]:
  "base_pfn (add_free s z p k) = base_pfn s" "map_pfns (add_free s z p k) = map_pfns s"
  "start_pfn (zones (add_free s z p k) y) = start_pfn (zones s y)"
  "end_pfn (zones (add_free s z p k) y) = end_pfn (zones s y)"
  "free_cnt (zones (add_free s z p k) y) = free_cnt (zones s y)"
  "managed_pages (zones (add_free s z p k) y) = managed_pages (zones s y)"
  "y \<noteq> z \<Longrightarrow> zones (add_free s z p k) y = zones s y"
  "ram (add_free s z p k) = ram s"
  by (simp_all add: add_free_def)

lemma del_free_frame [simp]:
  "base_pfn (del_free s z p k) = base_pfn s" "map_pfns (del_free s z p k) = map_pfns s"
  "start_pfn (zones (del_free s z p k) y) = start_pfn (zones s y)"
  "end_pfn (zones (del_free s z p k) y) = end_pfn (zones s y)"
  "free_cnt (zones (del_free s z p k) y) = free_cnt (zones s y)"
  "managed_pages (zones (del_free s z p k) y) = managed_pages (zones s y)"
  "y \<noteq> z \<Longrightarrow> zones (del_free s z p k) y = zones s y"
  "ram (del_free s z p k) = ram s"
  by (simp_all add: del_free_def)

lemma frame_preds [simp]:
  "zone_bounds (add_free s z p k) = zone_bounds s" "zone_bounds (del_free s z p k) = zone_bounds s"
  "good_blk (add_free s z p k) = good_blk s" "good_blk (del_free s z p k) = good_blk s"
  "pfn_valid (add_free s z p k) = pfn_valid s" "pfn_valid (del_free s z p k) = pfn_valid s"
  "pfn_zone (add_free s z p k) = pfn_zone s" "pfn_zone (del_free s z p k) = pfn_zone s"
  by (auto simp: zone_bounds_def good_blk_def pfn_valid_def pfn_zone_def fun_eq_iff)

lemma clean_frame [simp]: "clean (add_free s z p k) q = clean s q" "clean (del_free s z p k) q = clean s q"
  by (auto simp: clean_def add_free_def del_free_def flag_simps pg_flag_defs)

lemma is_buddy_add [simp]: "is_buddy (add_free s z p k) q \<longleftrightarrow> q = p \<or> is_buddy s q"
  by (auto simp: is_buddy_def add_free_def flag_simps pg_flag_defs)

lemma is_buddy_del [simp]: "is_buddy (del_free s z p k) q \<longleftrightarrow> q \<noteq> p \<and> is_buddy s q"
  by (auto simp: is_buddy_def del_free_def flag_simps)

lemma porder_frame [simp]:
  "porder (mem_map (add_free s z p k) q) = (if q = p then k else porder (mem_map s q))"
  "porder (mem_map (del_free s z p k) q) = porder (mem_map s q)"
  by (simp_all add: add_free_def del_free_def)

lemma fblocks_other [simp]:
  "y \<noteq> z \<Longrightarrow> fblocks (add_free s z p k) y = fblocks s y"
  "y \<noteq> z \<Longrightarrow> fblocks (del_free s z p k) y = fblocks s y"
  by (simp_all add: fblocks_def)

lemma fblocks_add: "k < MAX_ORDER \<Longrightarrow> fblocks (add_free s z p k) z = insert (p, k) (fblocks s z)"
  by (auto simp: fblocks_def add_free_def)

lemma fblocks_del:
  assumes "lists_ok s z" "k < MAX_ORDER"
  shows "fblocks (del_free s z p k) z = fblocks s z - {(p, k)}"
  using assms by (auto simp: fblocks_def del_free_def lists_ok_def)

lemma free_set_other [simp]:
  "y \<noteq> z \<Longrightarrow> free_set (add_free s z p k) y = free_set s y"
  "y \<noteq> z \<Longrightarrow> free_set (del_free s z p k) y = free_set s y"
  by (simp_all add: free_set_def)

lemma free_set_add: "k < MAX_ORDER \<Longrightarrow> free_set (add_free s z p k) z = blk p k \<union> free_set s z"
  by (simp add: free_set_def fblocks_add)

lemma free_set_del:
  assumes "lists_ok s z" "disj_ok s z" "(p, k) \<in> fblocks s z"
  shows "free_set (del_free s z p k) z = free_set s z - blk p k"
proof -
  have "k < MAX_ORDER" using assms(3) by (simp add: fblocks_def)
  then have f: "fblocks (del_free s z p k) z = fblocks s z - {(p, k)}" using assms(1) by (simp add: fblocks_del)
  have "blk q l \<inter> blk p k = {}" if "(q, l) \<in> fblocks s z" "(q, l) \<noteq> (p, k)" for q l
    using assms(2,3) that unfolding disj_ok_def by fastforce
  then show ?thesis unfolding free_set_def f using assms(3) by fastforce
qed

lemma zone_cases: "z < NR_ZONES \<Longrightarrow> z = 0 \<or> z = 1 \<or> z = 2"
  by (auto simp: NR_ZONES_def)

lemma zones_apart:
  assumes "zone_bounds s" "y < NR_ZONES" "z < NR_ZONES" "y \<noteq> z" "good_blk s y p k" "good_blk s z q l"
  shows "blk p k \<inter> blk q l = {}"
proof -
  have "end_pfn (zones s y) \<le> start_pfn (zones s z) \<or> end_pfn (zones s z) \<le> start_pfn (zones s y)"
    using assms(1,4) zone_cases [OF assms(2)] zone_cases [OF assms(3)]
    by (elim disjE) (simp_all add: zone_bounds_def)
  then show ?thesis using assms(5,6) unfolding good_blk_def blk_def by auto
qed

lemma pfn_zone_blk:
  assumes "zone_bounds s" "z < NR_ZONES" "good_blk s z p k" "q \<in> blk p k"
  shows "pfn_zone s q = z"
proof -
  have "start_pfn (zones s z) \<le> q" "q < end_pfn (zones s z)"
    using assms(3,4) by (simp_all add: good_blk_def blk_def)
  then show ?thesis
    using assms(1) zone_cases [OF assms(2)]
    by (elim disjE) (simp_all add: zone_bounds_def pfn_zone_def)
qed

lemma coreD:
  assumes "core s" "z < NR_ZONES"
  shows "lists_ok s z" "blocks_ok s z" "disj_ok s z" "maximal s z" "zone_bounds s" "heads_ok s"
  using assms by (auto simp: core_def)

lemma blocks_okD:
  assumes "blocks_ok s z" "(p, k) \<in> fblocks s z"
  shows "good_blk s z p k" "is_buddy s p" "porder (mem_map s p) = k" "q \<in> blk p k \<Longrightarrow> clean s q"
  using assms by (auto simp: blocks_ok_def)

lemma fblocks_free_set: "(p, k) \<in> fblocks s z \<Longrightarrow> blk p k \<subseteq> free_set s z"
  by (auto simp: free_set_def)

lemma blocks_ok_del:
  assumes "core s" "z < NR_ZONES" "(p, k) \<in> fblocks s z" "y < NR_ZONES"
  shows "blocks_ok (del_free s z p k) y"
proof -
  note c = coreD [OF assms(1,2)] and cy = coreD [OF assms(1,4)]
  have k: "k < MAX_ORDER" using assms(3) by (simp add: fblocks_def)
  note pk = blocks_okD [OF c(2) assms(3)]
  have other: "q \<noteq> p" if "(q, l) \<in> fblocks s y" "(q, l) \<noteq> (p, k) \<or> y \<noteq> z" for q l
  proof (cases "y = z")
    case True
    then have "blk q l \<inter> blk p k = {}" using that assms(3) c(3) by (fastforce simp: disj_ok_def)
    then show ?thesis by (metis blk_self disjoint_iff)
  next
    case False
    then have "blk q l \<inter> blk p k = {}"
      using zones_apart [OF c(5) assms(4,2) False blocks_okD(1) [OF cy(2) that(1)] pk(1)] by simp
    then show ?thesis by (metis blk_self disjoint_iff)
  qed
  have "fblocks (del_free s z p k) y = (if y = z then fblocks s z - {(p, k)} else fblocks s y)"
    using fblocks_del [OF c(1) k] by simp
  then show ?thesis
    using other cy(2) unfolding blocks_ok_def by (fastforce split: if_splits)
qed

lemma del_free_core:
  assumes "core s" "z < NR_ZONES" "(p, k) \<in> fblocks s z"
  shows "core (del_free s z p k)" "pending (del_free s z p k) z p k"
proof -
  let ?s = "del_free s z p k"
  note c = coreD [OF assms(1,2)]
  have k: "k < MAX_ORDER" using assms(3) by (simp add: fblocks_def)
  note pk = blocks_okD [OF c(2) assms(3)]
  note fb = fblocks_del [OF c(1) k, of p]
  have sub: "fblocks ?s y \<subseteq> fblocks s y" for y using fb by (cases "y = z") auto
  have lists: "lists_ok ?s y" if "y < NR_ZONES" for y
    using coreD(1) [OF assms(1) that] assms(3)
    by (cases "y = z") (auto simp: lists_ok_def del_free_def fblocks_def length_remove1)
  have disj: "disj_ok ?s y" if "y < NR_ZONES" for y
    using coreD(3) [OF assms(1) that] sub [of y] unfolding disj_ok_def by blast
  have maxi: "maximal ?s y" if "y < NR_ZONES" for y
    using coreD(4) [OF assms(1) that] sub [of y] unfolding maximal_def by blast
  have heads: "heads_ok ?s"
    unfolding heads_ok_def
  proof (intro allI impI)
    fix q
    assume a: "pfn_valid ?s q \<and> is_buddy ?s q"
    then have "(q, porder (mem_map s q)) \<in> fblocks s (pfn_zone s q)" "q \<noteq> p"
      using c(6) by (auto simp: heads_ok_def)
    then show "(q, porder (mem_map ?s q)) \<in> fblocks ?s (pfn_zone ?s q)"
      using fb by (cases "pfn_zone s q = z") auto
  qed
  show "core ?s"
    using c(5) heads lists disj maxi blocks_ok_del [OF assms] by (simp add: core_def)
  show "pending ?s z p k"
    using assms(2) pk free_set_del [OF c(1,3) assms(3)] by (auto simp: pending_def)
qed

lemma pending_not_head:
  assumes "core s" "pending s z p k" "y < NR_ZONES" "(q, l) \<in> fblocks s y"
  shows "q \<notin> blk p k"
proof (cases "y = z")
  case True
  then have "q \<in> free_set s z" using assms(4) fblocks_free_set blk_self by blast
  then show ?thesis using assms(2) by (auto simp: pending_def)
next
  case False
  have z: "z < NR_ZONES" "good_blk s z p k" using assms(2) by (auto simp: pending_def)
  have "blk q l \<inter> blk p k = {}"
    using zones_apart [OF coreD(5) [OF assms(1,3)] assms(3) z(1) False
        blocks_okD(1) [OF coreD(2) [OF assms(1,3)] assms(4)] z(2)] .
  then show ?thesis using blk_self by blast
qed

lemma add_free_core:
  assumes "core s" "pending s z p k" "k < MAX_ORDER - 1 \<Longrightarrow> (p XOR 2 ^ k, k) \<notin> fblocks s z"
  shows "core (add_free s z p k)"
proof -
  let ?s = "add_free s z p k"
  from assms(2) have z: "z < NR_ZONES" and g: "good_blk s z p k" and dj: "blk p k \<inter> free_set s z = {}"
    and cl: "\<forall>q \<in> blk p k. clean s q" by (auto simp: pending_def)
  have k: "k < MAX_ORDER" using g by (simp add: good_blk_def)
  note c = coreD [OF assms(1) z]
  note fb = fblocks_add [OF k, of s z p]
  have new: "q \<noteq> p" if "(q, l) \<in> fblocks s y" "y < NR_ZONES" for q l y
    using pending_not_head [OF assms(1,2) that(2,1)] blk_self by metis
  have lists: "lists_ok ?s y" if "y < NR_ZONES" for y
    using coreD(1) [OF assms(1) that] new [OF _ that] k
    by (cases "y = z") (auto simp: lists_ok_def add_free_def fblocks_def)
  have disj: "disj_ok ?s y" if "y < NR_ZONES" for y
  proof (cases "y = z")
    case True
    have "blk q l \<inter> blk p k = {}" if "(q, l) \<in> fblocks s z" for q l
      using fblocks_free_set [OF that] dj by blast
    then show ?thesis using c(3) fb True unfolding disj_ok_def by fastforce
  qed (use coreD(3) [OF assms(1) that] in \<open>simp add: disj_ok_def\<close>)
  have maxi: "maximal ?s y" if "y < NR_ZONES" for y
  proof (cases "y = z")
    case True
    have "(q XOR 2 ^ l, l) \<notin> insert (p, k) (fblocks s z)"
      if ql: "(q, l) \<in> insert (p, k) (fblocks s z)" and l: "l < MAX_ORDER - 1" for q l
    proof (cases "(q, l) = (p, k)")
      case True
      then show ?thesis using assms(3) l xor_pow2_ne [of p k] by simp
    next
      case False
      then have qf: "(q, l) \<in> fblocks s z" using ql by blast
      then have "(q XOR 2 ^ l, l) \<notin> fblocks s z" using c(4) l by (auto simp: maximal_def)
      moreover have "(q XOR 2 ^ l, l) \<noteq> (p, k)"
      proof
        assume "(q XOR 2 ^ l, l) = (p, k)"
        then have "q = p XOR 2 ^ k" "l = k" by auto
        then show False using qf l assms(3) by simp
      qed
      ultimately show ?thesis by simp
    qed
    then show ?thesis using fb True by (auto simp: maximal_def)
  qed (use coreD(4) [OF assms(1) that] in \<open>simp add: maximal_def\<close>)
  have blocks: "blocks_ok ?s y" if "y < NR_ZONES" for y
  proof -
    have "good_blk s y q l \<and> is_buddy ?s q \<and> porder (mem_map ?s q) = l \<and> (\<forall>r \<in> blk q l. clean s r)"
      if ql: "(q, l) \<in> fblocks ?s y" for q l
    proof (cases "(q, l) \<in> fblocks s y")
      case True
      then show ?thesis
        using blocks_okD [OF coreD(2) [OF assms(1) \<open>y < NR_ZONES\<close>] True] new [OF True \<open>y < NR_ZONES\<close>] by simp
    next
      case False
      then have "y = z" "q = p" "l = k" using ql fb by (cases "y = z"; auto)+
      then show ?thesis using g cl by simp
    qed
    then show ?thesis by (auto simp: blocks_ok_def)
  qed
  have heads: "heads_ok ?s"
    unfolding heads_ok_def
  proof (intro allI impI)
    fix q
    assume a: "pfn_valid ?s q \<and> is_buddy ?s q"
    show "(q, porder (mem_map ?s q)) \<in> fblocks ?s (pfn_zone ?s q)"
    proof (cases "q = p")
      case True
      then show ?thesis using fb pfn_zone_blk [OF c(5) z g blk_self] by simp
    next
      case False
      then have "(q, porder (mem_map s q)) \<in> fblocks s (pfn_zone s q)"
        using a c(6) by (auto simp: heads_ok_def)
      then show ?thesis using False fb by (cases "pfn_zone s q = z") auto
    qed
  qed
  show ?thesis using c(5) heads lists disj maxi blocks by (simp add: core_def)
qed


subsection \<open>Freeing merges up to a maximal block\<close>

lemma same_rest_refl [simp]: "same_rest a a"
  by (simp add: same_rest_def)

lemma same_rest_trans: "same_rest a b \<Longrightarrow> same_rest b c \<Longrightarrow> same_rest a c"
  by (simp add: same_rest_def)

lemma pg_frame_refl [simp]: "pg_frame s s z A"
  by (simp add: pg_frame_def)

lemma pg_frame_trans: "pg_frame s s1 z A \<Longrightarrow> pg_frame s1 s2 z A \<Longrightarrow> pg_frame s s2 z A"
  unfolding pg_frame_def by (auto intro: same_rest_trans)

lemma same_rest_list_ops:
  "same_rest (mem_map (add_free s z p k) q) (mem_map s q)" "same_rest (mem_map (del_free s z p k) q) (mem_map s q)"
  by (auto simp: same_rest_def add_free_def del_free_def flag_simps)

lemma pg_frame_add: "p \<in> A \<Longrightarrow> pg_frame s (add_free s z p k) z A"
  using clean_frame(1) [of s z p k] same_rest_list_ops(1) [of s z p k] by (auto simp: pg_frame_def add_free_def)

lemma pg_frame_del: "p \<in> A \<Longrightarrow> pg_frame s (del_free s z p k) z A"
  using clean_frame(2) [of s z p k] same_rest_list_ops(2) [of s z p k] by (auto simp: pg_frame_def del_free_def)

lemma pg_frame_good: "pg_frame s s' z A \<Longrightarrow> good_blk s' y p k = good_blk s y p k"
  by (simp add: pg_frame_def good_blk_def)

lemma pg_frame_pfn_zone: "pg_frame s s' z A \<Longrightarrow> pfn_zone s' q = pfn_zone s q"
  by (simp add: pg_frame_def pfn_zone_def)

lemma pg_frame_free_set: "pg_frame s s' z A \<Longrightarrow> y \<noteq> z \<Longrightarrow> free_set s' y = free_set s y"
  by (simp add: pg_frame_def free_set_def fblocks_def)

lemma buddy_is_free:
  assumes "core s" "z < NR_ZONES" "pfn_valid s b" "start_pfn (zones s z) \<le> b" "b < end_pfn (zones s z)"
    "is_buddy s b"
  shows "(b, porder (mem_map s b)) \<in> fblocks s z"
proof -
  have "good_blk s z b 0" using assms by (auto simp: good_blk_def pfn_valid_def MAX_ORDER_def)
  then have "pfn_zone s b = z" using pfn_zone_blk [OF coreD(5) [OF assms(1,2)] assms(2)] blk_self by blast
  then show ?thesis using coreD(6) [OF assms(1,2)] assms(3,6) by (auto simp: heads_ok_def)
qed

lemma merge_step:
  assumes "core s" "pending s z p k" "(p XOR 2 ^ k, k) \<in> fblocks s z" "k < MAX_ORDER - 1"
  shows "core (del_free s z (p XOR 2 ^ k) k)"
    "pending (del_free s z (p XOR 2 ^ k) k) z (unset_bit k p) (Suc k)"
    "free_set (del_free s z (p XOR 2 ^ k) k) z \<union> blk (unset_bit k p) (Suc k) = free_set s z \<union> blk p k"
proof -
  let ?b = "p XOR 2 ^ k"
  have z: "z < NR_ZONES" and g: "good_blk s z p k" and dj: "blk p k \<inter> free_set s z = {}"
    and cl: "\<forall>q \<in> blk p k. clean s q" using assms(2) by (auto simp: pending_def)
  note c = coreD [OF assms(1) z]
  note b = blocks_okD [OF c(2) assms(3)] and d = del_free_core [OF assms(1) z assms(3)]
  show "core (del_free s z ?b k)" by (rule d(1))
  note fs = free_set_del [OF c(1,3) assms(3)] and sub = fblocks_free_set [OF assms(3)]
  have al: "2 ^ k dvd p" using g by (simp add: good_blk_def)
  note h = buddy_halves [OF al]
  show "free_set (del_free s z ?b k) z \<union> blk (unset_bit k p) (Suc k) = free_set s z \<union> blk p k"
    using fs sub h(2) by auto
  have "good_blk s z (unset_bit k p) (Suc k)"
  proof -
    have "blk (unset_bit k p) (Suc k) \<subseteq> {base_pfn s ..< base_pfn s + map_pfns s} \<inter> {start_pfn (zones s z) ..< end_pfn (zones s z)}"
      using g b(1) unfolding h(2) by (auto simp: good_blk_def blk_def)
    then have "base_pfn s \<le> unset_bit k p" "unset_bit k p + 2 ^ Suc k \<le> base_pfn s + map_pfns s"
      "start_pfn (zones s z) \<le> unset_bit k p" "unset_bit k p + 2 ^ Suc k \<le> end_pfn (zones s z)"
      unfolding blk_def by (auto simp: ivl_subset)
    then show ?thesis using h(1) assms(4) by (simp add: good_blk_def)
  qed
  then show "pending (del_free s z ?b k) z (unset_bit k p) (Suc k)"
    using z fs dj sub b(4) cl unfolding pending_def h(2) by auto
qed

lemma buddy_merge_core:
  assumes "core s" "pending s z p k" "buddy_merge s z p k = (s', p', k')" "free_set s z \<union> blk p k \<subseteq> A"
  shows "core s' \<and> pending s' z p' k' \<and> free_set s' z \<union> blk p' k' = free_set s z \<union> blk p k \<and>
    (k' < MAX_ORDER - 1 \<longrightarrow> (p' XOR 2 ^ k', k') \<notin> fblocks s' z) \<and> pg_frame s s' z A"
  using assms
proof (induction s z p k rule: buddy_merge.induct)
  case (1 s z p k)
  let ?b = "p XOR 2 ^ k"
  let ?c = "k < MAX_ORDER - 1 \<and> pfn_valid s ?b \<and> start_pfn (zones s z) \<le> ?b \<and> ?b < end_pfn (zones s z) \<and>
            is_buddy s ?b \<and> porder (mem_map s ?b) = k"
  have z: "z < NR_ZONES" using "1.prems"(2) by (simp add: pending_def)
  show ?case
  proof (cases ?c)
    case True
    then have f: "(?b, k) \<in> fblocks s z" using buddy_is_free [OF "1.prems"(1) z] by fastforce
    have k: "k < MAX_ORDER - 1" using True by blast
    note st = merge_step [OF "1.prems"(1,2) f k]
    have bm: "buddy_merge (del_free s z ?b k) z (unset_bit k p) (k + 1) = (s', p', k')"
      using "1.prems"(3) True by (subst (asm) buddy_merge.simps) (simp add: Let_def is_buddy_def not_less)
    have A: "free_set (del_free s z ?b k) z \<union> blk (unset_bit k p) (k + 1) \<subseteq> A"
      using st(3) "1.prems"(4) by simp
    have "?b \<in> A" using fblocks_free_set [OF f] blk_self "1.prems"(4) by blast
    note fr = pg_frame_del [OF this, of s z k]
    have "core s' \<and> pending s' z p' k' \<and>
       free_set s' z \<union> blk p' k' = free_set (del_free s z ?b k) z \<union> blk (unset_bit k p) (k + 1) \<and>
       (k' < MAX_ORDER - 1 \<longrightarrow> (p' XOR 2 ^ k', k') \<notin> fblocks s' z) \<and> pg_frame (del_free s z ?b k) s' z A"
      using "1.IH" [OF _ refl _ _ st(1) _ bm A] True st(2) by (simp add: is_buddy_def not_less)
    then show ?thesis using st(3) pg_frame_trans [OF fr] by simp
  next
    case False
    then have r: "s' = s" "p' = p" "k' = k"
      using "1.prems"(3) by (subst (asm) buddy_merge.simps; auto simp: Let_def is_buddy_def not_less split: if_splits)+
    have "(?b, k) \<notin> fblocks s z" if k: "k < MAX_ORDER - 1"
    proof
      assume f: "(?b, k) \<in> fblocks s z"
      note b = blocks_okD [OF coreD(2) [OF "1.prems"(1) z] f]
      have "0 < (2 :: nat) ^ k" by simp
      then have "pfn_valid s ?b" "start_pfn (zones s z) \<le> ?b" "?b < end_pfn (zones s z)"
        using b(1) unfolding good_blk_def pfn_valid_def by linarith+
      then show False using b(2,3) k False by blast
    qed
    then show ?thesis using r "1.prems" by simp
  qed
qed

lemma cnt_frame [simp]:
  "base_pfn (add_free_cnt s z n) = base_pfn s" "base_pfn (sub_free_cnt s z n) = base_pfn s"
  "map_pfns (add_free_cnt s z n) = map_pfns s" "map_pfns (sub_free_cnt s z n) = map_pfns s"
  "mem_map (add_free_cnt s z n) = mem_map s" "mem_map (sub_free_cnt s z n) = mem_map s"
  "ram (add_free_cnt s z n) = ram s" "ram (sub_free_cnt s z n) = ram s"
  "start_pfn (zones (add_free_cnt s z n) y) = start_pfn (zones s y)"
  "start_pfn (zones (sub_free_cnt s z n) y) = start_pfn (zones s y)"
  "end_pfn (zones (add_free_cnt s z n) y) = end_pfn (zones s y)"
  "end_pfn (zones (sub_free_cnt s z n) y) = end_pfn (zones s y)"
  "free_area (zones (add_free_cnt s z n) y) = free_area (zones s y)"
  "free_area (zones (sub_free_cnt s z n) y) = free_area (zones s y)"
  "nr_free (zones (add_free_cnt s z n) y) = nr_free (zones s y)"
  "nr_free (zones (sub_free_cnt s z n) y) = nr_free (zones s y)"
  "managed_pages (zones (add_free_cnt s z n) y) = managed_pages (zones s y)"
  "managed_pages (zones (sub_free_cnt s z n) y) = managed_pages (zones s y)"
  "free_cnt (zones (add_free_cnt s z n) y) = (if y = z then free_cnt (zones s z) + n else free_cnt (zones s y))"
  "free_cnt (zones (sub_free_cnt s z n) y) = (if y = z then free_cnt (zones s z) - n else free_cnt (zones s y))"
  by (simp_all add: add_free_cnt_def sub_free_cnt_def)

text \<open>Everything the invariant reads, apart from the free-page counters.\<close>

lemma core_cong:
  assumes "base_pfn t = base_pfn s" "map_pfns t = map_pfns s"
    "\<And>y. start_pfn (zones t y) = start_pfn (zones s y)" "\<And>y. end_pfn (zones t y) = end_pfn (zones s y)"
    "\<And>y. free_area (zones t y) = free_area (zones s y)" "\<And>y. nr_free (zones t y) = nr_free (zones s y)"
    "\<And>q. pflags (mem_map t q) = pflags (mem_map s q)" "\<And>q. porder (mem_map t q) = porder (mem_map s q)"
  shows "core t = core s" "pending t = pending s" "fblocks t = fblocks s" "free_set t = free_set s"
    "pfn_zone t = pfn_zone s" "pfn_valid t = pfn_valid s" "clean t = clean s" "is_buddy t = is_buddy s"
    "good_blk t = good_blk s"
proof -
  show fb: "fblocks t = fblocks s" using assms by (auto simp: fblocks_def fun_eq_iff)
  show fs: "free_set t = free_set s" by (simp add: free_set_def fb fun_eq_iff)
  show pz: "pfn_zone t = pfn_zone s" and pv: "pfn_valid t = pfn_valid s"
    using assms by (auto simp: pfn_zone_def pfn_valid_def fun_eq_iff)
  show cl: "clean t = clean s" and ib: "is_buddy t = is_buddy s" and gb: "good_blk t = good_blk s"
    using assms by (auto simp: clean_def is_buddy_def good_blk_def fun_eq_iff)
  show "pending t = pending s" by (simp add: pending_def fs cl gb fun_eq_iff)
  have "zone_bounds t = zone_bounds s" using assms by (simp add: zone_bounds_def)
  moreover have "heads_ok t = heads_ok s" using assms by (simp add: heads_ok_def fb pz pv ib)
  moreover have "lists_ok t = lists_ok s" "blocks_ok t = blocks_ok s" "disj_ok t = disj_ok s" "maximal t = maximal s"
    using assms by (simp_all add: lists_ok_def blocks_ok_def disj_ok_def maximal_def fb cl ib gb fun_eq_iff)
  ultimately show "core t = core s" by (simp add: core_def)
qed

lemma core_cnt [simp]:
  "core (add_free_cnt s z n) = core s" "core (sub_free_cnt s z n) = core s"
  "pending (add_free_cnt s z n) = pending s" "pending (sub_free_cnt s z n) = pending s"
  "free_set (add_free_cnt s z n) = free_set s" "free_set (sub_free_cnt s z n) = free_set s"
  "fblocks (add_free_cnt s z n) = fblocks s" "fblocks (sub_free_cnt s z n) = fblocks s"
  by (simp_all add: core_cong [of "add_free_cnt s z n" s] core_cong [of "sub_free_cnt s z n" s])

lemma free_set_bound:
  assumes "core s" "z < NR_ZONES"
  shows "free_set s z \<subseteq> {base_pfn s ..< base_pfn s + map_pfns s}" "finite (free_set s z)"
proof -
  have "blk p k \<subseteq> {base_pfn s ..< base_pfn s + map_pfns s}" if "(p, k) \<in> fblocks s z" for p k
    using blocks_okD(1) [OF coreD(2) [OF assms] that] by (auto simp: good_blk_def blk_def)
  then show *: "free_set s z \<subseteq> {base_pfn s ..< base_pfn s + map_pfns s}" by (auto simp: free_set_def)
  then show "finite (free_set s z)" using finite_subset by blast
qed

lemma free_block_spec:
  assumes "pg_inv s" "pending s z p k"
  shows "pg_inv (free_block s p k)" "free_set (free_block s p k) z = free_set s z \<union> blk p k"
    "y \<noteq> z \<Longrightarrow> free_set (free_block s p k) y = free_set s y"
    "pg_keeps s (free_block s p k) (free_set s z \<union> blk p k)"
    "clean (free_block s p k) q = clean s q"
proof -
  have z: "z < NR_ZONES" and g: "good_blk s z p k" and dj: "blk p k \<inter> free_set s z = {}"
    using assms(2) by (auto simp: pending_def)
  have c: "core s" and n: "counted s" using assms(1) by (auto simp: pg_inv_def)
  have pz: "pfn_zone s p = z" using pfn_zone_blk [OF coreD(5) [OF c z] z g blk_self] .
  let ?s1 = "add_free_cnt s z (2 ^ k)"
  obtain s2 p' k' where bm: "buddy_merge ?s1 z p k = (s2, p', k')" by (metis prod_cases3)
  let ?s3 = "add_free s2 z p' k'"
  have eq: "free_block s p k = ?s3" by (simp add: free_block_def pz Let_def bm)
  let ?A = "free_set s z \<union> blk p k"
  have "core ?s1" "pending ?s1 z p k" using c assms(2) by simp_all
  note m = buddy_merge_core [OF this bm, of ?A, simplified]
  have k': "k' < MAX_ORDER" and dj': "blk p' k' \<inter> free_set s2 z = {}"
    using m by (auto simp: pending_def good_blk_def)
  have pA: "p' \<in> ?A" using m blk_self by blast
  have co: "core ?s3" using add_free_core [of s2 z p' k'] m by simp
  have fs: "free_set ?s3 z = ?A" using free_set_add [OF k'] m by auto
  have fs': "free_set ?s3 y = free_set s y" if "y \<noteq> z" for y
    using that pg_frame_free_set [of ?s1 s2 z ?A y] m by simp
  have fr: "pg_frame ?s1 ?s3 z ?A" using m pg_frame_add [OF pA] pg_frame_trans by blast
  have "counted ?s3"
    unfolding counted_def
  proof (intro allI impI)
    fix y assume y: "y < NR_ZONES"
    have "free_cnt (zones ?s3 y) = free_cnt (zones ?s1 y)" using fr by (simp add: pg_frame_def)
    moreover have "card ?A = card (free_set s z) + 2 ^ k"
      using card_Un_disjoint [OF free_set_bound(2) [OF c z] finite_blk, of p k] dj by (simp add: Int_commute)
    ultimately show "free_cnt (zones ?s3 y) = card (free_set ?s3 y)"
      using fs fs' n y z by (cases "y = z") (simp_all add: counted_def)
  qed
  then show "pg_inv (free_block s p k)" using co by (simp add: pg_inv_def eq)
  show "free_set (free_block s p k) z = ?A" by (simp add: eq fs)
  show "y \<noteq> z \<Longrightarrow> free_set (free_block s p k) y = free_set s y" unfolding eq by (rule fs')
  show "pg_keeps s (free_block s p k) ?A" "clean (free_block s p k) q = clean s q"
    using fr by (auto simp: pg_keeps_def pg_frame_def eq clean_def)
qed


subsection \<open>Allocating splits a free block\<close>

lemma split_block_core:
  assumes "core s" "pending s z p k" "t \<le> k" "blk p k \<subseteq> A"
    "\<forall>l. t \<le> l \<and> l < k \<longrightarrow> (p, l) \<notin> fblocks s z"
  shows "core (split_block s z p k t) \<and> pending (split_block s z p k t) z p t \<and>
    free_set (split_block s z p k t) z = free_set s z \<union> (blk p k - blk p t) \<and>
    pg_frame s (split_block s z p k t) z A"
  using assms
proof (induction s z p k t rule: split_block.induct)
  case (1 s z p k t)
  show ?case
  proof (cases "t < k")
    case False
    then have "t = k" using "1.prems"(3) by simp
    then show ?thesis using "1.prems" by (subst (1 2 3 4) split_block.simps) simp
  next
    case True
    then obtain l where l: "k = Suc l" by (cases k) auto
    have z: "z < NR_ZONES" and g: "good_blk s z p k" and dj: "blk p k \<inter> free_set s z = {}"
      and cl: "\<forall>q \<in> blk p k. clean s q" using "1.prems"(2) by (auto simp: pending_def)
    have al: "2 ^ Suc l dvd p" using g l by (simp add: good_blk_def)
    note u = upper_half [OF al]
    have lm: "l < MAX_ORDER" using g l by (simp add: good_blk_def)
    have gu: "good_blk s z (p + 2 ^ l) l" "good_blk s z p l"
      using g l u(2,3) lm by (auto simp: good_blk_def)
    let ?s1 = "add_free s z (p + 2 ^ l) l"
    have pu: "pending s z (p + 2 ^ l) l"
      using gu z dj cl u(4) l unfolding pending_def by blast
    have "(p, l) \<notin> fblocks s z" using "1.prems"(5) True l by simp
    then have co: "core ?s1" using add_free_core [OF "1.prems"(1) pu] u(1) by simp
    have fs: "free_set ?s1 z = blk (p + 2 ^ l) l \<union> free_set s z" by (rule free_set_add [OF lm])
    have "pending ?s1 z p l"
      using gu(2) z dj cl u(4,5) l fs unfolding pending_def by auto
    moreover have "\<forall>i. t \<le> i \<and> i < l \<longrightarrow> (p, i) \<notin> fblocks ?s1 z"
      using "1.prems"(5) l fblocks_add [OF lm, of s z "p + 2 ^ l"] by auto
    moreover have "blk p l \<subseteq> A" using "1.prems"(4) u(4) l by blast
    ultimately have ih: "core (split_block ?s1 z p l t) \<and> pending (split_block ?s1 z p l t) z p t \<and>
        free_set (split_block ?s1 z p l t) z = free_set ?s1 z \<union> (blk p l - blk p t) \<and>
        pg_frame ?s1 (split_block ?s1 z p l t) z A"
      using "1.IH" [OF True] co l True by simp
    have e: "split_block s z p k t = split_block ?s1 z p l t"
      using True l by (subst split_block.simps) simp
    have "p + 2 ^ l \<in> A" using "1.prems"(4) u(4) l blk_self by blast
    then have "pg_frame s ?s1 z A" by (rule pg_frame_add)
    moreover have "blk p t \<subseteq> blk p l" using True l by (auto simp: blk_def intro: order_less_le_trans power_increasing)
    ultimately show ?thesis using ih fs u(4,5) l pg_frame_trans unfolding e by blast
  qed
qed

lemma find_order_Some:
  "find_order s z n = Some k \<Longrightarrow> n \<le> k \<and> k < MAX_ORDER \<and> free_area (zones s z) k \<noteq> []"
proof (induction s z n rule: find_order.induct)
  case (1 s z n)
  then show ?case by (subst (asm) (2) find_order.simps) (fastforce split: if_splits)
qed

lemma find_order_None:
  "find_order s z n = None \<Longrightarrow> n \<le> k \<Longrightarrow> k < MAX_ORDER \<Longrightarrow> free_area (zones s z) k = []"
proof (induction s z n rule: find_order.induct)
  case (1 s z n)
  have "free_area (zones s z) n = []" "find_order s z (n + 1) = None"
    using "1.prems" by (subst (asm) find_order.simps; auto split: if_splits)+
  then show ?case using "1.IH" "1.prems"(2,3) by (cases "k = n") auto
qed

lemma alloc_block_None:
  assumes "alloc_block s z n = (None, s')"
  shows "s' = s" "(q, k) \<in> fblocks s z \<Longrightarrow> k < n"
proof -
  have f: "find_order s z n = None" and "s' = s"
    using assms by (auto simp: alloc_block_def Let_def split: option.splits)
  then show "s' = s" by simp
  show "k < n" if "(q, k) \<in> fblocks s z"
    using find_order_None [OF f, of k] that by (cases "n \<le> k") (auto simp: fblocks_def)
qed

lemma alloc_block_Some:
  assumes "pg_inv s" "z < NR_ZONES" "alloc_block s z n = (Some p, s')"
  shows "pg_inv s'" "pending s' z p n" "blk p n \<subseteq> free_set s z" "free_set s' z = free_set s z - blk p n"
    "y \<noteq> z \<Longrightarrow> free_set s' y = free_set s y" "pg_keeps s s' (free_set s z)"
    "clean s' q = clean s q"
proof -
  have c: "core s" and cn: "counted s" using assms(1) by (auto simp: pg_inv_def)
  obtain k where k: "find_order s z n = Some k" using assms(3) by (auto simp: alloc_block_def split: option.splits)
  note fk = find_order_Some [OF k]
  let ?s1 = "del_free s z p k"
  let ?s2 = "split_block ?s1 z p k n"
  have p: "p = hd (free_area (zones s z) k)" and s': "s' = sub_free_cnt ?s2 z (2 ^ n)"
    using assms(3) k by (auto simp: alloc_block_def Let_def)
  have pk: "(p, k) \<in> fblocks s z" using fk p by (simp add: fblocks_def)
  note d = del_free_core [OF c assms(2) pk] and cs = coreD [OF c assms(2)]
  note fs1 = free_set_del [OF cs(1,3) pk] and sub = fblocks_free_set [OF pk]
  have nh: "(p, l) \<notin> fblocks ?s1 z" for l
    using pending_not_head [OF d(1,2) assms(2)] blk_self by blast
  have sp: "core ?s2 \<and> pending ?s2 z p n \<and> free_set ?s2 z = free_set ?s1 z \<union> (blk p k - blk p n) \<and>
      pg_frame ?s1 ?s2 z (free_set s z)"
    using split_block_core [OF d, of n] fk nh sub by blast
  have fr: "pg_frame s ?s2 z (free_set s z)"
    using sp sub pg_frame_del [of p "free_set s z" s z k] pg_frame_trans blk_self by blast
  have "(2 :: nat) ^ n \<le> 2 ^ k" using fk by (simp add: power_increasing)
  then have bs: "blk p n \<subseteq> blk p k" by (auto simp: blk_def)
  then show bn: "blk p n \<subseteq> free_set s z" using sub by blast
  have fs2: "free_set ?s2 z = free_set s z - blk p n" using sp fs1 sub bs by auto
  then show fz: "free_set s' z = free_set s z - blk p n" by (simp add: s')
  have fo: "free_set s' y = free_set s y" if "y \<noteq> z" for y
    using that pg_frame_free_set [OF fr] by (simp add: s')
  then show "y \<noteq> z \<Longrightarrow> free_set s' y = free_set s y" .
  show "pending s' z p n" using sp by (simp add: s')
  have "counted s'"
    unfolding counted_def
  proof (intro allI impI)
    fix y assume y: "y < NR_ZONES"
    have "free_cnt (zones ?s2 y) = card (free_set s y)" using fr cn y by (simp add: pg_frame_def counted_def)
    then show "free_cnt (zones s' y) = card (free_set s' y)"
      using fz fo [of y] card_Diff_subset [OF finite_blk bn] by (cases "y = z") (simp_all add: s')
  qed
  then show "pg_inv s'" using sp by (simp add: pg_inv_def s')
  show "pg_keeps s s' (free_set s z)" "clean s' q = clean s q"
    using fr by (auto simp: pg_keeps_def pg_frame_def s' clean_def)
qed


subsection \<open>The free lists are the coarsest decomposition of the free pages\<close>

lemma aligned_nest:
  assumes "2 ^ k dvd p" "2 ^ l dvd q" "k \<le> l" "x \<in> blk p k" "x \<in> blk q l"
  shows "blk p k \<subseteq> blk q l"
proof -
  obtain a where a: "p = 2 ^ k * a" using assms(1) by blast
  obtain c where c: "(2 :: nat) ^ l = 2 ^ k * c" using assms(3) le_imp_power_dvd by blast
  obtain b where b: "q = 2 ^ k * b" using assms(2) c by (metis dvdE mult.assoc)
  have "x < 2 ^ k * (a + 1)" "2 ^ k * b \<le> x" "2 ^ k * a \<le> x" "x < 2 ^ k * (b + c)"
    using assms(4,5) a b c by (auto simp: blk_def algebra_simps)
  then have "2 ^ k * b < 2 ^ k * (a + 1)" "2 ^ k * a < 2 ^ k * (b + c)" by linarith+
  then have "b < a + 1" "a < b + c" by (simp_all only: mult_less_cancel1)
  then have "b \<le> a" "a + 1 \<le> b + c" by simp_all
  then have "2 ^ k * b \<le> 2 ^ k * a" "2 ^ k * (a + 1) \<le> 2 ^ k * (b + c)" by (simp_all only: mult_le_mono2)
  then show ?thesis using a b c by (auto simp: blk_def algebra_simps)
qed

lemma free_block_covered:
  assumes "core s" "z < NR_ZONES" "2 ^ k dvd p" "k < MAX_ORDER" "blk p k \<subseteq> free_set s z"
  shows "\<exists>q l. (q, l) \<in> fblocks s z \<and> k \<le> l \<and> blk p k \<subseteq> blk q l"
  using assms(3-5)
proof (induction k arbitrary: p)
  case 0
  then have "p \<in> free_set s z" using blk_self by blast
  then obtain q l where "(q, l) \<in> fblocks s z" "p \<in> blk q l" by (auto simp: free_set_def)
  moreover have "blk p 0 = {p}" by (auto simp: blk_def)
  ultimately show ?case by auto
next
  case (Suc k)
  note c = coreD [OF assms(1,2)] and u = upper_half [OF Suc.prems(1)]
  have al: "2 ^ l dvd q" if "(q, l) \<in> fblocks s z" for q l
    using blocks_okD(1) [OF c(2) that] by (simp add: good_blk_def)
  obtain q1 l1 where 1: "(q1, l1) \<in> fblocks s z" "k \<le> l1" "blk p k \<subseteq> blk q1 l1"
    using Suc.IH [OF u(2)] Suc.prems u(4) by auto
  obtain q2 l2 where 2: "(q2, l2) \<in> fblocks s z" "k \<le> l2" "blk (p + 2 ^ k) k \<subseteq> blk q2 l2"
    using Suc.IH [OF u(3)] Suc.prems u(4) by auto
  have in1: "p \<in> blk p (Suc k)" "p \<in> blk q1 l1" using 1(3) blk_self by blast+
  have in2: "p + 2 ^ k \<in> blk p (Suc k)" "p + 2 ^ k \<in> blk q2 l2" using 2(3) u(4) blk_self by blast+
  show ?case
  proof (cases "k < l1")
    case True
    then show ?thesis using 1(1) aligned_nest [OF Suc.prems(1) al [OF 1(1)] _ in1] by (metis Suc_leI)
  next
    case F1: False
    show ?thesis
    proof (cases "k < l2")
      case True
      then show ?thesis using 2(1) aligned_nest [OF Suc.prems(1) al [OF 2(1)] _ in2] by (metis Suc_leI)
    next
      case False
      then have "l1 = k" "l2 = k" using F1 1(2) 2(2) by simp_all
      moreover have "q1 = p" "q2 = p + 2 ^ k"
        using 1(3) 2(3) calculation by (auto simp: blk_def)
      ultimately have "(p, k) \<in> fblocks s z" "(p + 2 ^ k, k) \<in> fblocks s z" using 1(1) 2(1) by simp_all
      then show ?thesis using c(4) u(1) Suc.prems(2) unfolding maximal_def by fastforce
    qed
  qed
qed

lemma fblocks_subset:
  assumes "core s" "core t" "z < NR_ZONES" "free_set s z = free_set t z"
  shows "fblocks s z \<subseteq> fblocks t z"
proof (rule subrelI)
  fix p k
  assume pk: "(p, k) \<in> fblocks s z"
  note cs = coreD [OF assms(1,3)] and ct = coreD [OF assms(2,3)]
  have "good_blk s z p k" using blocks_okD [OF cs(2) pk] by blast
  then have p: "2 ^ k dvd p" "k < MAX_ORDER" by (auto simp: good_blk_def)
  obtain q l where q: "(q, l) \<in> fblocks t z" "k \<le> l" "blk p k \<subseteq> blk q l"
    using free_block_covered [OF assms(2,3) p] fblocks_free_set [OF pk] assms(4) by auto
  have "good_blk t z q l" using blocks_okD [OF ct(2) q(1)] by blast
  then have "2 ^ l dvd q" "l < MAX_ORDER" by (auto simp: good_blk_def)
  then obtain r m where r: "(r, m) \<in> fblocks s z" "l \<le> m" "blk q l \<subseteq> blk r m"
    using free_block_covered [OF assms(1,3)] fblocks_free_set [OF q(1)] assms(4) by metis
  have "p \<in> blk p k \<inter> blk r m" using q(3) r(3) blk_self by blast
  then have "(r, m) = (p, k)" using cs(3) pk r(1) unfolding disj_ok_def by fastforce
  then have "l = k" "blk q l = blk p k" using q r by auto
  then have "q = p" using atLeastLessThan_inj(1) [of q "q + 2 ^ k" p "p + 2 ^ k"] by (simp add: blk_def)
  then show "(p, k) \<in> fblocks t z" using q(1) \<open>l = k\<close> by simp
qed

lemma fblocks_canonical:
  "core s \<Longrightarrow> core t \<Longrightarrow> z < NR_ZONES \<Longrightarrow> free_set s z = free_set t z \<Longrightarrow> fblocks s z = fblocks t z"
  using fblocks_subset [of s t z] fblocks_subset [of t s z] by auto


section \<open>Correctness of the exported operations\<close>

lemma alloc_block_taken:
  assumes "pg_inv s" "z < NR_ZONES" "alloc_block s z n = (Some p, s')"
  shows "taken s s' z p n"
  using alloc_block_Some [OF assms] assms(2) by (auto simp: taken_def fun_eq_iff)

lemma alloc_zones_Some:
  assumes "pg_inv s" "set zs \<subseteq> {..<NR_ZONES}" "alloc_zones s zs n = (Some p, s')"
  shows "\<exists>z \<in> set zs. taken s s' z p n"
  using assms
proof (induction zs)
  case (Cons z zs)
  obtain r t where a: "alloc_block s z n = (r, t)" by fastforce
  show ?case
  proof (cases r)
    case None
    then have "t = s" using alloc_block_None(1) a by blast
    then show ?thesis using Cons a None by auto
  next
    case (Some q)
    then show ?thesis using Cons.prems a alloc_block_taken [of s z n q t] by auto
  qed
qed simp

lemma alloc_zones_None:
  assumes "alloc_zones s zs n = (None, s')"
  shows "s' = s \<and> (\<forall>z \<in> set zs. \<forall>(q, k) \<in> fblocks s z. k < n)"
  using assms
proof (induction zs)
  case (Cons z zs)
  obtain r t where a: "alloc_block s z n = (r, t)" by fastforce
  have r: "r = None" using Cons.prems a by (cases r) auto
  then have t: "t = s" "\<forall>(q, k) \<in> fblocks s z. k < n" using alloc_block_None [of s z n t] a by auto
  then show ?case using Cons a r by auto
qed simp

lemma zone_list_ok: "set (zone_list g) \<subseteq> {..<NR_ZONES}"
  by (auto simp: zone_list_def NR_ZONES_def)

lemma pending_not_buddy:
  assumes "core s" "pending s z p k"
  shows "\<not> is_buddy s p"
proof
  assume b: "is_buddy s p"
  have z: "z < NR_ZONES" and g: "good_blk s z p k" using assms(2) by (auto simp: pending_def)
  have "0 < (2 :: nat) ^ k" by simp
  then have "pfn_valid s p" "start_pfn (zones s z) \<le> p" "p < end_pfn (zones s z)"
    using g unfolding good_blk_def pfn_valid_def by linarith+
  then have "(p, porder (mem_map s p)) \<in> fblocks s z" using buddy_is_free [OF assms(1) z] b by blast
  then show False using pending_not_head [OF assms z] blk_self by blast
qed

text \<open>Updates of reference counts and memory do not concern the invariant; nor does the order field of a
  page that heads no free block.\<close>

lemma page_data_frame [simp]:
  "base_pfn (set_refcounts s p n c) = base_pfn s" "map_pfns (set_refcounts s p n c) = map_pfns s"
  "zones (set_refcounts s p n c) = zones s" "ram (set_refcounts s p n c) = ram s"
  "pflags (mem_map (set_refcounts s p n c) q) = pflags (mem_map s q)"
  "porder (mem_map (set_refcounts s p n c) q) = porder (mem_map s q)"
  "base_pfn (clear_pages s p n) = base_pfn s" "map_pfns (clear_pages s p n) = map_pfns s"
  "zones (clear_pages s p n) = zones s" "mem_map (clear_pages s p n) = mem_map s"
  by (simp_all add: set_refcounts_def clear_pages_def)

lemma refcounts_core [simp]:
  "core (set_refcounts s p n c) = core s" "pending (set_refcounts s p n c) = pending s"
  "free_set (set_refcounts s p n c) = free_set s" "fblocks (set_refcounts s p n c) = fblocks s"
  "clean (set_refcounts s p n c) = clean s" "is_buddy (set_refcounts s p n c) = is_buddy s"
  "pfn_zone (set_refcounts s p n c) = pfn_zone s"
  by (simp_all add: core_cong [of "set_refcounts s p n c" s])

lemma clear_pages_core [simp]:
  "core (clear_pages s p n) = core s" "pending (clear_pages s p n) = pending s"
  "free_set (clear_pages s p n) = free_set s" "fblocks (clear_pages s p n) = fblocks s"
  by (simp_all add: core_cong [of "clear_pages s p n" s])

lemma set_porder_frame [simp]:
  "zones (set_porder s p k) = zones s" "free_set (set_porder s p k) = free_set s"
  "fblocks (set_porder s p k) = fblocks s" "is_buddy (set_porder s p k) = is_buddy s"
  "clean (set_porder s p k) = clean s" "good_blk (set_porder s p k) = good_blk s"
  "pfn_zone (set_porder s p k) = pfn_zone s" "pfn_valid (set_porder s p k) = pfn_valid s"
  "zone_bounds (set_porder s p k) = zone_bounds s"
  by (simp_all add: set_porder_def free_set_def fblocks_def is_buddy_def clean_def good_blk_def
      pfn_zone_def pfn_valid_def zone_bounds_def fun_eq_iff)

lemma set_porder_pending [simp]: "pending (set_porder s p k) = pending s"
  by (simp add: pending_def fun_eq_iff)

lemma set_porder_core:
  assumes "core s" "\<not> is_buddy s p"
  shows "core (set_porder s p n)"
proof -
  have h: "heads_ok s" and zb: "zone_bounds s" using assms(1) by (auto simp: core_def)
  have po: "porder (mem_map (set_porder s p n) q) = porder (mem_map s q)" if "q \<noteq> p" for q
    using that by (simp add: set_porder_def)
  have "heads_ok (set_porder s p n)" using h assms(2) po unfolding heads_ok_def by (auto; metis)
  moreover have "blocks_ok (set_porder s p n) z" if "z < NR_ZONES" for z
  proof -
    have "porder (mem_map (set_porder s p n) q) = k" if "(q, k) \<in> fblocks s z" for q k
      using blocks_okD [OF coreD(2) [OF assms(1) \<open>z < NR_ZONES\<close>] that] assms(2) po [of q] by auto
    then show ?thesis using coreD(2) [OF assms(1) that] unfolding blocks_ok_def by auto
  qed
  moreover have "lists_ok (set_porder s p n) z \<and> disj_ok (set_porder s p n) z \<and> maximal (set_porder s p n) z"
    if "z < NR_ZONES" for z
    using coreD [OF assms(1) that] by (simp add: lists_ok_def disj_ok_def maximal_def)
  ultimately show ?thesis using zb by (simp add: core_def)
qed

text \<open>The state after a successful page allocation, from the state after the zone loop.\<close>

lemma alloc_pages_cases:
  assumes "pg_inv s"
  obtains (none) "alloc_pages s g n = Inr (None, s)"
      "MAX_ORDER \<le> n \<or> (\<forall>z \<in> set (zone_list g). \<forall>(q, k) \<in> fblocks s z. k < n)"
    | (some) z p t where "z \<in> set (zone_list g)" "n < MAX_ORDER" "taken s t z p n"
      "alloc_pages s g n = Inr (Some p,
         if has_flag g GFP_ZERO then clear_pages (set_porder (set_refcounts t p (2 ^ n) 1) p n) p (2 ^ n)
         else set_porder (set_refcounts t p (2 ^ n) 1) p n)"
proof (cases "MAX_ORDER \<le> n")
  case True
  then show thesis using none by (simp add: alloc_pages_def)
next
  case False
  obtain r t where a: "alloc_zones s (zone_list g) n = (r, t)" by fastforce
  show thesis
  proof (cases r)
    case None
    then show thesis using alloc_zones_None [of s "zone_list g" n t] a none False by (simp add: alloc_pages_def)
  next
    case (Some p)
    then obtain z where z: "z \<in> set (zone_list g)" "taken s t z p n"
      using alloc_zones_Some [OF assms zone_list_ok, of g n p t] a by blast
    then have "\<forall>q \<in> blk p n. clean t q" by (auto simp: taken_def pending_def)
    then have "\<not> list_ex (\<lambda>i. has_flag (pflags (mem_map t (p + i))) (PG_RESERVED OR PG_SLAB)) [0..<2 ^ n]"
      by (auto simp: list_ex_iff clean_def blk_def)
    then show thesis using some [OF z(1) _ z(2)] a Some False by (simp add: alloc_pages_def Let_def)
  qed
qed

lemma finish_alloc:
  assumes "taken s t z p n"
    and "s' = (if g then clear_pages (set_porder (set_refcounts t p (2 ^ n) 1) p n) p (2 ^ n)
               else set_porder (set_refcounts t p (2 ^ n) 1) p n)"
  shows "pg_inv s'" "pending s' z p n" "free_set s' = (free_set s)(z := free_set s z - blk p n)"
    "q \<in> blk p n \<Longrightarrow> refcount (mem_map s' q) = 1"
    "q \<notin> blk p n \<Longrightarrow> refcount (mem_map s' q) = refcount (mem_map s q)"
    "q \<notin> free_set s z \<Longrightarrow> mem_map s' q = mem_map s q"
    "g \<Longrightarrow> p * 512 \<le> c \<Longrightarrow> c < (p + 2 ^ n) * 512 \<Longrightarrow> ram s' c = 0"
    "c < p * 512 \<or> (p + 2 ^ n) * 512 \<le> c \<Longrightarrow> ram s' c = ram s c"
    "zones s' = zones t" "\<not> g \<Longrightarrow> ram s' c = ram s c"
proof -
  have t: "core t" "counted t" "pending t z p n" "free_set t = (free_set s)(z := free_set s z - blk p n)"
    "pg_keeps s t (free_set s z)" "blk p n \<subseteq> free_set s z"
    using assms(1) by (auto simp: taken_def pg_inv_def)
  have "\<not> is_buddy (set_refcounts t p (2 ^ n) 1) p" using pending_not_buddy [OF t(1,3)] by simp
  then have "core s'" using t(1) set_porder_core assms(2) by simp
  moreover have "counted s'" using t(2) assms(2) by (simp add: counted_def)
  ultimately show "pg_inv s'" by (simp add: pg_inv_def)
  show "pending s' z p n" "free_set s' = (free_set s)(z := free_set s z - blk p n)" "zones s' = zones t"
    using t(3,4) assms(2) by simp_all
  show "q \<in> blk p n \<Longrightarrow> refcount (mem_map s' q) = 1"
    "q \<notin> blk p n \<Longrightarrow> refcount (mem_map s' q) = refcount (mem_map s q)"
    "g \<Longrightarrow> p * 512 \<le> c \<Longrightarrow> c < (p + 2 ^ n) * 512 \<Longrightarrow> ram s' c = 0"
    "c < p * 512 \<or> (p + 2 ^ n) * 512 \<le> c \<Longrightarrow> ram s' c = ram s c" "\<not> g \<Longrightarrow> ram s' c = ram s c"
    using t(5) assms(2) by (auto simp: set_porder_def set_refcounts_def clear_pages_def blk_def pg_keeps_def)
  assume q: "q \<notin> free_set s z"
  then have "q \<notin> blk p n" using t(6) by blast
  then show "mem_map s' q = mem_map s q"
    using q t(5) assms(2) blk_self [of p n]
    by (auto simp: set_porder_def set_refcounts_def clear_pages_def blk_def pg_keeps_def)
qed

text \<open>The contract of the allocator as its clients use it.\<close>

definition page_flag :: "pgstate \<Rightarrow> nat \<Rightarrow> u32 \<Rightarrow> bool" where
  "page_flag s p m = has_flag (pflags (mem_map s p)) m"

lemma alloc_pages_total:
  assumes "pg_inv s"
  shows "alloc_pages s g n = Inr (None, s) \<or> (\<exists>p s'. alloc_pages s g n = Inr (Some p, s'))"
  using assms by (cases rule: alloc_pages_cases [where g = g and n = n]) auto

lemma alloc_pages_SomeE:
  assumes "pg_inv s" "alloc_pages s g n = Inr (Some p, s')"
  obtains z where "z < NR_ZONES" "n < MAX_ORDER" "pg_inv s'" "pending s' z p n" "blk p n \<subseteq> free_set s z"
    "free_set s' = (free_set s)(z := free_set s z - blk p n)"
    "\<And>q. q \<notin> free_set s z \<Longrightarrow> mem_map s' q = mem_map s q"
    "\<And>q m. PG_BUDDY AND m = 0 \<Longrightarrow> page_flag s' q m = page_flag s q m"
    "\<And>c. c < p * 512 \<or> (p + 2 ^ n) * 512 \<le> c \<Longrightarrow> ram s' c = ram s c"
    "base_pfn s' = base_pfn s" "map_pfns s' = map_pfns s" "porder (mem_map s' p) = n"
  using assms(1)
proof (cases rule: alloc_pages_cases [where g = g and n = n])
  case none
  then show thesis using assms(2) by simp
next
  case (some z q t)
  then have q: "q = p" "s' = (if has_flag g GFP_ZERO then clear_pages (set_porder (set_refcounts t p (2 ^ n) 1) p n) p (2 ^ n)
     else set_porder (set_refcounts t p (2 ^ n) 1) p n)" using assms(2) by auto
  have tk: "taken s t z p n" using some(3) q by simp
  note f = finish_alloc [OF tk q(2)]
  have t: "z < NR_ZONES" "blk p n \<subseteq> free_set s z" "pg_keeps s t (free_set s z)" using tk by (auto simp: taken_def)
  have "page_flag s' q m = page_flag s q m" if "PG_BUDDY AND m = 0" for q m
    using t(3) that by (simp add: q(2) pg_keeps_def same_rest_def page_flag_def set_porder_def set_refcounts_def
        clear_pages_def)
  moreover have "base_pfn s' = base_pfn s" "map_pfns s' = map_pfns s" "porder (mem_map s' p) = n"
    using t(3) by (auto simp: q(2) pg_keeps_def set_porder_def)
  ultimately show thesis using that t(1,2) f(1-3,6,8) some(2) by blast
qed

lemma free_pages_InrE:
  assumes "pg_inv s" "pending s z p k"
  obtains s' where "free_pages s (Some p) k = Inr s'" "pg_inv s'"
    "free_set s' = (free_set s)(z := free_set s z \<union> blk p k)" "ram s' = ram s"
    "\<And>q. q \<notin> free_set s z \<union> blk p k \<Longrightarrow> mem_map s' q = mem_map s q"
    "\<And>q m. PG_BUDDY AND m = 0 \<Longrightarrow> page_flag s' q m = page_flag s q m"
    "base_pfn s' = base_pfn s" "map_pfns s' = map_pfns s"
proof -
  have c: "core s" "counted s" using assms(1) by (auto simp: pg_inv_def)
  have "\<not> is_buddy s p" "clean s p" using pending_not_buddy [OF c(1) assms(2)] assms(2) by (auto simp: pending_def)
  then have nf: "\<not> has_flag (pflags (mem_map s p)) (PG_BUDDY OR PG_RESERVED)"
    by (auto simp: is_buddy_def clean_def flag_simps)
  let ?t = "set_refcounts s p (2 ^ k) 0"
  have t: "pg_inv ?t" "pending ?t z p k" using c assms(2) by (simp_all add: pg_inv_def counted_def)
  note f = free_block_spec [OF t]
  have "free_set (free_block ?t p k) = (free_set s)(z := free_set s z \<union> blk p k)"
    using f(2,3) by (auto simp: fun_eq_iff)
  moreover have "mem_map (free_block ?t p k) q = mem_map s q" if "q \<notin> free_set s z \<union> blk p k" for q
  proof -
    have "mem_map ?t q = mem_map s q" using that by (auto simp: set_refcounts_def blk_def)
    then show ?thesis using f(4) that by (simp add: pg_keeps_def)
  qed
  moreover have "page_flag (free_block ?t p k) q m = page_flag s q m" if "PG_BUDDY AND m = 0" for q m
    using f(4) that by (simp add: pg_keeps_def same_rest_def page_flag_def)
  moreover have "ram (free_block ?t p k) = ram s" "base_pfn (free_block ?t p k) = base_pfn s"
    "map_pfns (free_block ?t p k) = map_pfns s"
    using f(4) by (simp_all add: pg_keeps_def)
  moreover have "free_pages s (Some p) k = Inr (free_block ?t p k)" using nf by (simp add: free_pages_def)
  ultimately show thesis using f(1) that by blast
qed


section \<open>Initialisation\<close>

lemma release_page_spec:
  assumes "pg_inv s" "pfn_valid s p" "z = pfn_zone s p" "p \<notin> free_set s z"
  shows "pg_inv (release_page p s)" "free_set (release_page p s) = (free_set s)(z := insert p (free_set s z))"
    "base_pfn (release_page p s) = base_pfn s" "map_pfns (release_page p s) = map_pfns s"
    "managed_pages (zones (release_page p s) y) = (managed_pages (zones s y) + (if y = z then 1 else 0))"
proof -
  define s2 where "s2 = s\<lparr>mem_map := (mem_map s)(p := (mem_map s p)\<lparr>pflags := 0\<rparr>),
    zones := (zones s)(z := (zones s z)\<lparr>managed_pages := managed_pages (zones s z) + 1\<rparr>)\<rparr>"
  have c: "core s" and n: "counted s" using assms(1) by (auto simp: pg_inv_def)
  have zb: "zone_bounds s" using c by (simp add: core_def)
  have pv: "p < 2 ^ 52" using assms(2) zb by (auto simp: pfn_valid_def zone_bounds_def)
  have z: "z < NR_ZONES" using assms(3) by (auto simp: pfn_zone_def NR_ZONES_def)
  have "start_pfn (zones s z) \<le> p \<and> p < end_pfn (zones s z)"
    using zb pv assms(3) by (auto simp: zone_bounds_def pfn_zone_def)
  then have zr: "start_pfn (zones s z) \<le> p" "p < end_pfn (zones s z)" by blast+
  have g: "good_blk s z p 0" using assms(2) zr by (simp add: good_blk_def pfn_valid_def MAX_ORDER_def)
  have nb: "\<not> is_buddy s p"
  proof
    assume "is_buddy s p"
    then have "(p, porder (mem_map s p)) \<in> fblocks s z" using buddy_is_free [OF c z assms(2) zr] by blast
    then show False using fblocks_free_set blk_self assms(4) by blast
  qed
  have fb: "fblocks s2 = fblocks s" by (auto simp: s2_def fblocks_def fun_eq_iff)
  have fs: "free_set s2 = free_set s" by (simp add: free_set_def fb fun_eq_iff)
  have misc: "good_blk s2 = good_blk s" "pfn_zone s2 = pfn_zone s" "pfn_valid s2 = pfn_valid s"
    "zone_bounds s2 = zone_bounds s" "lists_ok s2 = lists_ok s"
    by (auto simp: s2_def good_blk_def pfn_zone_def pfn_valid_def zone_bounds_def lists_ok_def fun_eq_iff)
  have ib: "is_buddy s2 q = is_buddy s q" for q
    using nb by (auto simp: s2_def is_buddy_def has_flag_def)
  have cl: "clean s q \<Longrightarrow> clean s2 q" "clean s2 p" for q by (auto simp: s2_def clean_def has_flag_def)
  have po: "porder (mem_map s2 q) = porder (mem_map s q)" for q by (simp add: s2_def)
  have "core s2"
    unfolding core_def heads_ok_def blocks_ok_def disj_ok_def maximal_def fb ib misc
    using c cl(1) po unfolding core_def heads_ok_def blocks_ok_def disj_ok_def maximal_def by fastforce
  moreover have "counted s2" using n fs by (simp add: counted_def s2_def)
  moreover have "pending s2 z p 0" using g z assms(4) fs cl(2) misc by (simp add: pending_def blk_def)
  ultimately have i: "pg_inv s2" "pending s2 z p 0" by (simp_all add: pg_inv_def)
  have eq: "release_page p s = free_block s2 p 0"
    using assms(3) by (simp add: release_page_def Let_def pfn_zone_def s2_def)
  note f = free_block_spec [OF i]
  have "blk p 0 = {p}" by (auto simp: blk_def)
  then show "free_set (release_page p s) = (free_set s)(z := insert p (free_set s z))"
    using f(2,3) fs by (auto simp: eq fun_eq_iff)
  show "pg_inv (release_page p s)" using f(1) eq by simp
  show "base_pfn (release_page p s) = base_pfn s" "map_pfns (release_page p s) = map_pfns s"
    "managed_pages (zones (release_page p s) y) = (managed_pages (zones s y) + (if y = z then 1 else 0))"
    using f(4) by (simp_all add: eq pg_keeps_def s2_def)
qed

text \<open>The zone of a frame depends on the frame alone once the zone table has its static bounds.\<close>

definition zone_of :: "nat \<Rightarrow> nat" where
  "zone_of p = (if 2 ^ 20 \<le> p then 2 else if 2 ^ 18 \<le> p then 1 else 0)"

lemma pfn_zone_of: "zone_bounds s \<Longrightarrow> pfn_zone s p = zone_of p"
  by (simp add: pfn_zone_def zone_of_def zone_bounds_def)

definition frames_ready :: "nat \<Rightarrow> nat \<Rightarrow> nat set \<Rightarrow> pgstate \<Rightarrow> bool" where
  "frames_ready base n F s \<longleftrightarrow> pg_inv s \<and> base_pfn s = base \<and> map_pfns s = n \<and>
     (\<forall>z. free_set s z = {p \<in> F. zone_of p = z}) \<and>
     (\<forall>z < NR_ZONES. managed_pages (zones s z) = card {p \<in> F. zone_of p = z})"

lemma empty_inv:
  assumes "zones s = zone_table" "\<And>p. \<not> is_buddy s p" "base_pfn s + map_pfns s \<le> 2 ^ 52"
  shows "pg_inv s" "free_set s z = {}"
proof -
  have fb: "fblocks s z = {}" for z by (auto simp: fblocks_def assms(1) zone_table_def)
  moreover have "zone_bounds s" using assms(1,3) by (simp add: zone_bounds_def zone_table_def)
  moreover have "lists_ok s z" for z by (simp add: lists_ok_def assms(1) zone_table_def)
  ultimately have "core s"
    using assms(2) by (simp add: core_def heads_ok_def blocks_ok_def disj_ok_def maximal_def)
  moreover show fs: "free_set s z = {}" for z by (simp add: free_set_def fb)
  moreover have "free_cnt (zones s z) = 0" for z by (simp add: assms(1) zone_table_def)
  ultimately show "pg_inv s" by (simp add: pg_inv_def counted_def)
qed

lemma boot_state_ready:
  assumes "base + n \<le> 2 ^ 52"
  shows "frames_ready base n {} (boot_state base n r)"
proof -
  have "\<not> is_buddy (boot_state base n r) p" for p
    by (simp add: is_buddy_def boot_state_def boot_page_def has_flag_def pg_flag_defs)
  then have "pg_inv (boot_state base n r)" "free_set (boot_state base n r) z = {}" for z
    using empty_inv [of "boot_state base n r"] assms by (simp_all add: boot_state_def)
  moreover have "managed_pages (zones (boot_state base n r) z) = 0" for z
    by (simp add: boot_state_def zone_table_def)
  moreover have "base_pfn (boot_state base n r) = base" "map_pfns (boot_state base n r) = n"
    by (simp_all add: boot_state_def)
  ultimately show ?thesis by (simp add: frames_ready_def)
qed

lemma release_ready:
  assumes "frames_ready base n F s" "base \<le> p" "p < base + n" "p \<notin> F" "finite F"
  shows "frames_ready base n (insert p F) (release_page p s)"
proof -
  have i: "pg_inv s" and fs: "\<And>z. free_set s z = {p \<in> F. zone_of p = z}"
    using assms(1) by (auto simp: frames_ready_def)
  then have zp: "zone_of p = pfn_zone s p" using pfn_zone_of by (simp add: pg_inv_def core_def)
  have v: "pfn_valid s p" using assms(1-3) by (simp add: pfn_valid_def frames_ready_def)
  note r = release_page_spec [OF i v zp]
  have nf: "p \<notin> free_set s (zone_of p)" using fs assms(4) by simp
  have ins: "{q \<in> insert p F. zone_of q = z} = (if z = zone_of p then insert p {q \<in> F. zone_of q = z} else {q \<in> F. zone_of q = z})"
    for z by auto
  show ?thesis
    unfolding frames_ready_def ins using r [OF nf] assms(1,4,5) fs by (auto simp: frames_ready_def)
qed

lemma pa_pfn_eq: "pa_pfn a = unat a div 4096"
  unfolding pa_pfn_def unat_drop_bit_eq by (simp add: drop_bit_eq_div PAGE_SHIFT_def)

lemma init_pages_ready:
  assumes "frames_ready base n F s" "wf_memblock mb" "finite F" "distinct ps" "set ps \<inter> F = {}"
    and "\<forall>p \<in> set ps. base \<le> p \<and> p < base + n" "map pa_pfn as = ps" "\<forall>a \<in> set as. 4096 dvd unat a"
  shows "frames_ready base n (F \<union> {p \<in> set ps. 4096 * p \<notin> cover (reserved mb)}) (fold (init_page mb) as s)"
  using assms
proof (induction as arbitrary: s F ps)
  case (Cons a as)
  obtain p qs where ps: "ps = p # qs" "pa_pfn a = p" "map pa_pfn as = qs" using Cons.prems(7) by auto
  have "unat a = 4096 * (unat a div 4096)" using Cons.prems(8) by simp
  then have ua: "unat a = 4096 * p"
    using ps(2) by (simp add: pa_pfn_eq)
  have res: "memblock_is_reserved mb a \<longleftrightarrow> 4096 * p \<in> cover (reserved mb)"
    using memblock_is_reserved_iff [OF Cons.prems(2)] ua by simp
  let ?F = "if memblock_is_reserved mb a then F else insert p F"
  have st: "frames_ready base n ?F (init_page mb a s)"
    using release_ready [OF Cons.prems(1), of p] Cons.prems(1,3,5,6) ps by (simp add: init_page_def)
  have "frames_ready base n (?F \<union> {p \<in> set qs. 4096 * p \<notin> cover (reserved mb)}) (fold (init_page mb) as (init_page mb a s))"
    using Cons.prems ps by (intro Cons.IH [OF st]) auto
  moreover have "?F \<union> {p \<in> set qs. 4096 * p \<notin> cover (reserved mb)} =
      F \<union> {p \<in> set ps. 4096 * p \<notin> cover (reserved mb)}"
    using res ps by auto
  ultimately show ?case by simp
qed simp

lemma region_pages_pfns:
  assumes "wf_region r" "4096 dvd lo_of r" "4096 dvd hi_of r"
  shows "map pa_pfn (region_pages r) = [lo_of r div 4096 ..< hi_of r div 4096]"
    "\<forall>a \<in> set (region_pages r). 4096 dvd unat a"
proof -
  obtain m where m: "lo_of r = 4096 * m" using assms(2) by blast
  obtain h where h: "hi_of r = 4096 * h" using assms(3) by blast
  have sz: "unat (rsize r) = 4096 * (h - m)"
    using m h by (simp add: lo_of_def hi_of_def right_diff_distrib')
  have ub: "unat (rbase r) = 4096 * m" using m by (simp add: lo_of_def)
  have lt: "m < h" "4096 * h < 2 ^ 64" using assms(1) m h wf_region_lo_hi [OF assms(1)] by (auto simp: wf_region_def)
  have ua: "unat (rbase r + of_nat i * PAGE_SIZE) = 4096 * (m + i)" if "i < h - m" for i
  proof -
    have b: "4096 * (m + i) < 2 ^ 64" using that lt by simp
    have "unat (of_nat i * PAGE_SIZE) = 4096 * i"
      using b unat_of_nat [of "4096 * i", where ?'a = 64] by (simp add: PAGE_SIZE_def mult.commute)
    then show ?thesis using b ub by (subst u64_add) simp_all
  qed
  have len: "(unat (rsize r) + 4095) div 4096 = h - m" using sz by simp
  have "pa_pfn (rbase r + of_nat i * PAGE_SIZE) = m + i" if "i < h - m" for i
    using ua [OF that] by (simp add: pa_pfn_eq)
  then have "map pa_pfn (region_pages r) = map (\<lambda>i. m + i) [0..<h - m]"
    by (simp add: region_pages_def len)
  also have "\<dots> = [m ..< h]" using lt(1) map_add_upt [of m "h - m"] by (simp add: add.commute)
  finally show "map pa_pfn (region_pages r) = [lo_of r div 4096 ..< hi_of r div 4096]" using m h by simp
  show "\<forall>a \<in> set (region_pages r). 4096 dvd unat a"
    using ua by (auto simp: region_pages_def len)
qed

lemma frames_distinct:
  assumes "wf_regions l" "paged l"
  shows "distinct (concat (map (\<lambda>r. [lo_of r div 4096 ..< hi_of r div 4096]) l)) \<and>
    set (concat (map (\<lambda>r. [lo_of r div 4096 ..< hi_of r div 4096]) l)) = {p. 4096 * p \<in> cover l}"
  using assms
proof (induction l)
  case (Cons r l)
  have wf: "wf_regions l" "paged l" "\<forall>s \<in> set l. hi_of r < lo_of s" "4096 dvd lo_of r" "4096 dvd hi_of r"
    using Cons.prems by (auto simp: wf_regions_def paged_def)
  obtain m h where mh: "lo_of r = 4096 * m" "hi_of r = 4096 * h" using wf(4,5) by (auto simp: dvd_def)
  have sp: "{m ..< h} = {p. 4096 * p \<in> span_of r}" using mh by (auto simp: span_of_def)
  have dj: "span_of r \<inter> cover l = {}" using wf(3) by (fastforce simp: cover_def span_of_def)
  show ?case using Cons.IH [OF wf(1,2)] sp mh dj by auto
qed simp

lemma memory_frames:
  assumes "wf_memblock mb" "paged (memory mb)"
  defines "as \<equiv> concat (map region_pages (memory mb))"
  shows "distinct (map pa_pfn as)" "set (map pa_pfn as) = {p. 4096 * p \<in> cover (memory mb)}"
    "\<forall>a \<in> set as. 4096 dvd unat a"
proof -
  have wf: "wf_regions (memory mb)" using assms(1) by (simp add: wf_memblock_def)
  have r: "map pa_pfn (region_pages r) = [lo_of r div 4096 ..< hi_of r div 4096]"
    "\<forall>a \<in> set (region_pages r). 4096 dvd unat a" if "r \<in> set (memory mb)" for r
    using region_pages_pfns [of r] wf_memblockD(1) [OF assms(1) that] assms(2) that by (auto simp: paged_def)
  have "map pa_pfn as = concat (map (\<lambda>r. [lo_of r div 4096 ..< hi_of r div 4096]) (memory mb))"
    using r(1) by (simp add: as_def map_concat o_def cong: map_cong)
  then show "distinct (map pa_pfn as)" "set (map pa_pfn as) = {p. 4096 * p \<in> cover (memory mb)}"
    using frames_distinct [OF wf assms(2)] by simp_all
  show "\<forall>a \<in> set as. 4096 dvd unat a" using r(2) by (auto simp: as_def)
qed

lemma memory_window:
  assumes "wf_memblock mb" "x \<in> cover (memory mb)"
  shows "unat (memblock_start mb) \<le> x" "x < unat (memblock_end mb)"
proof -
  let ?l = "memory mb"
  have wf: "wf_regions ?l" and ne: "?l \<noteq> []" using assms by (auto simp: wf_memblock_def)
  obtain r where r: "r \<in> set ?l" "lo_of r \<le> x" "x < hi_of r" using assms(2) by (auto simp: cover_def span_of_def)
  have w: "wf_region r" if "r \<in> set ?l" for r using wf that by (simp add: wf_regions_def)
  have s: "sorted_wrt (\<lambda>r s. hi_of r < lo_of s) ?l" using wf by (simp add: wf_regions_def)
  have "lo_of (hd ?l) \<le> lo_of r"
  proof (cases "r = hd ?l")
    case False
    then have "hi_of (hd ?l) < lo_of r" using s r(1) ne by (cases ?l) auto
    then show ?thesis using wf_region_lo_hi [OF w [OF hd_in_set [OF ne]]] by linarith
  qed simp
  then show "unat (memblock_start mb) \<le> x" using r(2) ne by (cases ?l) (auto simp: memblock_start_def lo_of_def)
  have "hi_of r \<le> hi_of (last ?l)"
  proof (cases "r = last ?l")
    case False
    then have "r \<in> set (butlast ?l)" using r(1) ne by (metis append_butlast_last_id in_set_conv_decomp_last
          rotate1.simps(2) set_ConsD set_rotate1)
    moreover have "sorted_wrt (\<lambda>r s. hi_of r < lo_of s) (butlast ?l @ [last ?l])" using s ne by simp
    ultimately have "hi_of r < lo_of (last ?l)" by (simp add: sorted_wrt_append)
    then show ?thesis using wf_region_lo_hi [OF w [OF last_in_set [OF ne]]] by linarith
  qed simp
  then show "x < unat (memblock_end mb)"
    using r(3) ne w [OF last_in_set [OF ne]] by (simp add: memblock_end_def)
qed

lemma init_result:
  assumes "wf_memblock mb" "paged (memory mb)" "page_alloc_init mb r = Inr (mb', s)"
  shows "\<exists>pa. {pa ..< pa + 40 * map_pfns s} \<subseteq> cover (memory mb) - cover (reserved mb) \<and>
      cover (reserved mb') = cover (reserved mb) \<union> {pa ..< pa + (40 * map_pfns s + 4095) div 4096 * 4096} \<and>
      memory mb' = memory mb \<and>
      frames_ready (base_pfn s) (map_pfns s) {p. 4096 * p \<in> cover (memory mb) - cover (reserved mb')} s"
proof -
  let ?b = "pa_pfn (memblock_start mb)" and ?e = "pa_pfn (memblock_end mb)"
  let ?n = "?e - ?b"
  let ?bytes = "ALIGN_UP (of_nat ?n * 40) PAGE_SIZE :: u64"
  obtain pa f where a: "memblock_alloc mb ?bytes PAGE_SIZE (- 1) = Inr (pa, mb')" "pa \<noteq> 0"
    and s: "s = fold (init_page mb') (concat (map region_pages (memory mb'))) (boot_state ?b ?n f)"
    using assms(3) by (auto simp: page_alloc_init_def Let_def split: sum.splits if_splits)
  have e52: "?e < 2 ^ 52" using u64_bound [of "memblock_end mb"] by (simp add: pa_pfn_eq)
  have u40: "unat (of_nat ?n * 40 :: u64) = 40 * ?n"
    using e52 unat_of_nat [of "40 * ?n", where ?'a = 64] by (simp add: mult.commute)
  define k where "k = (40 * ?n + 4095) div 4096"
  have ub: "unat ?bytes = k * 4096" using page_ceil [of "of_nat ?n * 40"] u40 e52 by (simp add: k_def)
  have kb: "k * 4096 + 4096 \<le> 2 ^ 64" using e52 by (simp add: k_def)
  have ne: "memory mb \<noteq> []"
    using a by (auto simp: memblock_alloc_def Let_def map_sum_def split: option.splits sum.splits)
  have win: "?b \<le> p \<and> p < ?e" if "4096 * p \<in> cover (memory mb)" for p
  proof -
    have "p * 4096 < unat (memblock_end mb)" "unat (memblock_start mb) \<le> p * 4096"
      using memory_window [OF assms(1) that] by simp_all
    moreover have "4096 dvd unat (memblock_end mb)"
      using ne assms(2) wf_memblockD(1) [OF assms(1) last_in_set [OF ne]] by (simp add: memblock_end_def paged_def)
    ultimately show ?thesis by (auto simp: pa_pfn_eq dvd_def div_less_iff_less_mult less_mult_imp_div_less)
  qed
  have n0: "0 < ?n"
  proof -
    obtain r0 where r0: "r0 \<in> set (memory mb)" using ne by (meson list.set_sel(1))
    then obtain q where q: "lo_of r0 = 4096 * q" using assms(2) by (auto simp: paged_def)
    have "lo_of r0 \<in> cover (memory mb)"
      using r0 wf_region_lo_hi [OF wf_memblockD(1) [OF assms(1) r0]] by (auto simp: cover_def span_of_def)
    then show ?thesis using win [of q] q by auto
  qed
  have k0: "0 < k" using n0 by (simp add: k_def)
  have kk: "(k * 4096 + 4095) div 4096 * 4096 = k * 4096" by (rule page_ceil_id) simp
  obtain m where m: "m \<in> set (memory mb)" "fits m (- 1) (k * 4096) (unat pa)"
      "{unat pa ..< unat pa + k * 4096} \<inter> cover (reserved mb) = {}" "wf_memblock mb'" "memory mb' = memory mb"
      "cover (reserved mb') = cover (reserved mb) \<union> {unat pa ..< unat pa + k * 4096}"
    using memblock_alloc_result [OF assms(1) PAGE_SIZE_pow2 _ _ _ a] ub k0 kb kk by auto
  have "{unat pa ..< unat pa + k * 4096} \<subseteq> cover (memory mb)"
    using m(1,2) by (auto simp: fits_def cover_def span_of_def)
  moreover have "40 * ?n \<le> k * 4096" by (simp add: k_def)
  ultimately have arr: "{unat pa ..< unat pa + 40 * ?n} \<subseteq> cover (memory mb) - cover (reserved mb)"
    using m(3) by fastforce
  have "paged (memory mb')" using assms(2) m(5) by simp
  note fr = memory_frames [OF m(4) this, unfolded m(5)]
  let ?as = "concat (map region_pages (memory mb))"
  have "frames_ready ?b ?n {} (boot_state ?b ?n f)" by (rule boot_state_ready) (use e52 n0 in linarith)
  moreover have "\<forall>p \<in> set (map pa_pfn ?as). ?b \<le> p \<and> p < ?b + ?n"
    unfolding fr(2) using win n0 by auto
  ultimately have "frames_ready ?b ?n ({} \<union> {p \<in> set (map pa_pfn ?as). 4096 * p \<notin> cover (reserved mb')}) s"
    unfolding s m(5) by (intro init_pages_ready [OF _ m(4) _ fr(1) _ _ refl fr(3)]) simp_all
  then have "frames_ready ?b ?n {p. 4096 * p \<in> cover (memory mb) - cover (reserved mb')} s"
    unfolding fr(2) by simp
  moreover from this have "base_pfn s = ?b" "map_pfns s = ?n" by (simp_all add: frames_ready_def)
  ultimately show ?thesis using arr m(5,6) by (auto simp: k_def)
qed


section \<open>Properties\<close>

text \<open>
  C1: an allocation never panics in a state that satisfies the invariant, and when it returns a block,
  the block is naturally aligned, was entirely free in one of the zones the request may use, and is
  removed from that zone and no other; its pages have reference count 1 and (with GFP\_ZERO) are zero,
  all other reference counts and memory are unchanged, and the invariant holds again.
\<close>

theorem alloc_pages_sound:
  assumes "pg_inv s"
  shows "\<exists>r s'. alloc_pages s g n = Inr (r, s') \<and> pg_inv s' \<and>
    (case r of None \<Rightarrow> s' = s
     | Some p \<Rightarrow> \<exists>z \<in> set (zone_list g). 2 ^ n dvd p \<and> blk p n \<subseteq> free_set s z \<and>
         free_set s' = (free_set s)(z := free_set s z - blk p n) \<and>
         (\<forall>q. refcount (mem_map s' q) = (if q \<in> blk p n then 1 else refcount (mem_map s q))) \<and>
         (\<forall>c. ram s' c = (if has_flag g GFP_ZERO \<and> p * 512 \<le> c \<and> c < (p + 2 ^ n) * 512 then 0 else ram s c)))"
  using assms
proof (cases rule: alloc_pages_cases [where g = g and n = n])
  case none
  then show ?thesis using assms by simp
next
  case (some z p t)
  define s' where "s' = (if has_flag g GFP_ZERO then clear_pages (set_porder (set_refcounts t p (2 ^ n) 1) p n) p (2 ^ n)
     else set_porder (set_refcounts t p (2 ^ n) 1) p n)"
  note f = finish_alloc [OF some(3) s'_def]
  have "2 ^ n dvd p" using f(2) by (simp add: pending_def good_blk_def)
  moreover have "blk p n \<subseteq> free_set s z" using some(3) by (simp add: taken_def)
  moreover have "ram s' c = (if has_flag g GFP_ZERO \<and> p * 512 \<le> c \<and> c < (p + 2 ^ n) * 512 then 0 else ram s c)" for c
    using f(7,8,10) [of c] by (cases "has_flag g GFP_ZERO"; cases "p * 512 \<le> c"; cases "c < (p + 2 ^ n) * 512") simp_all
  ultimately have "\<exists>z \<in> set (zone_list g). 2 ^ n dvd p \<and> blk p n \<subseteq> free_set s z \<and>
         free_set s' = (free_set s)(z := free_set s z - blk p n) \<and>
         (\<forall>q. refcount (mem_map s' q) = (if q \<in> blk p n then 1 else refcount (mem_map s q))) \<and>
         (\<forall>c. ram s' c = (if has_flag g GFP_ZERO \<and> p * 512 \<le> c \<and> c < (p + 2 ^ n) * 512 then 0 else ram s c))"
    using f(3-5) some(1) by (intro bexI [of _ z]) simp_all
  moreover have "alloc_pages s g n = Inr (Some p, s')" using some(4) by (simp only: s'_def)
  ultimately show ?thesis using f(1) by (intro exI [of _ "Some p"] exI [of _ s']) simp
qed

text \<open>
  C2: an allocation of a supported order fails only when none of the zones the request may use has any
  naturally aligned run of that many free pages: coalescing loses no block to fragmentation.
\<close>

theorem alloc_pages_complete:
  assumes "pg_inv s" "n < MAX_ORDER" "alloc_pages s g n = Inr (None, s')" "z \<in> set (zone_list g)" "2 ^ n dvd p"
  shows "\<not> blk p n \<subseteq> free_set s z"
proof
  assume b: "blk p n \<subseteq> free_set s z"
  have z: "z < NR_ZONES" using zone_list_ok assms(4) by blast
  have none: "\<forall>z \<in> set (zone_list g). \<forall>(q, k) \<in> fblocks s z. k < n"
    using assms(1) by (cases rule: alloc_pages_cases [where g = g and n = n]) (use assms(2,3) in auto)
  obtain q l where "(q, l) \<in> fblocks s z" "n \<le> l"
    using free_block_covered [OF _ z assms(5,2) b] assms(1) by (auto simp: pg_inv_def)
  then show False using none assms(4) by fastforce
qed

lemma free_pages_result:
  assumes "pg_inv s" "pending s z p k"
  shows "\<exists>s'. free_pages s (Some p) k = Inr s' \<and> pg_inv s' \<and>
    free_set s' = (free_set s)(z := free_set s z \<union> blk p k) \<and> ram s' = ram s \<and>
    (\<forall>q. refcount (mem_map s' q) = (if q \<in> blk p k then 0 else refcount (mem_map s q)))"
proof -
  have c: "core s" "counted s" using assms(1) by (auto simp: pg_inv_def)
  have "\<not> is_buddy s p" "clean s p" using pending_not_buddy [OF c(1) assms(2)] assms(2) by (auto simp: pending_def)
  then have nf: "\<not> has_flag (pflags (mem_map s p)) (PG_BUDDY OR PG_RESERVED)"
    by (auto simp: is_buddy_def clean_def flag_simps)
  let ?t = "set_refcounts s p (2 ^ k) 0"
  have t: "pg_inv ?t" "pending ?t z p k" using c assms(2) by (simp_all add: pg_inv_def counted_def)
  note f = free_block_spec [OF t]
  have "free_set (free_block ?t p k) = (free_set s)(z := free_set s z \<union> blk p k)"
    using f(2,3) by (auto simp: fun_eq_iff)
  moreover have "ram (free_block ?t p k) = ram s"
    "\<forall>q. refcount (mem_map (free_block ?t p k) q) = (if q \<in> blk p k then 0 else refcount (mem_map s q))"
    using f(4) by (auto simp: pg_keeps_def set_refcounts_def blk_def)
  ultimately show ?thesis using nf f(1) by (simp add: free_pages_def)
qed

text \<open>
  C3: freeing a block that is not free and holds no reserved or slab page succeeds, keeps the invariant,
  makes exactly the pages of the block free in their zone and clears their reference counts.
\<close>

theorem free_pages_sound:
  assumes "pg_inv s" "pending s z p k"
  shows "\<exists>s'. free_pages s (Some p) k = Inr s' \<and> pg_inv s' \<and>
    free_set s' = (free_set s)(z := free_set s z \<union> blk p k) \<and> ram s' = ram s \<and>
    (\<forall>q. refcount (mem_map s' q) = (if q \<in> blk p k then 0 else refcount (mem_map s q)))"
  using assms by (rule free_pages_result)

text \<open>
  C4: allocating a block and freeing it again restores the free blocks of every zone, order by order,
  whatever splitting the allocation needed; the free-page counters return to their values too.
\<close>

theorem alloc_free_roundtrip:
  assumes "pg_inv s" "alloc_pages s g n = Inr (Some p, s')"
  shows "\<exists>s''. free_pages s' (Some p) n = Inr s'' \<and> pg_inv s'' \<and>
    (\<forall>z < NR_ZONES. fblocks s'' z = fblocks s z \<and> free_cnt (zones s'' z) = free_cnt (zones s z))"
  using assms(1)
proof (cases rule: alloc_pages_cases [where g = g and n = n])
  case none
  then show ?thesis using assms(2) by simp
next
  case (some z q t)
  then have q: "q = p" "s' = (if has_flag g GFP_ZERO then clear_pages (set_porder (set_refcounts t p (2 ^ n) 1) p n) p (2 ^ n)
     else set_porder (set_refcounts t p (2 ^ n) 1) p n)" using assms(2) by auto
  have tk: "taken s t z p n" using some(3) q by simp
  note f = finish_alloc [OF tk q(2)]
  obtain s'' where s'': "free_pages s' (Some p) n = Inr s''" "pg_inv s''"
      "free_set s'' = (free_set s')(z := free_set s' z \<union> blk p n)"
    using free_pages_result [OF f(1,2)] by blast
  have "blk p n \<subseteq> free_set s z" using tk by (simp add: taken_def)
  then have fs: "free_set s'' = free_set s" using s''(3) f(3) by (auto simp: fun_eq_iff)
  have c: "core s" "core s''" "counted s" "counted s''" using assms(1) s''(2) by (auto simp: pg_inv_def)
  have "fblocks s'' y = fblocks s y \<and> free_cnt (zones s'' y) = free_cnt (zones s y)" if "y < NR_ZONES" for y
    using fblocks_canonical [OF c(2,1) that] c(3,4) that fs by (simp add: counted_def)
  then show ?thesis using s'' by blast
qed

text \<open>
  freeing the head of a block that is already free, or a page reserved at boot, panics.
\<close>

lemma free_pages_detects:
  assumes "pg_inv s" "z < NR_ZONES" "(p, k) \<in> fblocks s z \<or> has_flag (pflags (mem_map s p)) PG_RESERVED"
  shows "free_pages s (Some p) n = Inl ''free_pages: double free or reserved page''"
proof -
  have "has_flag (pflags (mem_map s p)) (PG_BUDDY OR PG_RESERVED)"
    using assms(3) blocks_okD(2) [OF coreD(2) [OF _ assms(2)], of s p k] assms(1)
    by (auto simp: pg_inv_def is_buddy_def flag_simps)
  then show ?thesis by (simp add: free_pages_def)
qed

text \<open>
  dropping a reference panics when there is none to drop, only decrements the count while others
  remain, and with the last one returns the page to its zone.
\<close>

lemma page_put_spec:
  assumes "pg_inv s" "pending s z p 0"
  shows "if refcount (mem_map s p) \<le> 0 then page_put s p = Inl ''page_put: refcount underflow''
    else if refcount (mem_map s p) = 1 then \<exists>s'. page_put s p = Inr (True, s') \<and> pg_inv s' \<and>
       free_set s' = (free_set s)(z := insert p (free_set s z)) \<and> refcount (mem_map s' p) = 0
    else \<exists>s'. page_put s p = Inr (False, s') \<and> pg_inv s' \<and> free_set s' = free_set s \<and>
       refcount (mem_map s' p) = refcount (mem_map s p) - 1"
proof -
  let ?r = "refcount (mem_map s p)"
  have up: "s\<lparr>mem_map := (mem_map s)(p := (mem_map s p)\<lparr>refcount := c\<rparr>)\<rparr> = set_refcounts s p 1 c" for c
  proof -
    have "(\<lambda>q. if p \<le> q \<and> q < p + 1 then (mem_map s q)\<lparr>refcount := c\<rparr> else mem_map s q) =
        (mem_map s)(p := (mem_map s p)\<lparr>refcount := c\<rparr>)" by (auto simp: fun_eq_iff)
    then show ?thesis by (simp only: set_refcounts_def)
  qed
  have i: "pg_inv (set_refcounts s p 1 c)" "pending (set_refcounts s p 1 c) z p 0" for c
    using assms by (simp_all add: pg_inv_def counted_def)
  have b: "blk p 0 = {p}" by (auto simp: blk_def)
  consider "?r \<le> 0" | "?r = 1" | "1 < ?r" by linarith
  then show ?thesis
  proof cases
    case 1
    then show ?thesis by (simp add: page_put_def Let_def)
  next
    case 2
    obtain s' where "free_pages (set_refcounts s p 1 1) (Some p) 0 = Inr s'" "pg_inv s'"
      "free_set s' = (free_set s)(z := insert p (free_set s z))" "refcount (mem_map s' p) = 0"
      using free_pages_result [OF i [of 1]] b by auto
    moreover have "page_put s p = map_sum id (Pair True) (free_pages (set_refcounts s p 1 1) (Some p) 0)"
      unfolding up [symmetric] using 2 by (simp add: page_put_def Let_def)
    ultimately show ?thesis using 2 by simp
  next
    case 3
    then have "page_put s p = Inr (False, set_refcounts s p 1 (?r - 1))"
      unfolding up [symmetric] by (simp add: page_put_def Let_def)
    moreover have "refcount (mem_map (set_refcounts s p 1 (?r - 1)) p) = ?r - 1" by (simp add: set_refcounts_def)
    ultimately show ?thesis using 3 i [of "?r - 1"] by simp
  qed
qed

text \<open>
  C5: after initialisation the free pages of each zone are exactly the RAM pages that no boot-time
  reservation covers, the frame descriptors themselves lie in RAM that was unreserved and is now
  reserved, every managed page is free, and the allocator invariant holds.
\<close>

theorem page_alloc_init_spec:
  assumes "wf_memblock mb" "paged (memory mb)" "page_alloc_init mb r = Inr (mb', s)"
  shows "pg_inv s \<and> nr_free_pages s = nr_total_pages s \<and>
    (\<forall>z < NR_ZONES. free_set s z = {p. zone_of p = z \<and> 4096 * p \<in> cover (memory mb) - cover (reserved mb')}) \<and>
    (\<exists>pa. {pa ..< pa + 40 * map_pfns s} \<subseteq> cover (memory mb) - cover (reserved mb) \<and>
       cover (reserved mb') = cover (reserved mb) \<union> {pa ..< pa + (40 * map_pfns s + 4095) div 4096 * 4096})"
proof -
  let ?F = "{p. 4096 * p \<in> cover (memory mb) - cover (reserved mb')}"
  obtain pa where pa: "{pa ..< pa + 40 * map_pfns s} \<subseteq> cover (memory mb) - cover (reserved mb)"
    "cover (reserved mb') = cover (reserved mb) \<union> {pa ..< pa + (40 * map_pfns s + 4095) div 4096 * 4096}"
    and fr: "frames_ready (base_pfn s) (map_pfns s) ?F s"
    using init_result [OF assms] by blast
  have "free_cnt (zones s z) = managed_pages (zones s z)" if "z < NR_ZONES" for z
    using fr that by (simp add: frames_ready_def pg_inv_def counted_def)
  then have "nr_free_pages s = nr_total_pages s"
    unfolding nr_free_pages_def nr_total_pages_def by (intro arg_cong [where f = sum_list] map_cong) auto
  moreover have "free_set s z = {p. zone_of p = z \<and> 4096 * p \<in> cover (memory mb) - cover (reserved mb')}" for z
    using fr by (auto simp: frames_ready_def)
  ultimately show ?thesis using fr pa by (auto simp: frames_ready_def)
qed


section \<open>Instances\<close>

text \<open>Eight pages at 4 GiB, all allocated singly.\<close>

definition all_busy :: pgstate where
  "all_busy = \<lparr>mem_map = (\<lambda>_. boot_page\<lparr>pflags := 0, refcount := 1\<rparr>), base_pfn = 1048576, map_pfns = 8,
     zones = zone_table, ram = (\<lambda>_. 7)\<rparr>"

lemma all_busy_inv: "pg_inv all_busy" "free_set all_busy z = {}"
  using empty_inv [of all_busy] by (simp_all add: all_busy_def is_buddy_def has_flag_def)

lemma all_busy_pending: "k \<le> 3 \<Longrightarrow> pending all_busy 2 1048576 k"
proof -
  assume "k \<le> 3"
  then have "(2 :: nat) ^ k dvd 2 ^ 3" by (rule le_imp_power_dvd)
  moreover have "(2 :: nat) ^ 3 dvd 1048576" by simp
  ultimately have "(2 :: nat) ^ k dvd 1048576" by (rule dvd_trans)
  moreover have "(2 :: nat) ^ k \<le> 2 ^ 3" using \<open>k \<le> 3\<close> by (rule power_increasing) simp
  ultimately show ?thesis
    using all_busy_inv(2) \<open>k \<le> 3\<close>
    by (simp add: pending_def good_blk_def all_busy_def zone_table_def MAX_ORDER_def NR_ZONES_def clean_def
        has_flag_def)
qed

text \<open>The same pages after page 1048576 and then page 1048577 were freed, which merges them.\<close>

definition pair_free :: pgstate where
  "pair_free = free_block (free_block all_busy 1048576 0) 1048577 0"

lemma pair_free_lists: "free_area (zones pair_free 2) = (\<lambda>_. [])(1 := [1048576])"
  by (simp add: pair_free_def free_block_def buddy_merge.simps all_busy_def zone_table_def pfn_zone_def
      add_free_cnt_def add_free_def del_free_def pfn_valid_def MAX_ORDER_def has_flag_def set_flag_def
      clear_flag_def pg_flag_defs boot_page_def Let_def unset_pow2 fun_eq_iff)

lemma pair_free_inv: "pg_inv pair_free" "free_set pair_free 2 = {1048576, 1048577}"
proof -
  let ?s = "free_block all_busy 1048576 0"
  note f = free_block_spec [OF all_busy_inv(1) all_busy_pending [of 0]]
  have b: "blk q 0 = {q}" for q by (auto simp: blk_def)
  have "zone_bounds ?s" using f(1) by (simp add: pg_inv_def core_def)
  then have "pending ?s 2 1048577 0"
    using f b all_busy_inv(2)
    by (simp add: pending_def good_blk_def pg_keeps_def zone_bounds_def all_busy_def clean_def has_flag_def
        boot_page_def MAX_ORDER_def NR_ZONES_def)
  from free_block_spec [OF _ this]
  show "pg_inv pair_free" "free_set pair_free 2 = {1048576, 1048577}"
    using f b all_busy_inv(2) by (auto simp: pair_free_def)
qed

lemma pair_free_block: "(1048576, 1) \<in> fblocks pair_free 2"
  by (simp add: fblocks_def pair_free_lists MAX_ORDER_def)

text \<open>A successful allocation of two zeroed pages.\<close>

lemma pair_alloc: "\<exists>p s'. alloc_pages pair_free GFP_ZERO 1 = Inr (Some p, s')"
  using pair_free_inv(1)
proof (cases rule: alloc_pages_cases [where g = GFP_ZERO and n = 1])
  case none
  moreover have "zone_list GFP_ZERO = [2, 1, 0]"
    by (simp add: zone_list_def GFP_ZERO_def GFP_DMA_def GFP_DMA32_def has_flag_def)
  ultimately show ?thesis using pair_free_block by (auto simp: MAX_ORDER_def)
next
  case (some z p t)
  then show ?thesis by blast
qed

theorem alloc_pages_sound_witness:
  "pg_inv pair_free \<and> (\<exists>p s'. alloc_pages pair_free GFP_ZERO 1 = Inr (Some p, s') \<and> pg_inv s' \<and>
     (\<forall>q \<in> blk p 1. refcount (mem_map s' q) = 1) \<and> ram s' (p * 512) = 0)"
proof -
  obtain p s' where a: "alloc_pages pair_free GFP_ZERO 1 = Inr (Some p, s')" using pair_alloc by blast
  have "has_flag GFP_ZERO GFP_ZERO" by (simp add: has_flag_def GFP_ZERO_def)
  then show ?thesis
    using a pair_free_inv(1) alloc_pages_sound [OF pair_free_inv(1), of GFP_ZERO 1] by auto
qed

theorem alloc_pages_complete_witness:
  "alloc_pages all_busy 0 1 = Inr (None, all_busy) \<and> \<not> blk 1048576 1 \<subseteq> free_set all_busy 2"
proof -
  have a: "alloc_pages all_busy 0 1 = Inr (None, all_busy)"
    by (simp add: alloc_pages_def zone_list_def has_flag_def alloc_block_def find_order.simps all_busy_def
        zone_table_def MAX_ORDER_def)
  show ?thesis
    using a alloc_pages_complete [OF all_busy_inv(1) _ a, of 2 1048576]
    by (simp add: zone_list_def has_flag_def MAX_ORDER_def)
qed

theorem free_pages_sound_witness:
  "\<exists>s'. free_pages all_busy (Some 1048576) 3 = Inr s' \<and> pg_inv s' \<and> free_set s' 2 = {1048576 ..< 1048584}"
  using free_pages_sound [OF all_busy_inv(1) all_busy_pending [of 3]] all_busy_inv(2) by (auto simp: blk_def)

theorem alloc_free_roundtrip_witness:
  "\<exists>p s' s''. alloc_pages pair_free GFP_ZERO 1 = Inr (Some p, s') \<and> free_pages s' (Some p) 1 = Inr s'' \<and>
     fblocks s'' 2 = fblocks pair_free 2"
  using pair_alloc alloc_free_roundtrip [OF pair_free_inv(1), of GFP_ZERO 1] by (fastforce simp: NR_ZONES_def)

theorem page_alloc_init_spec_witness:
  "\<exists>mb' s. page_alloc_init board (\<lambda>_. 7) = Inr (mb', s) \<and> pg_inv s \<and> nr_free_pages s = nr_total_pages s \<and>
     0x40200 \<in> free_set s 1 \<and> 0x40000 \<notin> free_set s 1"
proof -
  have st: "pa_pfn (memblock_start board) = 0x40000" "pa_pfn (memblock_end board) = 0x50000"
    by (simp_all add: pa_pfn_eq memblock_start_def memblock_end_def board_def rend_def)
  have al: "memblock_alloc board 0x280000 PAGE_SIZE (- 1) =
      Inr (0x4fd80000, board\<lparr>reserved := reserved board @ [\<lparr>rbase = 0x4fd80000, rsize = 0x280000\<rparr>]\<rparr>)"
    by (simp add: memblock_alloc_def memblock_reserve_def mb_insert_def board_def ALIGN_UP_def
        ALIGN_DOWN_def PAGE_SIZE_def MEMBLOCK_MAX_def rend_def alloc_scan.simps conflicts_def)
  let ?mb = "board\<lparr>reserved := reserved board @ [\<lparr>rbase = 0x4fd80000, rsize = 0x280000\<rparr>]\<rparr>"
  have "ALIGN_UP (of_nat (0x50000 - 0x40000) * 40) PAGE_SIZE = (0x280000 :: u64)"
    by (simp add: ALIGN_UP_def PAGE_SIZE_def)
  then obtain s where s: "page_alloc_init board (\<lambda>_. 7) = Inr (?mb, s)"
    using al by (simp add: page_alloc_init_def st Let_def)
  have pg: "paged (memory board)" by (simp add: paged_def board_def lo_of_def hi_of_def)
  have cov: "cover (memory board) = {0x40000000 ..< 0x50000000}"
    "cover (reserved board @ [\<lparr>rbase = 0x4fd80000, rsize = 0x280000\<rparr>]) =
       {0x40000000 ..< 0x40200000} \<union> {0x4fd80000 ..< 0x50000000}"
    by (simp_all add: board_def span_of_def lo_of_def hi_of_def)
  show ?thesis
    using page_alloc_init_spec [OF wf_board pg s] s
    by (intro exI [of _ ?mb] exI [of _ s]) (simp add: cov zone_of_def NR_ZONES_def)
qed

text \<open>
  C6: the double-free check of \<^verbatim>\<open>free_pages\<close> looks at the head page of a free block only.  Two pages freed
  singly merge; freeing the second one again is accepted, and leaves that page in two free blocks.
\<close>

theorem double_free_accepted:
  "\<exists>s p s'. pg_inv s \<and> p \<in> free_set s 2 \<and> free_pages s (Some p) 0 = Inr s' \<and> (\<exists>q k. (q, k) \<in> fblocks s' 2 \<and>
     (p, 0) \<in> fblocks s' 2 \<and> (q, k) \<noteq> (p, 0) \<and> p \<in> blk q k)"
proof -
  let ?p = "1048577"
  have m: "pflags (mem_map pair_free ?p) = 0" "pflags (mem_map pair_free 1048576) = PG_BUDDY"
    "porder (mem_map pair_free 1048576) = 1" "base_pfn pair_free = 1048576" "map_pfns pair_free = 8"
    "start_pfn (zones pair_free 2) = 1048576" "end_pfn (zones pair_free 2) = 2 ^ 64 - 1"
    by (simp_all add: pair_free_def free_block_def buddy_merge.simps all_busy_def zone_table_def pfn_zone_def
        add_free_cnt_def add_free_def del_free_def pfn_valid_def MAX_ORDER_def has_flag_def set_flag_def
        clear_flag_def pg_flag_defs boot_page_def Let_def unset_pow2)
  let ?t = "set_refcounts pair_free ?p 1 0"
  have "free_pages pair_free (Some ?p) 0 = Inr (free_block ?t ?p 0)"
    using m(1) by (simp add: free_pages_def has_flag_def)
  moreover have "free_block ?t ?p 0 = add_free (add_free_cnt ?t 2 1) 2 ?p 0"
    using m by (simp add: free_block_def buddy_merge.simps pfn_zone_def pfn_valid_def MAX_ORDER_def)
  moreover have "free_area (zones (add_free (add_free_cnt ?t 2 1) 2 ?p 0) 2) = (\<lambda>_. [])(1 := [1048576], 0 := [?p])"
    by (simp add: add_free_def pair_free_lists fun_eq_iff)
  ultimately have "free_pages pair_free (Some ?p) 0 = Inr (free_block ?t ?p 0)"
    "(1048576, 1) \<in> fblocks (free_block ?t ?p 0) 2" "(?p, 0) \<in> fblocks (free_block ?t ?p 0) 2"
    by (simp_all add: fblocks_def MAX_ORDER_def)
  moreover have "?p \<in> blk 1048576 1" by (simp add: blk_def)
  ultimately show ?thesis
    using pair_free_inv by (intro exI [of _ pair_free] exI [of _ ?p] exI [of _ "free_block ?t ?p 0"]) auto
qed

end
