(* ===== verification/Olux_Kmalloc.thy ===== *)
theory Olux_Kmalloc
  imports Olux_Page_Alloc
begin

text \<open>
  The kernel heap (mm/kmalloc.c) on top of the page allocator.  Slab pages keep a singly linked free
  list inside the free objects themselves, so the model works on the memory contents \<open>ram\<close> of the
  page allocator's state, addressed through the linear map (arch/arm64/include/asm/memory.h).  A
  pointer is a 64-bit address; the null pointer is \<open>0\<close>, returned as \<open>None\<close>.  The model is the build
  without CONFIG\_DEBUG.  The heap lock makes each operation atomic.
\<close>

section \<open>The linear map\<close>

definition PAGE_OFFSET :: u64 where "PAGE_OFFSET = 0xffffff8000000000"
definition LINEAR_MAP_SIZE :: u64 where "LINEAR_MAP_SIZE = 0x4000000000"
definition KIMAGE_VADDR :: u64 where "KIMAGE_VADDR = 0xffffffff80000000"

definition phys_to_virt :: "u64 \<Rightarrow> u64" where
  "phys_to_virt pa = pa + PAGE_OFFSET"

text \<open>The first argument is the variable \<^verbatim>\<open>kimage_voffset\<close>.\<close>

definition virt_to_phys :: "u64 \<Rightarrow> u64 \<Rightarrow> u64" where
  "virt_to_phys voff v = (if KIMAGE_VADDR \<le> v then v - voff else v - PAGE_OFFSET)"

definition page_to_phys :: "nat \<Rightarrow> u64" where
  "page_to_phys p = push_bit PAGE_SHIFT (of_nat p)"

definition page_address :: "nat \<Rightarrow> u64" where
  "page_address p = phys_to_virt (page_to_phys p)"

definition virt_to_page :: "u64 \<Rightarrow> u64 \<Rightarrow> nat" where
  "virt_to_page voff va = pa_pfn (virt_to_phys voff va)"

text \<open>The 8-byte memory cell behind a linear-map address.\<close>

definition cell :: "u64 \<Rightarrow> nat" where
  "cell va = unat (va - PAGE_OFFSET) div 8"

text \<open>\<^verbatim>\<open>memset(p, 0, n)\<close>: whole cells, then the low bytes of the last one.\<close>

definition zero_mem :: "(nat \<Rightarrow> u64) \<Rightarrow> nat \<Rightarrow> nat \<Rightarrow> (nat \<Rightarrow> u64)" where
  "zero_mem r c n = (\<lambda>d.
     if c \<le> d \<and> d < c + n div 8 then 0
     else if d = c + n div 8 then push_bit (8 * (n mod 8)) (drop_bit (8 * (n mod 8)) (r d))
     else r d)"

definition put_byte :: "(nat \<Rightarrow> u64) \<Rightarrow> nat \<Rightarrow> u8 \<Rightarrow> (nat \<Rightarrow> u64)" where
  "put_byte r a b =
     r(a div 8 := (r (a div 8) AND NOT (push_bit (8 * (a mod 8)) 0xff)) OR push_bit (8 * (a mod 8)) (ucast b))"

text \<open>\<^verbatim>\<open>memcpy\<close> of a byte string into memory, byte by byte.\<close>

fun store_bytes :: "(nat \<Rightarrow> u64) \<Rightarrow> nat \<Rightarrow> u8 list \<Rightarrow> (nat \<Rightarrow> u64)" where
  "store_bytes r a [] = r"
| "store_bytes r a (b # bs) = store_bytes (put_byte r a b) (a + 1) bs"

definition get_free_pages :: "pgstate \<Rightarrow> u32 \<Rightarrow> nat \<Rightarrow> (u64 option \<times> pgstate) kres" where
  "get_free_pages s g ord = map_sum id (\<lambda>(p, s'). (map_option page_address p, s')) (alloc_pages s g ord)"

definition free_pages_va :: "u64 \<Rightarrow> pgstate \<Rightarrow> u64 option \<Rightarrow> nat \<Rightarrow> pgstate kres" where
  "free_pages_va voff s va ord =
     (case va of None \<Rightarrow> Inr s | Some v \<Rightarrow> free_pages s (Some (virt_to_page voff v)) ord)"


section \<open>The heap\<close>

definition NR_CLASSES :: nat where "NR_CLASSES = 8"
definition MIN_SHIFT :: nat where "MIN_SHIFT = 4"
definition FREE_MAGIC :: u64 where "FREE_MAGIC = 0xf4eef4eef4eef4ee"

record kmstate =
  pgs :: pgstate
  partial :: "nat \<Rightarrow> nat list"
  cpages :: "nat \<Rightarrow> nat"
  bytes_in_use :: u64
  kimage_voffset :: u64

definition class_size :: "nat \<Rightarrow> nat" where
  "class_size i = 2 ^ (i + MIN_SHIFT)"

definition kmalloc_init :: "pgstate \<Rightarrow> u64 \<Rightarrow> kmstate" where
  "kmalloc_init s voff =
     \<lparr>pgs = s, partial = (\<lambda>_. []), cpages = (\<lambda>_. 0), bytes_in_use = 0, kimage_voffset = voff\<rparr>"

definition size_class :: "u64 \<Rightarrow> nat option" where
  "size_class bytes = find (\<lambda>i. unat bytes \<le> class_size i) [0..<NR_CLASSES]"

definition upd_page :: "kmstate \<Rightarrow> nat \<Rightarrow> (page \<Rightarrow> page) \<Rightarrow> kmstate" where
  "upd_page s p f = s\<lparr>pgs := (pgs s)\<lparr>mem_map := (mem_map (pgs s))(p := f (mem_map (pgs s) p))\<rparr>\<rparr>"

definition upd_ram :: "kmstate \<Rightarrow> ((nat \<Rightarrow> u64) \<Rightarrow> (nat \<Rightarrow> u64)) \<Rightarrow> kmstate" where
  "upd_ram s f = s\<lparr>pgs := (pgs s)\<lparr>ram := f (ram (pgs s))\<rparr>\<rparr>"

abbreviation kpage :: "kmstate \<Rightarrow> nat \<Rightarrow> page" where
  "kpage s p \<equiv> mem_map (pgs s) p"

abbreviation kram :: "kmstate \<Rightarrow> nat \<Rightarrow> u64" where
  "kram s \<equiv> ram (pgs s)"

text \<open>The carving loop of \<^verbatim>\<open>new_slab\<close>: from the last object of the page down to the first.\<close>

fun carve :: "u64 list \<Rightarrow> u64 \<Rightarrow> (nat \<Rightarrow> u64) \<Rightarrow> u64 \<times> (nat \<Rightarrow> u64)" where
  "carve [] h r = (h, r)"
| "carve (x # xs) h r = carve xs x (r(cell x := h, cell x + 1 := FREE_MAGIC))"

definition slab_objs :: "nat \<Rightarrow> nat \<Rightarrow> u64 list" where
  "slab_objs p sz = map (\<lambda>i. page_address p + of_nat (i * sz)) [0..<4096 div sz]"

definition new_slab :: "kmstate \<Rightarrow> nat \<Rightarrow> (nat option \<times> kmstate) kres" where
  "new_slab s ci =
     (case alloc_pages (pgs s) 0 0 of
        Inl e \<Rightarrow> Inl e
      | Inr (None, t) \<Rightarrow> Inr (None, s\<lparr>pgs := t\<rparr>)
      | Inr (Some p, t) \<Rightarrow>
          case carve (rev (slab_objs p (class_size ci))) 0 (ram t) of (h, r) \<Rightarrow>
            let s1 = upd_ram (s\<lparr>pgs := t\<rparr>) (\<lambda>_. r);
                s2 = upd_page s1 p (\<lambda>g. g\<lparr>pflags := set_flag (pflags g) PG_SLAB, slab_class := ci,
                                         slab_inuse := 0, freelist := h\<rparr>)
            in Inr (Some p, s2\<lparr>partial := (partial s)(ci := p # partial s ci),
                               cpages := (cpages s)(ci := cpages s ci + 1)\<rparr>))"

text \<open>Taking the first free object of a slab page that has one.\<close>

definition take_obj :: "kmstate \<Rightarrow> nat \<Rightarrow> nat \<Rightarrow> u32 \<Rightarrow> (u64 option \<times> kmstate) kres" where
  "take_obj s ci p g =
     (let obj = freelist (kpage s p); sz = class_size ci; nxt = kram s (cell obj) in
      if 16 \<le> sz \<and> kram s (cell obj + 1) \<noteq> FREE_MAGIC then Inl ''kmalloc: corrupted free object''
      else
        let s1 = upd_page s p (\<lambda>g. g\<lparr>freelist := nxt, slab_inuse := slab_inuse g + 1\<rparr>);
            s2 = (if nxt = 0 then s1\<lparr>partial := (partial s1)(ci := remove1 p (partial s1 ci))\<rparr> else s1);
            s3 = s2\<lparr>bytes_in_use := bytes_in_use s2 + of_nat sz\<rparr>
        in Inr (Some obj, if has_flag g GFP_ZERO then upd_ram s3 (\<lambda>r. zero_mem r (cell obj) sz)
                          else upd_ram s3 (\<lambda>r. r(cell obj + 1 := 0))))"

definition kmalloc_small :: "kmstate \<Rightarrow> nat \<Rightarrow> u32 \<Rightarrow> (u64 option \<times> kmstate) kres" where
  "kmalloc_small s ci g =
     (case partial s ci of
        [] \<Rightarrow> (case new_slab s ci of
                Inl e \<Rightarrow> Inl e
              | Inr (None, s') \<Rightarrow> Inr (None, s')
              | Inr (Some p, s') \<Rightarrow> take_obj s' ci p g)
      | p # _ \<Rightarrow> take_obj s ci p g)"

text \<open>
  The order loop of a large request.  Shifting past the width of the word is undefined in C; the fuel
  of 64 rounds stands for the shift counts that are defined, and \<open>None\<close> for not leaving the loop.
\<close>

fun order_loop :: "nat \<Rightarrow> u64 \<Rightarrow> nat \<Rightarrow> nat option" where
  "order_loop 0 bytes ord = None"
| "order_loop (Suc f) bytes ord =
     (if push_bit ord PAGE_SIZE < bytes then order_loop f bytes (ord + 1) else Some ord)"

definition kmalloc_large :: "kmstate \<Rightarrow> u64 \<Rightarrow> u32 \<Rightarrow> nat \<Rightarrow> (u64 option \<times> kmstate) kres" where
  "kmalloc_large s bytes g ord =
     (case alloc_pages (pgs s) (clear_flag g GFP_ZERO) ord of
        Inl e \<Rightarrow> Inl e
      | Inr (None, t) \<Rightarrow> Inr (None, s\<lparr>pgs := t\<rparr>)
      | Inr (Some p, t) \<Rightarrow>
          let s1 = upd_page (s\<lparr>pgs := t\<rparr>) p (\<lambda>g. g\<lparr>pflags := set_flag (pflags g) PG_COMPOUND, porder := ord\<rparr>);
              va = page_address p;
              s2 = (if has_flag g GFP_ZERO then upd_ram s1 (\<lambda>r. zero_mem r (cell va) (unat bytes)) else s1)
          in Inr (Some va, s2\<lparr>bytes_in_use := bytes_in_use s2 + push_bit ord PAGE_SIZE\<rparr>))"

definition kmalloc :: "kmstate \<Rightarrow> u64 \<Rightarrow> u32 \<Rightarrow> (u64 option \<times> kmstate) kres option" where
  "kmalloc s bytes g =
     (if bytes = 0 then Some (Inr (None, s))
      else case size_class bytes of
        None \<Rightarrow> map_option (kmalloc_large s bytes g) (order_loop 64 bytes 0)
      | Some ci \<Rightarrow> Some (kmalloc_small s ci g))"

text \<open>
  The scan of the free list that confirms a double free; \<open>None\<close> when the list does not end within the
  fuel.  A page holds at most 256 objects.
\<close>

fun on_freelist :: "nat \<Rightarrow> (nat \<Rightarrow> u64) \<Rightarrow> u64 \<Rightarrow> u64 \<Rightarrow> bool option" where
  "on_freelist 0 r q obj = None"
| "on_freelist (Suc f) r q obj =
     (if q = 0 then Some False else if q = obj then Some True else on_freelist f r (r (cell q)) obj)"

text \<open>Pushing an object on its page's free list, and releasing a page that is free as a whole.\<close>

definition push_obj :: "kmstate \<Rightarrow> nat \<Rightarrow> u64 \<Rightarrow> kmstate" where
  "push_obj s p obj =
     (let ci = slab_class (kpage s p); sz = class_size ci; was_full = (freelist (kpage s p) = 0);
          s1 = upd_ram s (\<lambda>r. r(cell obj := freelist (kpage s p)));
          s2 = (if 16 \<le> sz then upd_ram s1 (\<lambda>r. r(cell obj + 1 := FREE_MAGIC)) else s1);
          s3 = upd_page s2 p (\<lambda>g. g\<lparr>freelist := obj, slab_inuse := slab_inuse g - 1\<rparr>);
          s4 = s3\<lparr>bytes_in_use := bytes_in_use s3 - of_nat sz\<rparr>
      in if was_full then s4\<lparr>partial := (partial s4)(ci := p # partial s4 ci)\<rparr> else s4)"

definition drop_slab :: "kmstate \<Rightarrow> nat \<Rightarrow> kmstate kres" where
  "drop_slab s p =
     (let ci = slab_class (kpage s p);
          s1 = s\<lparr>partial := (partial s)(ci := remove1 p (partial s ci)),
                 cpages := (cpages s)(ci := cpages s ci - 1)\<rparr>;
          s2 = upd_page s1 p (\<lambda>g. g\<lparr>pflags := clear_flag (pflags g) PG_SLAB\<rparr>)
      in map_sum id (\<lambda>t. s2\<lparr>pgs := t\<rparr>) (free_pages (pgs s2) (Some p) 0))"

definition put_obj :: "kmstate \<Rightarrow> nat \<Rightarrow> u64 \<Rightarrow> kmstate kres" where
  "put_obj s p obj =
     (let s1 = push_obj s p obj in
      if slab_inuse (kpage s1 p) = 0 \<and> 1 < cpages s1 (slab_class (kpage s p)) then drop_slab s1 p else Inr s1)"

definition kfree :: "nat \<Rightarrow> kmstate \<Rightarrow> u64 option \<Rightarrow> kmstate kres option" where
  "kfree fuel s ptr =
     (case ptr of
        None \<Rightarrow> Some (Inr s)
      | Some va \<Rightarrow>
          let p = virt_to_page (kimage_voffset s) va in
          if has_flag (pflags (kpage s p)) PG_COMPOUND
          then let ord = porder (kpage s p);
                   s1 = upd_page s p (\<lambda>g. g\<lparr>pflags := clear_flag (pflags g) PG_COMPOUND\<rparr>);
                   s2 = s1\<lparr>bytes_in_use := bytes_in_use s1 - push_bit ord PAGE_SIZE\<rparr>
               in Some (map_sum id (\<lambda>t. s2\<lparr>pgs := t\<rparr>) (free_pages (pgs s2) (Some p) ord))
          else if \<not> has_flag (pflags (kpage s p)) PG_SLAB then Some (Inl ''kfree: not a kmalloc pointer'')
          else
            let sz = class_size (slab_class (kpage s p)) in
            if va AND (of_nat sz - 1) \<noteq> 0 then Some (Inl ''kfree: misaligned pointer'')
            else if 16 \<le> sz \<and> kram s (cell va + 1) = FREE_MAGIC
            then (case on_freelist fuel (kram s) (freelist (kpage s p)) va of
                    None \<Rightarrow> None
                  | Some True \<Rightarrow> Some (Inl ''kfree: double free'')
                  | Some False \<Rightarrow> Some (put_obj s p va))
            else Some (put_obj s p va))"

definition ksize :: "kmstate \<Rightarrow> u64 \<Rightarrow> u64" where
  "ksize s va =
     (let p = virt_to_page (kimage_voffset s) va in
      if has_flag (pflags (kpage s p)) PG_COMPOUND then push_bit (porder (kpage s p)) PAGE_SIZE
      else of_nat (class_size (slab_class (kpage s p))))"

definition kzalloc :: "kmstate \<Rightarrow> u64 \<Rightarrow> u32 \<Rightarrow> (u64 option \<times> kmstate) kres option" where
  "kzalloc s bytes g = kmalloc s bytes (set_flag g GFP_ZERO)"

definition kcalloc :: "kmstate \<Rightarrow> u64 \<Rightarrow> u64 \<Rightarrow> u32 \<Rightarrow> (u64 option \<times> kmstate) kres option" where
  "kcalloc s n bytes g =
     (if bytes \<noteq> 0 \<and> (- 1) div bytes < n then Some (Inr (None, s)) else kzalloc s (n * bytes) g)"

text \<open>The string argument is its bytes before the terminating zero.\<close>

definition kstrdup :: "kmstate \<Rightarrow> u8 list \<Rightarrow> u32 \<Rightarrow> (u64 option \<times> kmstate) kres option" where
  "kstrdup s str g =
     (case kmalloc s (of_nat (length str + 1)) g of
        Some (Inr (Some d, s')) \<Rightarrow>
          Some (Inr (Some d, upd_ram s' (\<lambda>r. store_bytes r (unat (d - PAGE_OFFSET)) (str @ [0]))))
      | res \<Rightarrow> res)"

definition kmalloc_bytes_in_use :: "kmstate \<Rightarrow> u64" where
  "kmalloc_bytes_in_use s = bytes_in_use s"


section \<open>The heap invariant\<close>

fun chain :: "(nat \<Rightarrow> u64) \<Rightarrow> u64 \<Rightarrow> u64 list \<Rightarrow> bool" where
  "chain r h [] \<longleftrightarrow> h = 0"
| "chain r h (x # xs) \<longleftrightarrow> h = x \<and> x \<noteq> 0 \<and> chain r (r (cell x)) xs"

definition is_slab :: "kmstate \<Rightarrow> nat \<Rightarrow> bool" where
  "is_slab s p \<longleftrightarrow> pfn_valid (pgs s) p \<and> page_flag (pgs s) p PG_SLAB"

definition is_big :: "kmstate \<Rightarrow> nat \<Rightarrow> bool" where
  "is_big s p \<longleftrightarrow> pfn_valid (pgs s) p \<and> page_flag (pgs s) p PG_COMPOUND"

abbreviation csize :: "kmstate \<Rightarrow> nat \<Rightarrow> nat" where
  "csize s p \<equiv> class_size (slab_class (kpage s p))"

definition free_objs :: "kmstate \<Rightarrow> nat \<Rightarrow> u64 set" where
  "free_objs s p = {x. \<exists>xs. chain (kram s) (freelist (kpage s p)) xs \<and> x \<in> set xs}"

text \<open>The objects in use: those of every slab page that its free list does not hold.\<close>

definition live :: "kmstate \<Rightarrow> u64 set" where
  "live s = {x. \<exists>p. is_slab s p \<and> x \<in> set (slab_objs p (csize s p)) - free_objs s p}"

definition slab_chain :: "kmstate \<Rightarrow> nat \<Rightarrow> u64 list \<Rightarrow> bool" where
  "slab_chain s p xs \<longleftrightarrow> chain (kram s) (freelist (kpage s p)) xs \<and> distinct xs \<and>
     set xs \<subseteq> set (slab_objs p (csize s p)) \<and> (\<forall>x \<in> set xs. kram s (cell x + 1) = FREE_MAGIC) \<and>
     slab_inuse (kpage s p) + length xs = 4096 div csize s p \<and>
     (p \<in> set (partial s (slab_class (kpage s p))) \<longleftrightarrow> xs \<noteq> [])"

definition slab_ok :: "kmstate \<Rightarrow> nat \<Rightarrow> bool" where
  "slab_ok s p \<longleftrightarrow> slab_class (kpage s p) < NR_CLASSES \<and> p \<notin> free_set (pgs s) (pfn_zone (pgs s) p) \<and>
     \<not> page_flag (pgs s) p PG_RESERVED \<and> \<not> page_flag (pgs s) p PG_COMPOUND \<and> (\<exists>xs. slab_chain s p xs)"

definition kinv :: "kmstate \<Rightarrow> bool" where
  "kinv s \<longleftrightarrow> pg_inv (pgs s) \<and> base_pfn (pgs s) + map_pfns (pgs s) \<le> 2 ^ 26 \<and>
     (\<forall>p. is_slab s p \<longrightarrow> slab_ok s p) \<and>
     (\<forall>c < NR_CLASSES. distinct (partial s c) \<and> (\<forall>p \<in> set (partial s c). is_slab s p \<and> slab_class (kpage s p) = c)) \<and>
     (\<forall>z < NR_ZONES. \<forall>p \<in> free_set (pgs s) z. \<not> page_flag (pgs s) p PG_COMPOUND)"


subsection \<open>Address arithmetic\<close>

text \<open>The linear-map address of a physical byte address.\<close>

definition lin :: "nat \<Rightarrow> u64" where
  "lin n = of_nat n + PAGE_OFFSET"

lemma page_address_lin: "page_address p = lin (p * 4096)"
  by (simp add: lin_def page_address_def phys_to_virt_def page_to_phys_def PAGE_SHIFT_def push_bit_eq_mult)

lemma lin_add: "lin n + of_nat m = lin (n + m)"
  by (simp add: lin_def)

lemma slab_objs_lin: "slab_objs p sz = map (\<lambda>i. lin (p * 4096 + i * sz)) [0..<4096 div sz]"
  by (simp only: slab_objs_def page_address_lin lin_add)

lemma length_slab_objs [simp]: "length (slab_objs p sz) = 4096 div sz"
  by (simp add: slab_objs_def)

lemma lin_facts:
  assumes "n < 2 ^ 38"
  shows "unat (lin n - PAGE_OFFSET) = n" "cell (lin n) = n div 8" "unat (lin n) = n + unat PAGE_OFFSET"
    "lin n \<noteq> 0" "virt_to_page voff (lin n) = n div 4096"
proof -
  have u: "unat (of_nat n :: u64) = n" using assms by (simp add: unat_of_nat)
  then show 1: "unat (lin n - PAGE_OFFSET) = n" by (simp add: lin_def)
  then show "cell (lin n) = n div 8" by (simp add: cell_def)
  show 3: "unat (lin n) = n + unat PAGE_OFFSET"
    unfolding lin_def using u assms by (subst u64_add) (simp_all add: PAGE_OFFSET_def)
  then have pos: "0 < unat (lin n)" by (simp add: PAGE_OFFSET_def)
  show "lin n \<noteq> 0"
  proof
    assume "lin n = 0"
    then have "unat (lin n) = 0" by simp
    then show False using pos by simp
  qed
  have "\<not> KIMAGE_VADDR \<le> lin n"
    using 3 assms by (simp add: word_le_nat_alt KIMAGE_VADDR_def PAGE_OFFSET_def)
  then show "virt_to_page voff (lin n) = n div 4096"
    using 1 by (simp add: virt_to_page_def virt_to_phys_def pa_pfn_eq)
qed

lemma lin_inj: "n < 2 ^ 38 \<Longrightarrow> m < 2 ^ 38 \<Longrightarrow> lin n = lin m \<longleftrightarrow> n = m"
  using lin_facts(1) by metis

lemma class_size_le: "c < NR_CLASSES \<Longrightarrow> 16 \<le> class_size c \<and> class_size c \<le> 2048 \<and> class_size c dvd 4096"
proof -
  assume "c < NR_CLASSES"
  then have "c + MIN_SHIFT \<le> 11" "4 \<le> c + MIN_SHIFT" by (simp_all add: NR_CLASSES_def MIN_SHIFT_def)
  then have "(2 :: nat) ^ (c + MIN_SHIFT) \<le> 2 ^ 11" "(2 :: nat) ^ 4 \<le> 2 ^ (c + MIN_SHIFT)"
    "(2 :: nat) ^ (c + MIN_SHIFT) dvd 2 ^ 12"
    by (simp_all only: power_increasing one_le_numeral le_imp_power_dvd)
  then show ?thesis by (simp add: class_size_def)
qed

lemma class_words: "c < NR_CLASSES \<Longrightarrow> \<exists>w. class_size c = 8 * w \<and> 2 \<le> w"
proof -
  assume "c < NR_CLASSES"
  have "class_size c = 8 * 2 ^ (c + 1)" by (simp add: class_size_def MIN_SHIFT_def power_add)
  moreover have "(2 :: nat) ^ 1 \<le> 2 ^ (c + 1)" by (rule power_increasing) simp_all
  ultimately show ?thesis by auto
qed

text \<open>The objects of a slab page: where they are and what cells they own.\<close>

lemma obj_bound:
  assumes "i < 4096 div class_size c" "p < 2 ^ 26"
  shows "(i + 1) * class_size c \<le> 4096" "p * 4096 + i * class_size c < 2 ^ 38" "i * class_size c < 4096"
proof -
  have "i + 1 \<le> 4096 div class_size c" using assms(1) by simp
  then have "(i + 1) * class_size c \<le> 4096 div class_size c * class_size c" by (rule mult_le_mono1)
  also have "\<dots> \<le> 4096" by (rule div_times_less_eq_dividend)
  finally show le: "(i + 1) * class_size c \<le> 4096" .
  have "p + 1 \<le> 2 ^ 26" using assms(2) by simp
  then have "(p + 1) * 4096 \<le> 2 ^ 26 * 4096" by (rule mult_le_mono1)
  moreover show "i * class_size c < 4096"
  proof -
    have "0 < class_size c" by (simp add: class_size_def)
    then show ?thesis using le by simp
  qed
  ultimately show "p * 4096 + i * class_size c < 2 ^ 38" by simp
qed

lemma slab_objE:
  assumes "x \<in> set (slab_objs p (class_size c))" "c < NR_CLASSES" "p < 2 ^ 26"
  obtains i w where "x = lin (p * 4096 + i * class_size c)" "class_size c = 8 * w" "2 \<le> w" "i < 4096 div class_size c"
    "(i + 1) * w \<le> 512" "cell x = p * 512 + i * w" "p * 4096 + i * class_size c < 2 ^ 38"
proof -
  obtain i where i: "i < 4096 div class_size c" "x = lin (p * 4096 + i * class_size c)"
    using assms(1) by (auto simp: slab_objs_lin)
  obtain w where w: "class_size c = 8 * w" "2 \<le> w" using class_words [OF assms(2)] by blast
  note b = obj_bound [OF i(1) assms(3)]
  have iw: "(i + 1) * w \<le> 512" using b(1) w(1) by simp
  have e: "p * 4096 + i * class_size c = (p * 512 + i * w) * 8" by (simp add: w(1))
  have "cell x = (p * 512 + i * w) * 8 div 8" using lin_facts(2) [OF b(2)] i(2) e by simp
  then have "cell x = p * 512 + i * w" by simp
  then show thesis using that i w iw b(2) by blast
qed

lemma slab_objs_distinct:
  assumes "c < NR_CLASSES" "p < 2 ^ 26"
  shows "distinct (slab_objs p (class_size c))"
proof -
  have "inj_on (\<lambda>i. lin (p * 4096 + i * class_size c)) (set [0..<4096 div class_size c])"
  proof (rule inj_onI)
    fix i j
    assume ij: "i \<in> set [0..<4096 div class_size c]" "j \<in> set [0..<4096 div class_size c]"
      and eq: "lin (p * 4096 + i * class_size c) = lin (p * 4096 + j * class_size c)"
    have "p * 4096 + i * class_size c < 2 ^ 38" "p * 4096 + j * class_size c < 2 ^ 38"
      using ij obj_bound(2) [OF _ assms(2)] by auto
    then have "p * 4096 + i * class_size c = p * 4096 + j * class_size c" using lin_inj eq by blast
    moreover have "class_size c \<noteq> 0" by (simp add: class_size_def)
    ultimately show "i = j" by simp
  qed
  then show ?thesis by (simp add: slab_objs_lin distinct_map)
qed

lemma slab_page_unique:
  assumes "x \<in> set (slab_objs p (class_size c))" "c < NR_CLASSES" "p < 2 ^ 26"
    "x \<in> set (slab_objs q (class_size d))" "d < NR_CLASSES" "q < 2 ^ 26"
  shows "q = p"
proof -
  obtain i where i: "x = lin (p * 4096 + i * class_size c)" "p * 4096 + i * class_size c < 2 ^ 38" "i < 4096 div class_size c"
    by (rule slab_objE [OF assms(1-3)])
  obtain j where j: "x = lin (q * 4096 + j * class_size d)" "q * 4096 + j * class_size d < 2 ^ 38" "j < 4096 div class_size d"
    by (rule slab_objE [OF assms(4-6)])
  have eq: "p * 4096 + i * class_size c = q * 4096 + j * class_size d" using lin_inj i j by metis
  have "i * class_size c < 4096" "j * class_size d < 4096"
    using obj_bound(3) [OF i(3) assms(3)] obj_bound(3) [OF j(3) assms(6)] by blast+
  then have "(p * 4096 + i * class_size c) div 4096 = p" "(q * 4096 + j * class_size d) div 4096 = q" by simp_all
  then show ?thesis using eq by simp
qed

text \<open>Two objects of slab pages share no cell unless they are the same object.\<close>

lemma obj_cells_disjoint:
  assumes "x \<in> set (slab_objs p (class_size c))" "c < NR_CLASSES" "p < 2 ^ 26"
    "y \<in> set (slab_objs q (class_size d))" "d < NR_CLASSES" "q < 2 ^ 26"
    "p = q \<Longrightarrow> c = d" "x \<noteq> y" "class_size c = 8 * w" "class_size d = 8 * v"
  shows "cell x + w \<le> cell y \<or> cell y + v \<le> cell x"
proof -
  obtain i u where x: "x = lin (p * 4096 + i * class_size c)" "class_size c = 8 * u" "(i + 1) * u \<le> 512"
    "cell x = p * 512 + i * u" by (rule slab_objE [OF assms(1-3)])
  obtain j v' where y: "y = lin (q * 4096 + j * class_size d)" "class_size d = 8 * v'" "(j + 1) * v' \<le> 512"
    "cell y = q * 512 + j * v'" by (rule slab_objE [OF assms(4-6)])
  have u: "u = w" "v' = v" using x(2) y(2) assms(9,10) by simp_all
  have ex: "cell x + w = p * 512 + (i + 1) * w" "cell y + v = q * 512 + (j + 1) * v" using x(4) y(4) u by simp_all
  have le: "(i + 1) * w \<le> 512" "(j + 1) * v \<le> 512" using x(3) y(3) u by simp_all
  consider (lt) "p + 1 \<le> q" | (gt) "q + 1 \<le> p" | (eq) "p = q" by linarith
  then show ?thesis
  proof cases
    case lt
    then have "p * 512 + 512 \<le> q * 512" by simp
    then show ?thesis using ex le y(4) by linarith
  next
    case gt
    then have "q * 512 + 512 \<le> p * 512" by simp
    then show ?thesis using ex le x(4) by linarith
  next
    case eq
    then have v: "v = w" "i \<noteq> j" using assms(7,8) x y u by auto
    then consider "i + 1 \<le> j" | "j + 1 \<le> i" by linarith
    then show ?thesis
    proof cases
      case 1
      then have "(i + 1) * w \<le> j * w" by (rule mult_le_mono1)
      then show ?thesis using ex y(4) eq u v(1) by simp
    next
      case 2
      then have "(j + 1) * w \<le> i * w" by (rule mult_le_mono1)
      then show ?thesis using ex x(4) eq u v(1) by simp
    qed
  qed
qed

lemma obj_cells_apart:
  assumes "x \<in> set (slab_objs p (class_size c))" "c < NR_CLASSES" "p < 2 ^ 26"
    "y \<in> set (slab_objs q (class_size d))" "d < NR_CLASSES" "q < 2 ^ 26"
    "p = q \<Longrightarrow> c = d" "x \<noteq> y" "class_size c = 8 * w" "k < w"
  shows "cell y \<noteq> cell x + k" "cell y + 1 \<noteq> cell x + k"
proof -
  obtain v where v: "class_size d = 8 * v" "2 \<le> v" using class_words [OF assms(5)] by blast
  have "cell x + w \<le> cell y \<or> cell y + v \<le> cell x" by (rule obj_cells_disjoint [OF assms(1-9) v(1)])
  then show "cell y \<noteq> cell x + k" "cell y + 1 \<noteq> cell x + k" using assms(10) v(2) by auto
qed


subsection \<open>Free lists\<close>

lemma chain_unique: "chain r h xs \<Longrightarrow> chain r h ys \<Longrightarrow> xs = ys"
proof (induction xs arbitrary: h ys)
  case Nil
  then show ?case by (cases ys) auto
next
  case (Cons x xs)
  then show ?case by (cases ys) auto
qed

lemma chain_frame: "\<forall>x \<in> set xs. r' (cell x) = r (cell x) \<Longrightarrow> chain r' h xs = chain r h xs"
  by (induction xs arbitrary: h) auto

lemma on_freelist_chain: "chain r h xs \<Longrightarrow> length xs < fuel \<Longrightarrow> on_freelist fuel r h obj = Some (obj \<in> set xs)"
proof (induction xs arbitrary: h fuel)
  case Nil
  then show ?case by (cases fuel) auto
next
  case (Cons x xs)
  then show ?case by (cases fuel) auto
qed

lemma free_objs_chain: "chain (kram s) (freelist (kpage s p)) xs \<Longrightarrow> free_objs s p = set xs"
  using chain_unique by (auto simp: free_objs_def)

lemma slab_chain_objs: "slab_chain s p xs \<Longrightarrow> free_objs s p = set xs"
  by (rule free_objs_chain) (simp add: slab_chain_def)

definition apart :: "u64 \<Rightarrow> u64 \<Rightarrow> bool" where
  "apart x y \<longleftrightarrow> cell x \<noteq> cell y \<and> cell x \<noteq> cell y + 1 \<and> cell x + 1 \<noteq> cell y"

lemma carve_chain:
  assumes "chain r h xs" "\<forall>x \<in> set xs. r (cell x + 1) = FREE_MAGIC" "distinct (ys @ xs)" "\<forall>y \<in> set ys. y \<noteq> 0"
    "\<forall>x \<in> set (ys @ xs). \<forall>y \<in> set (ys @ xs). x \<noteq> y \<longrightarrow> apart x y" "carve ys h r = (h', r')"
  shows "chain r' h' (rev ys @ xs) \<and> (\<forall>x \<in> set (ys @ xs). r' (cell x + 1) = FREE_MAGIC) \<and>
    (\<forall>c. (\<forall>y \<in> set ys. c \<noteq> cell y \<and> c \<noteq> cell y + 1) \<longrightarrow> r' c = r c)"
  using assms
proof (induction ys arbitrary: xs h r)
  case (Cons y ys)
  let ?r = "r(cell y := h, cell y + 1 := FREE_MAGIC)"
  have ap: "apart y x" if "x \<in> set xs" for x using Cons.prems(3,5) that by auto
  have c: "chain ?r y (y # xs)"
  proof -
    have "chain ?r h xs = chain r h xs" by (rule chain_frame) (use ap in \<open>fastforce simp: apart_def\<close>)
    then show ?thesis using Cons.prems(1,4) by simp
  qed
  have m: "\<forall>x \<in> set (y # xs). ?r (cell x + 1) = FREE_MAGIC" using Cons.prems(2) ap by (fastforce simp: apart_def)
  have d: "distinct (ys @ y # xs)" "\<forall>y \<in> set ys. y \<noteq> 0"
    "\<forall>x \<in> set (ys @ y # xs). \<forall>z \<in> set (ys @ y # xs). x \<noteq> z \<longrightarrow> apart x z" "carve ys y ?r = (h', r')"
    using Cons.prems(3-6) by auto
  from Cons.IH [OF c m d] show ?case by auto
qed simp

lemma kinvD:
  assumes "kinv s"
  shows "pg_inv (pgs s)" "is_slab s p \<Longrightarrow> slab_ok s p" "is_slab s p \<Longrightarrow> p < 2 ^ 26"
    "c < NR_CLASSES \<Longrightarrow> distinct (partial s c)" "c < NR_CLASSES \<Longrightarrow> p \<in> set (partial s c) \<Longrightarrow> is_slab s p \<and> slab_class (kpage s p) = c"
    "z < NR_ZONES \<Longrightarrow> p \<in> free_set (pgs s) z \<Longrightarrow> \<not> page_flag (pgs s) p PG_COMPOUND"
  using assms by (auto simp: kinv_def is_slab_def pfn_valid_def)

text \<open>
  An update of one slab page: its descriptor's slab fields, memory outside the objects of the other
  slab pages, and its membership in its class's partial list.
\<close>

lemma slab_update:
  assumes k: "kinv s" and sp: "is_slab s p" and cl: "c = slab_class (kpage s p)" "slab_class (kpage s' p) = c"
    and fr: "base_pfn (pgs s') = base_pfn (pgs s)" "map_pfns (pgs s') = map_pfns (pgs s)" "zones (pgs s') = zones (pgs s)"
      "\<And>q. pflags (kpage s' q) = pflags (kpage s q)" "\<And>q. porder (kpage s' q) = porder (kpage s q)"
      "\<And>q. q \<noteq> p \<Longrightarrow> kpage s' q = kpage s q"
    and mem: "\<And>q y. is_slab s q \<Longrightarrow> q \<noteq> p \<Longrightarrow> y \<in> set (slab_objs q (csize s q)) \<Longrightarrow>
        kram s' (cell y) = kram s (cell y) \<and> kram s' (cell y + 1) = kram s (cell y + 1)"
    and ch: "slab_chain s' p xs"
    and pa: "\<And>d. d \<noteq> c \<Longrightarrow> partial s' d = partial s d" "set (partial s' c) - {p} = set (partial s c) - {p}"
      "distinct (partial s' c)"
  shows "kinv s'" "is_slab s' = is_slab s"
    "live s' = (live s - set (slab_objs p (class_size c))) \<union> (set (slab_objs p (class_size c)) - set xs)"
proof -
  note cc = core_cong [of "pgs s'" "pgs s", OF fr(1,2) _ _ _ _ fr(4,5), simplified fr(3)]
  have pf: "page_flag (pgs s') q m = page_flag (pgs s) q m" for q m using fr(4) by (simp add: page_flag_def)
  have sl: "is_slab s' = is_slab s" using cc(6) pf by (simp add: is_slab_def fun_eq_iff)
  have pgi: "pg_inv (pgs s')" using kinvD(1) [OF k] cc(1,4) fr(3) by (simp add: pg_inv_def counted_def)
  have c: "c < NR_CLASSES" using kinvD(2) [OF k sp] cl by (simp add: slab_ok_def)
  have oth: "slab_chain s' q ys" if q: "is_slab s q" "q \<noteq> p" and ys: "slab_chain s q ys" for q ys
  proof -
    have e: "kpage s' q = kpage s q" by (rule fr(6)) (rule q(2))
    have sub: "set ys \<subseteq> set (slab_objs q (csize s q))" using ys by (simp add: slab_chain_def)
    have m: "kram s' (cell y) = kram s (cell y) \<and> kram s' (cell y + 1) = kram s (cell y + 1)" if "y \<in> set ys" for y
      using mem [OF q] sub that by blast
    have "chain (kram s') h ys = chain (kram s) h ys" for h by (rule chain_frame) (use m in blast)
    moreover have "q \<in> set (partial s' d) \<longleftrightarrow> q \<in> set (partial s d)" for d
      using pa(1) [of d] pa(2) q(2) by (cases "d = c") auto
    ultimately show ?thesis using ys m by (simp add: slab_chain_def e)
  qed
  have ok: "slab_ok s' q" if q: "is_slab s q" for q
  proof -
    have "\<exists>ys. slab_chain s' q ys"
    proof (cases "q = p")
      case False
      then show ?thesis using oth [OF q False] kinvD(2) [OF k q] by (auto simp: slab_ok_def)
    qed (use ch in blast)
    moreover have "slab_class (kpage s' q) = slab_class (kpage s q)" using cl fr(6) by (cases "q = p") auto
    ultimately show ?thesis using kinvD(2) [OF k q] cc(4,5) pf by (simp add: slab_ok_def)
  qed
  have par: "distinct (partial s' d) \<and> (\<forall>q \<in> set (partial s' d). is_slab s q \<and> slab_class (kpage s' q) = d)"
    if d: "d < NR_CLASSES" for d
  proof (cases "d = c")
    case False
    then show ?thesis using kinvD(4,5) [OF k d] pa(1) fr(6) cl sp by (metis (no_types, lifting))
  next
    case True
    have "is_slab s q \<and> slab_class (kpage s' q) = c" if "q \<in> set (partial s' c)" for q
    proof (cases "q = p")
      case False
      then have "q \<in> set (partial s c)" using that pa(2) by blast
      then show ?thesis using kinvD(5) [OF k c] fr(6) [OF False] by simp
    qed (use sp cl in simp)
    then show ?thesis using pa(3) True by blast
  qed
  show "kinv s'" unfolding kinv_def sl using pgi ok par k cc(4) fr(1,2) pf by (auto simp: kinv_def)
  show "is_slab s' = is_slab s" by (rule sl)
  have fo: "free_objs s' q = free_objs s q" if q: "is_slab s q" "q \<noteq> p" for q
    using kinvD(2) [OF k q(1)] oth [OF q] slab_chain_objs unfolding slab_ok_def by metis
  have fp: "free_objs s' p = set xs" by (rule slab_chain_objs) (rule ch)
  have csz: "csize s' q = csize s q" for q using cl fr(6) by (cases "q = p") auto
  have dis: "x \<notin> set (slab_objs p (class_size c))"
    if q: "is_slab s q" "q \<noteq> p" and xq: "x \<in> set (slab_objs q (csize s q))" for q x
  proof
    assume x: "x \<in> set (slab_objs p (class_size c))"
    have cq: "slab_class (kpage s q) < NR_CLASSES" using kinvD(2) [OF k q(1)] by (simp add: slab_ok_def)
    show False using slab_page_unique [OF x c kinvD(3) [OF k sp] xq cq kinvD(3) [OF k q(1)]] q(2) by simp
  qed
  show "live s' = (live s - set (slab_objs p (class_size c))) \<union> (set (slab_objs p (class_size c)) - set xs)"
    (is "_ = ?R")
  proof (rule set_eqI)
    fix x
    have "x \<in> live s' \<longleftrightarrow> x \<in> set (slab_objs p (class_size c)) - set xs \<or>
        (\<exists>q. is_slab s q \<and> q \<noteq> p \<and> x \<in> set (slab_objs q (csize s q)) - free_objs s q)"
      unfolding live_def sl csz using fo fp sp cl by blast
    also have "\<dots> \<longleftrightarrow> x \<in> ?R" unfolding live_def using dis cl by blast
    finally show "x \<in> live s' \<longleftrightarrow> x \<in> ?R" .
  qed
qed

lemma live_page:
  assumes "kinv s" "is_slab s p" "y \<in> set (slab_objs p (csize s p))"
  shows "y \<in> live s \<longleftrightarrow> y \<notin> free_objs s p"
proof
  assume "y \<in> live s"
  then obtain q where q: "is_slab s q" "y \<in> set (slab_objs q (csize s q))" "y \<notin> free_objs s q" by (auto simp: live_def)
  have "slab_class (kpage s q) < NR_CLASSES" "slab_class (kpage s p) < NR_CLASSES"
    using kinvD(2) [OF assms(1)] q(1) assms(2) by (auto simp: slab_ok_def)
  then have "q = p" using slab_page_unique [OF assms(3) _ _ q(2)] kinvD(3) [OF assms(1)] q(1) assms(2) by blast
  then show "y \<notin> free_objs s p" using q(3) by simp
qed (use assms in \<open>auto simp: live_def\<close>)

lemma upd_simps [simp]:
  "kpage (upd_page s p f) q = (if q = p then f (kpage s p) else kpage s q)" "kram (upd_page s p f) = kram s"
  "kpage (upd_ram s h) q = kpage s q" "kram (upd_ram s h) = h (kram s)"
  "partial (upd_page s p f) = partial s" "partial (upd_ram s h) = partial s"
  "cpages (upd_page s p f) = cpages s" "cpages (upd_ram s h) = cpages s"
  "base_pfn (pgs (upd_page s p f)) = base_pfn (pgs s)" "map_pfns (pgs (upd_page s p f)) = map_pfns (pgs s)"
  "zones (pgs (upd_page s p f)) = zones (pgs s)" "base_pfn (pgs (upd_ram s h)) = base_pfn (pgs s)"
  "map_pfns (pgs (upd_ram s h)) = map_pfns (pgs s)" "zones (pgs (upd_ram s h)) = zones (pgs s)"
  "bytes_in_use (upd_page s p f) = bytes_in_use s" "bytes_in_use (upd_ram s h) = bytes_in_use s"
  "kimage_voffset (upd_page s p f) = kimage_voffset s" "kimage_voffset (upd_ram s h) = kimage_voffset s"
  by (simp_all add: upd_page_def upd_ram_def)

lemma zero_mem_words: "zero_mem r c (8 * w) = (\<lambda>d. if c \<le> d \<and> d < c + w then 0 else r d)"
  by (auto simp: zero_mem_def)

lemma take_obj_spec:
  assumes k: "kinv s" and c: "c < NR_CLASSES" and p: "p \<in> set (partial s c)" and w: "class_size c = 8 * w"
  obtains x s' where "take_obj s c p g = Inr (Some x, s')" "kinv s'" "x \<notin> live s" "live s' = insert x (live s)"
    "x \<in> set (slab_objs p (class_size c))" "p < 2 ^ 26" "kimage_voffset s' = kimage_voffset s"
    "\<And>d. d < cell x \<or> cell x + w \<le> d \<Longrightarrow> kram s' d = kram s d"
    "\<And>d. has_flag g GFP_ZERO \<Longrightarrow> cell x \<le> d \<Longrightarrow> d < cell x + w \<Longrightarrow> kram s' d = 0"
proof -
  have sp: "is_slab s p" and cl: "slab_class (kpage s p) = c" using kinvD(5) [OF k c p] by auto
  note pb = kinvD(3) [OF k sp]
  obtain xs where xs: "slab_chain s p xs" using kinvD(2) [OF k sp] by (auto simp: slab_ok_def)
  then have "xs \<noteq> []" using p cl by (simp add: slab_chain_def)
  then obtain x ys where xy: "xs = x # ys" by (cases xs) auto
  have ch: "freelist (kpage s p) = x" "chain (kram s) (kram s (cell x)) ys" "distinct (x # ys)"
    "set (x # ys) \<subseteq> set (slab_objs p (class_size c))" "\<forall>y \<in> set (x # ys). kram s (cell y + 1) = FREE_MAGIC"
    "slab_inuse (kpage s p) + 1 + length ys = 4096 div class_size c"
    using xs cl unfolding slab_chain_def xy by auto
  let ?n = "kram s (cell x)"
  have n0: "?n = 0 \<longleftrightarrow> ys = []" using ch(2) by (cases ys) auto
  have w2: "2 \<le> w" using class_size_le [OF c] w by simp
  define m where "m = (\<lambda>r :: nat \<Rightarrow> u64. if has_flag g GFP_ZERO then zero_mem r (cell x) (class_size c) else r(cell x + 1 := 0))"
  define s' where "s' = upd_ram ((if ?n = 0 then (upd_page s p (\<lambda>g. g\<lparr>freelist := ?n, slab_inuse := slab_inuse g + 1\<rparr>))
        \<lparr>partial := (partial s)(c := remove1 p (partial s c))\<rparr>
      else upd_page s p (\<lambda>g. g\<lparr>freelist := ?n, slab_inuse := slab_inuse g + 1\<rparr>))
        \<lparr>bytes_in_use := bytes_in_use s + of_nat (class_size c)\<rparr>) m"
  have t: "take_obj s c p g = Inr (Some x, s')"
    using ch(1,5) by (simp add: take_obj_def Let_def s'_def m_def)
  have kp: "kpage s' q = (if q = p then (kpage s p)\<lparr>freelist := ?n, slab_inuse := slab_inuse (kpage s p) + 1\<rparr> else kpage s q)" for q
    by (simp add: s'_def)
  have pg: "base_pfn (pgs s') = base_pfn (pgs s)" "map_pfns (pgs s') = map_pfns (pgs s)" "zones (pgs s') = zones (pgs s)"
    "kimage_voffset s' = kimage_voffset s"
    by (simp_all add: s'_def)
  have kr: "kram s' = m (kram s)" by (simp add: s'_def)
  have out: "kram s' d = kram s d" if "d < cell x \<or> cell x + w \<le> d" for d
    using that w2 unfolding kr m_def w zero_mem_words by auto
  have zer: "kram s' d = 0" if "has_flag g GFP_ZERO" "cell x \<le> d" "d < cell x + w" for d
    using that unfolding kr m_def w zero_mem_words by simp
  have par: "partial s' d = (if d = c \<and> ys = [] then remove1 p (partial s c) else partial s d)" for d
    using n0 by (simp add: s'_def)
  have xo: "x \<in> set (slab_objs p (class_size c))" using ch(4) by simp
  have same: "kram s' (cell y) = kram s (cell y) \<and> kram s' (cell y + 1) = kram s (cell y + 1)"
    if q: "is_slab s q" "y \<in> set (slab_objs q (csize s q))" "y \<noteq> x" for q y
  proof -
    have cq: "slab_class (kpage s q) < NR_CLASSES" using kinvD(2) [OF k q(1)] by (simp add: slab_ok_def)
    have "cell y \<noteq> cell x + i" "cell y + 1 \<noteq> cell x + i" if "i < w" for i
      using obj_cells_apart [OF xo c pb q(2) cq kinvD(3) [OF k q(1)] _ _ w that] cl q(3) by auto
    then have "d < cell x \<or> cell x + w \<le> d" if "d = cell y \<or> d = cell y + 1" for d
      using that by (metis add_less_cancel_left le_iff_add not_le)
    then show ?thesis using out by blast
  qed
  have sc: "slab_chain s' p ys"
  proof -
    have m': "kram s' (cell y) = kram s (cell y) \<and> kram s' (cell y + 1) = kram s (cell y + 1)" if "y \<in> set ys" for y
      using same [OF sp] ch(3,4) cl that by auto
    have "chain (kram s') ?n ys" using chain_frame [of ys "kram s'" "kram s" ?n] m' ch(2) by simp
    moreover have "p \<in> set (partial s' c) \<longleftrightarrow> ys \<noteq> []" using par p kinvD(4) [OF k c] by simp
    ultimately show ?thesis using ch m' cl by (simp add: slab_chain_def kp)
  qed
  have dist: "distinct (partial s' c)" "set (partial s' c) - {p} = set (partial s c) - {p}" "\<And>d. d \<noteq> c \<Longrightarrow> partial s' d = partial s d"
    using par kinvD(4) [OF k c] by auto
  have mem: "kram s' (cell y) = kram s (cell y) \<and> kram s' (cell y + 1) = kram s (cell y + 1)"
    if q: "is_slab s q" "q \<noteq> p" "y \<in> set (slab_objs q (csize s q))" for q y
  proof (rule same [OF q(1,3)])
    have cq: "slab_class (kpage s q) < NR_CLASSES" using kinvD(2) [OF k q(1)] by (simp add: slab_ok_def)
    show "y \<noteq> x" using slab_page_unique [OF xo c pb _ cq kinvD(3) [OF k q(1)]] q(2,3) by blast
  qed
  have sc2: "slab_class (kpage s' p) = c" using kp cl by simp
  have fl: "pflags (kpage s' q) = pflags (kpage s q)" "porder (kpage s' q) = porder (kpage s q)" "q \<noteq> p \<Longrightarrow> kpage s' q = kpage s q" for q
    using kp by simp_all
  note u = slab_update [OF k sp cl [symmetric] sc2 pg(1-3) fl mem sc dist(3,2,1)]
  have fo: "free_objs s p = set (x # ys)" using slab_chain_objs [OF xs] xy by simp
  have lv: "live s' = (live s - set (slab_objs p (class_size c))) \<union> (set (slab_objs p (class_size c)) - set ys)"
    by (rule u(3))
  have ki: "kinv s'" by (rule u(1))
  have inl: "y \<in> live s \<longleftrightarrow> y \<noteq> x \<and> y \<notin> set ys" if "y \<in> set (slab_objs p (class_size c))" for y
    using live_page [OF k sp] that cl fo by simp
  have "x \<notin> live s" using inl [OF xo] by simp
  moreover have "live s' = insert x (live s)"
  proof (rule set_eqI)
    fix y
    show "y \<in> live s' \<longleftrightarrow> y \<in> insert x (live s)"
      using inl [of y] xo ch(3) unfolding lv by (cases "y \<in> set (slab_objs p (class_size c))") auto
  qed
  ultimately show thesis using that [OF t ki _ _ xo pb pg(4) out zer] by blast
qed

lemma push_obj_spec:
  assumes k: "kinv s" and sp: "is_slab s p" and x: "x \<in> live s" "x \<in> set (slab_objs p (csize s p))"
    and res: "push_obj s p x = s1"
  shows "kinv s1" "live s1 = live s - {x}" "is_slab s1 p"
    "slab_inuse (kpage s1 p) = 0 \<Longrightarrow> free_objs s1 p = set (slab_objs p (csize s p))"
    "kimage_voffset s1 = kimage_voffset s" "slab_class (kpage s1 p) = slab_class (kpage s p)"
    "p \<in> set (partial s1 (slab_class (kpage s p)))"
    "d \<noteq> cell x \<Longrightarrow> d \<noteq> cell x + 1 \<Longrightarrow> kram s1 d = kram s d"
proof -
  define c where "c = slab_class (kpage s p)"
  have ok: "slab_ok s p" using kinvD(2) [OF k sp] .
  have c: "c < NR_CLASSES" using ok by (simp add: slab_ok_def c_def)
  note pb = kinvD(3) [OF k sp]
  obtain xs where xs: "slab_chain s p xs" using ok by (auto simp: slab_ok_def)
  have ch: "chain (kram s) (freelist (kpage s p)) xs" "distinct xs" "set xs \<subseteq> set (slab_objs p (class_size c))"
    "\<forall>y \<in> set xs. kram s (cell y + 1) = FREE_MAGIC" "slab_inuse (kpage s p) + length xs = 4096 div class_size c"
    "p \<in> set (partial s c) \<longleftrightarrow> xs \<noteq> []"
    using xs unfolding slab_chain_def c_def by auto
  have xo: "x \<in> set (slab_objs p (class_size c))" using x(2) by (simp add: c_def)
  have nx: "x \<notin> set xs" using live_page [OF k sp x(2)] x(1) slab_chain_objs [OF xs] by simp
  have f0: "freelist (kpage s p) = 0 \<longleftrightarrow> xs = []" using ch(1) by (cases xs) auto
  have big: "16 \<le> class_size c" using class_size_le [OF c] by simp
  obtain w where w: "class_size c = 8 * w" "2 \<le> w" using class_words [OF c] by blast
  have x0: "x \<noteq> 0"
  proof -
    obtain i where "x = lin (p * 4096 + i * class_size c)" "p * 4096 + i * class_size c < 2 ^ 38"
      by (rule slab_objE [OF xo c pb])
    then show ?thesis using lin_facts(4) by simp
  qed
  have pos: "0 < slab_inuse (kpage s p)"
  proof -
    have "insert x (set xs) \<subseteq> set (slab_objs p (class_size c))" using ch(3) xo by blast
    then have "card (insert x (set xs)) \<le> card (set (slab_objs p (class_size c)))" by (intro card_mono) simp_all
    moreover have "card (set (slab_objs p (class_size c))) = 4096 div class_size c"
      using distinct_card [OF slab_objs_distinct [OF c pb]] by simp
    ultimately show ?thesis using ch(2,5) nx by (simp add: distinct_card)
  qed
  define s' where "s' = (if xs = [] then (upd_page (upd_ram s (\<lambda>r. r(cell x := freelist (kpage s p), cell x + 1 := FREE_MAGIC))) p
        (\<lambda>g. g\<lparr>freelist := x, slab_inuse := slab_inuse g - 1\<rparr>))
          \<lparr>bytes_in_use := bytes_in_use s - of_nat (class_size c), partial := (partial s)(c := p # partial s c)\<rparr>
      else (upd_page (upd_ram s (\<lambda>r. r(cell x := freelist (kpage s p), cell x + 1 := FREE_MAGIC))) p
        (\<lambda>g. g\<lparr>freelist := x, slab_inuse := slab_inuse g - 1\<rparr>))
          \<lparr>bytes_in_use := bytes_in_use s - of_nat (class_size c)\<rparr>)"
  have kp: "kpage s' q = (if q = p then (kpage s p)\<lparr>freelist := x, slab_inuse := slab_inuse (kpage s p) - 1\<rparr> else kpage s q)" for q
    by (simp add: s'_def)
  have kr: "kram s' = (kram s)(cell x := freelist (kpage s p), cell x + 1 := FREE_MAGIC)" by (simp add: s'_def fun_eq_iff)
  have par: "partial s' d = (if d = c \<and> xs = [] then p # partial s c else partial s d)" for d by (simp add: s'_def)
  have pg: "base_pfn (pgs s') = base_pfn (pgs s)" "map_pfns (pgs s') = map_pfns (pgs s)" "zones (pgs s') = zones (pgs s)"
    "cpages s' = cpages s" by (simp_all add: s'_def)
  have uu: "upd_ram (upd_ram s (\<lambda>r. r(cell x := freelist (kpage s p)))) (\<lambda>r. r(cell x + 1 := FREE_MAGIC)) =
      upd_ram s (\<lambda>r. r(cell x := freelist (kpage s p), cell x + 1 := FREE_MAGIC))"
    by (simp add: upd_ram_def)
  have t: "push_obj s p x = s'"
    unfolding push_obj_def Let_def c_def [symmetric] using big f0 uu by (simp add: s'_def)
  have same: "kram s' (cell y) = kram s (cell y) \<and> kram s' (cell y + 1) = kram s (cell y + 1)"
    if q: "is_slab s q" "y \<in> set (slab_objs q (csize s q))" "y \<noteq> x" for q y
  proof -
    have cq: "slab_class (kpage s q) < NR_CLASSES" using kinvD(2) [OF k q(1)] by (simp add: slab_ok_def)
    have "cell y \<noteq> cell x + i" "cell y + 1 \<noteq> cell x + i" if "i < w" for i
      using obj_cells_apart [OF xo c pb q(2) cq kinvD(3) [OF k q(1)] _ _ w(1) that] c_def q(3) by auto
    from this [of 0] this [of 1] w(2) show ?thesis by (simp add: kr)
  qed
  have sc: "slab_chain s' p (x # xs)"
  proof -
    have m': "kram s' (cell y) = kram s (cell y) \<and> kram s' (cell y + 1) = kram s (cell y + 1)" if "y \<in> set xs" for y
      using same [OF sp] ch(3) nx c_def that by auto
    have "chain (kram s') (freelist (kpage s p)) xs" using chain_frame [of xs "kram s'" "kram s"] m' ch(1) by simp
    then have "chain (kram s') x (x # xs)" using x0 by (simp add: kr)
    moreover have "p \<in> set (partial s' c)" using par ch(6) by auto
    ultimately show ?thesis using ch m' nx xo pos by (simp add: slab_chain_def kp c_def [symmetric] kr)
  qed
  have dist: "distinct (partial s' c)" "set (partial s' c) - {p} = set (partial s c) - {p}" "\<And>d. d \<noteq> c \<Longrightarrow> partial s' d = partial s d"
    using par kinvD(4) [OF k c] ch(6) by auto
  have mem: "kram s' (cell y) = kram s (cell y) \<and> kram s' (cell y + 1) = kram s (cell y + 1)"
    if q: "is_slab s q" "q \<noteq> p" "y \<in> set (slab_objs q (csize s q))" for q y
  proof (rule same [OF q(1,3)])
    have cq: "slab_class (kpage s q) < NR_CLASSES" using kinvD(2) [OF k q(1)] by (simp add: slab_ok_def)
    show "y \<noteq> x" using slab_page_unique [OF xo c pb _ cq kinvD(3) [OF k q(1)]] q(2,3) by blast
  qed
  have sc2: "slab_class (kpage s' p) = c" using kp c_def by simp
  have fl: "pflags (kpage s' q) = pflags (kpage s q)" "porder (kpage s' q) = porder (kpage s q)" "q \<noteq> p \<Longrightarrow> kpage s' q = kpage s q" for q
    using kp by simp_all
  note u = slab_update [OF k sp c_def sc2 pg(1-3) fl mem sc dist(3,2,1)]
  have lv: "live s' = (live s - set (slab_objs p (class_size c))) \<union> (set (slab_objs p (class_size c)) - set (x # xs))"
    by (rule u(3))
  have ki: "kinv s'" by (rule u(1))
  have inl: "y \<in> live s \<longleftrightarrow> y \<notin> set xs" if "y \<in> set (slab_objs p (class_size c))" for y
    using live_page [OF k sp] that c_def slab_chain_objs [OF xs] by simp
  have s1: "s1 = s'" using res t by simp
  show "live s1 = live s - {x}"
    unfolding s1
  proof (rule set_eqI)
    fix y
    show "y \<in> live s' \<longleftrightarrow> y \<in> live s - {x}"
      using inl [of y] xo unfolding lv by (cases "y \<in> set (slab_objs p (class_size c))") auto
  qed
  show "kinv s1" "kimage_voffset s1 = kimage_voffset s" unfolding s1 using ki by (simp_all add: s'_def)
  show "is_slab s1 p"
    unfolding s1
  proof -
    have "is_slab s' = is_slab s" by (rule u(2))
    then show "is_slab s' p" using sp by simp
  qed
  show "free_objs s1 p = set (slab_objs p (csize s p))" if "slab_inuse (kpage s1 p) = 0"
    using that unfolding s1
  proof -
    assume that: "slab_inuse (kpage s' p) = 0"
    have "card (set (x # xs)) = 4096 div class_size c"
      using sc that sc2 distinct_card [of "x # xs"] by (simp add: slab_chain_def)
    then have "card (set (x # xs)) = card (set (slab_objs p (class_size c)))"
      using distinct_card [OF slab_objs_distinct [OF c pb]] by simp
    moreover have "set (x # xs) \<subseteq> set (slab_objs p (class_size c))" using ch(3) xo by simp
    ultimately have "set (x # xs) = set (slab_objs p (class_size c))" by (intro card_subset_eq) simp_all
    then show "free_objs s' p = set (slab_objs p (csize s p))" using slab_chain_objs [OF sc] c_def by simp
  qed
  show "slab_class (kpage s1 p) = slab_class (kpage s p)" unfolding s1 using sc2 by (simp add: c_def)
  show "p \<in> set (partial s1 (slab_class (kpage s p)))" unfolding s1 c_def [symmetric] using par ch(6) by auto
  show "d \<noteq> cell x \<Longrightarrow> d \<noteq> cell x + 1 \<Longrightarrow> kram s1 d = kram s d" unfolding s1 using kr by simp
qed


subsection \<open>New and released slab pages\<close>

text \<open>The descriptor of a page that is not free may change freely, short of claiming to be free.\<close>

lemma core_busy_upd:
  assumes "core s" "\<And>y. y < NR_ZONES \<Longrightarrow> p \<notin> free_set s y" "\<not> has_flag (pflags g) PG_BUDDY"
    "\<not> is_buddy s p" "t = s\<lparr>mem_map := (mem_map s)(p := g)\<rparr>"
  shows "core t" "free_set t = free_set s" "fblocks t = fblocks s" "pfn_zone t = pfn_zone s" "zones t = zones s"
    "pfn_valid t = pfn_valid s" "good_blk t = good_blk s"
proof -
  show fb: "fblocks t = fblocks s" and pz: "pfn_zone t = pfn_zone s" and pv: "pfn_valid t = pfn_valid s"
    and gb: "good_blk t = good_blk s" and zt: "zones t = zones s"
    by (auto simp: assms(5) fblocks_def pfn_zone_def pfn_valid_def good_blk_def fun_eq_iff)
  show "free_set t = free_set s" by (simp add: free_set_def fb fun_eq_iff)
  have ib: "is_buddy t q = is_buddy s q" for q using assms(3,4) by (auto simp: is_buddy_def assms(5))
  have zb: "zone_bounds t = zone_bounds s" by (simp add: zone_bounds_def assms(5))
  have hd: "heads_ok t"
    using assms(1,4) unfolding heads_ok_def core_def by (auto simp: ib fb pz pv) (auto simp: assms(5) heads_ok_def)
  have bl: "blocks_ok t z" if z: "z < NR_ZONES" for z
  proof -
    have "good_blk s z q k \<and> is_buddy s q \<and> porder (mem_map t q) = k \<and> (\<forall>r \<in> blk q k. clean t r)"
      if q: "(q, k) \<in> fblocks s z" for q k
    proof -
      have np: "r \<noteq> p" if "r \<in> blk q k" for r using fblocks_free_set [OF q] assms(2) [OF z] that by blast
      have "mem_map t r = mem_map s r" if "r \<in> blk q k" for r using np [OF that] by (simp add: assms(5))
      then show ?thesis
        using blocks_okD [OF coreD(2) [OF assms(1) z] q] blk_self [of q k] by (auto simp: clean_def)
    qed
    then show ?thesis unfolding blocks_ok_def fb gb ib by auto
  qed
  have "lists_ok t z \<and> disj_ok t z \<and> maximal t z" if "z < NR_ZONES" for z
    using coreD [OF assms(1) that] by (simp add: lists_ok_def disj_ok_def maximal_def fb zt)
  then show "core t" using assms(1) hd bl zb by (simp add: core_def)
qed

lemma obj_cell_page:
  assumes "y \<in> set (slab_objs q (class_size c))" "c < NR_CLASSES" "q < 2 ^ 26"
  shows "q * 512 \<le> cell y" "cell y + 1 < (q + 1) * 512"
proof -
  obtain i w where "2 \<le> w" "(i + 1) * w \<le> 512" "cell y = q * 512 + i * w" by (rule slab_objE [OF assms])
  then show "q * 512 \<le> cell y" "cell y + 1 < (q + 1) * 512" by simp_all
qed

lemma objs_apart:
  assumes "x \<in> set (slab_objs p (class_size c))" "y \<in> set (slab_objs p (class_size c))" "c < NR_CLASSES" "p < 2 ^ 26" "x \<noteq> y"
  shows "apart x y"
proof -
  obtain w where w: "class_size c = 8 * w" "2 \<le> w" using class_words [OF assms(3)] by blast
  note ca = obj_cells_apart [OF assms(1,3,4,2,3,4) refl assms(5) w(1)]
  from ca [of 0] ca [of 1] w(2) show ?thesis by (auto simp: apart_def)
qed

lemma not_free_any:
  assumes "pg_inv s" "z < NR_ZONES" "pfn_zone s p = z" "p \<notin> free_set s z" "y < NR_ZONES"
  shows "p \<notin> free_set s y"
proof
  assume "p \<in> free_set s y"
  then obtain q k where "(q, k) \<in> fblocks s y" "p \<in> blk q k" by (auto simp: free_set_def)
  moreover have "core s" using assms(1) by (simp add: pg_inv_def)
  ultimately have "pfn_zone s p = y"
    using pfn_zone_blk [OF coreD(5) [OF _ assms(5)] assms(5)] blocks_okD(1) [OF coreD(2) [OF _ assms(5)]] by blast
  then show False using \<open>p \<in> free_set s y\<close> assms(3,4) by simp
qed

lemma pages_apart:
  fixes d :: nat
  assumes "p \<noteq> q" "q * 512 \<le> d" "d < (q + 1) * 512"
  shows "d < p * 512 \<or> (p + 1) * 512 \<le> d"
proof (cases "q < p")
  case True
  then have "(q + 1) * 512 \<le> p * 512" by (intro mult_le_mono1) simp
  then show ?thesis using assms(3) by linarith
next
  case False
  then have "(p + 1) * 512 \<le> q * 512" using assms(1) by (intro mult_le_mono1) simp
  then show ?thesis using assms(2) by linarith
qed

lemma good_page:
  assumes "zone_bounds s" "pfn_valid s p"
  shows "good_blk s (pfn_zone s p) p 0" "pfn_zone s p < NR_ZONES"
proof -
  have p: "p < 2 ^ 52" using assms by (auto simp: pfn_valid_def zone_bounds_def)
  have "start_pfn (zones s (pfn_zone s p)) \<le> p \<and> p < end_pfn (zones s (pfn_zone s p))"
    using assms(1) p by (auto simp: zone_bounds_def pfn_zone_def)
  then show "good_blk s (pfn_zone s p) p 0" using assms(2) by (simp add: good_blk_def pfn_valid_def MAX_ORDER_def)
  show "pfn_zone s p < NR_ZONES" by (simp add: pfn_zone_def NR_ZONES_def)
qed

lemma slab_chain_frame:
  assumes "slab_chain s q ys" "kpage s' q = kpage s q"
    "\<And>y. y \<in> set (slab_objs q (csize s q)) \<Longrightarrow> kram s' (cell y) = kram s (cell y) \<and> kram s' (cell y + 1) = kram s (cell y + 1)"
    "q \<in> set (partial s' (slab_class (kpage s q))) \<longleftrightarrow> q \<in> set (partial s (slab_class (kpage s q)))"
  shows "slab_chain s' q ys"
proof -
  have sub: "set ys \<subseteq> set (slab_objs q (csize s q))" using assms(1) by (simp add: slab_chain_def)
  then have "chain (kram s') h ys = chain (kram s) h ys" for h by (intro chain_frame) (use assms(3) in blast)
  then show ?thesis using assms sub by (auto simp: slab_chain_def)
qed

lemma slabs_busy:
  assumes "kinv s" "is_slab s q" "y < NR_ZONES"
  shows "q \<notin> free_set (pgs s) y"
proof -
  have z: "pfn_zone (pgs s) q < NR_ZONES" by (simp add: pfn_zone_def NR_ZONES_def)
  show ?thesis
    using not_free_any [OF kinvD(1) [OF assms(1)] z refl _ assms(3)] kinvD(2) [OF assms(1,2)] by (simp add: slab_ok_def)
qed

text \<open>
  The set of slab pages may grow or shrink by one page with no object in use: everything about the other
  slab pages carries over when their descriptors and memory are untouched.
\<close>

lemma slab_set_change:
  assumes k: "kinv s" and pg: "pg_inv (pgs s')" "base_pfn (pgs s') = base_pfn (pgs s)" "map_pfns (pgs s') = map_pfns (pgs s)"
    and oth: "\<And>q. q \<noteq> p \<Longrightarrow> is_slab s' q = is_slab s q" "\<And>q. is_slab s q \<Longrightarrow> q \<noteq> p \<Longrightarrow> kpage s' q = kpage s q"
    and nf: "\<And>q y. is_slab s q \<Longrightarrow> q \<noteq> p \<Longrightarrow> y < NR_ZONES \<Longrightarrow> q \<notin> free_set (pgs s') y"
    and mem: "\<And>d. d < p * 512 \<or> (p + 1) * 512 \<le> d \<Longrightarrow> kram s' d = kram s d"
    and par: "\<And>c. c < NR_CLASSES \<Longrightarrow> distinct (partial s' c)" "\<And>c. set (partial s' c) - {p} = set (partial s c) - {p}"
    and new: "is_slab s' p \<Longrightarrow> slab_ok s' p" "\<And>c. c < NR_CLASSES \<Longrightarrow> p \<in> set (partial s' c) \<Longrightarrow> is_slab s' p \<and> slab_class (kpage s' p) = c"
    and cmp: "\<And>z q. z < NR_ZONES \<Longrightarrow> q \<in> free_set (pgs s') z \<Longrightarrow> \<not> page_flag (pgs s') q PG_COMPOUND"
    and none: "is_slab s p \<Longrightarrow> set (slab_objs p (csize s p)) \<subseteq> free_objs s p"
      "is_slab s' p \<Longrightarrow> set (slab_objs p (csize s' p)) \<subseteq> free_objs s' p"
  shows "kinv s' \<and> live s' = live s"
proof -
  have fr: "slab_chain s' q ys" if q: "is_slab s q" "q \<noteq> p" "slab_chain s q ys" for q ys
  proof (rule slab_chain_frame [OF q(3) oth(2) [OF q(1,2)]])
    have cq: "slab_class (kpage s q) < NR_CLASSES" using kinvD(2) [OF k q(1)] by (simp add: slab_ok_def)
    fix y assume y: "y \<in> set (slab_objs q (csize s q))"
    note c = obj_cell_page [OF y cq kinvD(3) [OF k q(1)]]
    have "cell y < p * 512 \<or> (p + 1) * 512 \<le> cell y" "cell y + 1 < p * 512 \<or> (p + 1) * 512 \<le> cell y + 1"
      using c q(2) by (intro pages_apart [of p q]; simp)+
    then show "kram s' (cell y) = kram s (cell y) \<and> kram s' (cell y + 1) = kram s (cell y + 1)"
      using mem by blast
  next
    show "q \<in> set (partial s' (slab_class (kpage s q))) \<longleftrightarrow> q \<in> set (partial s (slab_class (kpage s q)))"
      using par(2) [of "slab_class (kpage s q)"] q(2) by blast
  qed
  have ok: "slab_ok s' q" if q: "is_slab s' q" for q
  proof (cases "q = p")
    case False
    then have sq: "is_slab s q" using oth(1) q by simp
    have flags: "page_flag (pgs s') q m = page_flag (pgs s) q m" for m using oth(2) [OF sq False] by (simp add: page_flag_def)
    have "pfn_zone (pgs s') q < NR_ZONES" by (simp add: pfn_zone_def NR_ZONES_def)
    then show ?thesis
      using kinvD(2) [OF k sq] fr [OF sq False] nf [OF sq False] oth(2) [OF sq False] flags by (auto simp: slab_ok_def)
  qed (use new(1) q in simp)
  have pt: "is_slab s' q \<and> slab_class (kpage s' q) = c" if c: "c < NR_CLASSES" and q: "q \<in> set (partial s' c)" for c q
  proof (cases "q = p")
    case False
    then have "q \<in> set (partial s c)" using q par(2) [of c] by blast
    then have "is_slab s q \<and> slab_class (kpage s q) = c" by (rule kinvD(5) [OF k c])
    then show ?thesis using oth False by simp
  qed (use new(2) c q in blast)
  have ki: "kinv s'" unfolding kinv_def using pg k ok par(1) pt cmp by (simp add: kinv_def)
  have fo: "free_objs s' q = free_objs s q" if q: "is_slab s q" "q \<noteq> p" for q
    using kinvD(2) [OF k q(1)] fr [OF q] slab_chain_objs unfolding slab_ok_def by metis
  have "live s' = live s"
  proof (rule set_eqI)
    fix x
    have "x \<in> live s' \<longleftrightarrow> (\<exists>q. q \<noteq> p \<and> is_slab s' q \<and> x \<in> set (slab_objs q (csize s' q)) - free_objs s' q)"
      unfolding live_def mem_Collect_eq using none(2) by (metis Diff_iff subsetD)
    also have "\<dots> \<longleftrightarrow> (\<exists>q. q \<noteq> p \<and> is_slab s q \<and> x \<in> set (slab_objs q (csize s q)) - free_objs s q)"
      using oth fo by auto
    also have "\<dots> \<longleftrightarrow> x \<in> live s" unfolding live_def mem_Collect_eq using none(1) by (metis Diff_iff subsetD)
    finally show "x \<in> live s' \<longleftrightarrow> x \<in> live s" .
  qed
  then show ?thesis using ki by simp
qed

lemma blk_page: "blk p 0 = {p}"
  by (auto simp: blk_def)

lemma slab_mask: "PG_BUDDY AND PG_SLAB = 0" "PG_BUDDY AND PG_COMPOUND = 0" "PG_BUDDY AND PG_RESERVED = 0"
  by (simp_all add: pg_flag_defs)

lemma unslab: "\<not> has_flag f PG_RESERVED \<Longrightarrow> \<not> has_flag (clear_flag f PG_SLAB) (PG_RESERVED OR PG_SLAB)"
proof -
  have "PG_SLAB AND PG_RESERVED = 0" by (simp add: pg_flag_defs)
  then show "\<not> has_flag f PG_RESERVED \<Longrightarrow> ?thesis" by (simp add: flag_simps)
qed

lemma new_slab_spec:
  assumes k: "kinv s" and c: "c < NR_CLASSES" and e: "partial s c = []"
  obtains (none) "new_slab s c = Inr (None, s)"
    | (some) p s' where "new_slab s c = Inr (Some p, s')" "kinv s'" "p \<in> set (partial s' c)" "live s' = live s"
      "\<not> is_slab s p" "kimage_voffset s' = kimage_voffset s"
      "\<And>d. d < p * 512 \<or> (p + 1) * 512 \<le> d \<Longrightarrow> kram s' d = kram s d"
proof -
  note pi = kinvD(1) [OF k]
  consider "alloc_pages (pgs s) 0 0 = Inr (None, pgs s)" | p t where "alloc_pages (pgs s) 0 0 = Inr (Some p, t)"
    using alloc_pages_total [OF pi] by blast
  then show thesis
  proof cases
    case 1
    then have "new_slab s c = Inr (None, s)" by (simp add: new_slab_def)
    then show thesis by (rule none)
  next
    case (2 p t)
    obtain z where z: "z < NR_ZONES" "pg_inv t" "pending t z p 0" "blk p 0 \<subseteq> free_set (pgs s) z"
      "free_set t = (free_set (pgs s))(z := free_set (pgs s) z - blk p 0)"
      "\<And>q. q \<notin> free_set (pgs s) z \<Longrightarrow> mem_map t q = mem_map (pgs s) q"
      "\<And>q m. PG_BUDDY AND m = 0 \<Longrightarrow> page_flag t q m = page_flag (pgs s) q m"
      "\<And>d. d < p * 512 \<or> (p + 2 ^ 0) * 512 \<le> d \<Longrightarrow> ram t d = ram (pgs s) d"
      "base_pfn t = base_pfn (pgs s)" "map_pfns t = map_pfns (pgs s)"
      by (rule alloc_pages_SomeE [OF pi 2]) blast
    have pv: "pfn_valid t p" using z(3) by (auto simp: pending_def good_blk_def pfn_valid_def)
    then have pb: "p < 2 ^ 26" using k z(9,10) by (auto simp: kinv_def pfn_valid_def)
    have pf: "p \<in> free_set (pgs s) z" using z(4) by (simp add: blk_page)
    have ns: "\<not> is_slab s p" using slabs_busy [OF k _ z(1)] pf by blast
    let ?objs = "slab_objs p (class_size c)"
    obtain h r where cv: "carve (rev ?objs) 0 (ram t) = (h, r)" by fastforce
    have nz: "y \<noteq> 0" if y: "y \<in> set ?objs" for y
    proof -
      obtain i where "y = lin (p * 4096 + i * class_size c)" "p * 4096 + i * class_size c < 2 ^ 38"
        by (rule slab_objE [OF y c pb])
      then show ?thesis using lin_facts(4) by simp
    qed
    have "chain r h (rev (rev ?objs) @ []) \<and> (\<forall>x \<in> set (rev ?objs @ []). r (cell x + 1) = FREE_MAGIC) \<and>
      (\<forall>d. (\<forall>y \<in> set (rev ?objs). d \<noteq> cell y \<and> d \<noteq> cell y + 1) \<longrightarrow> r d = ram t d)"
      by (rule carve_chain [OF _ _ _ _ _ cv]) (use nz slab_objs_distinct [OF c pb] objs_apart [OF _ _ c pb] in auto)
    then have ch: "chain r h ?objs" "\<And>x. x \<in> set ?objs \<Longrightarrow> r (cell x + 1) = FREE_MAGIC"
      "\<And>d. (\<And>y. y \<in> set ?objs \<Longrightarrow> d \<noteq> cell y \<and> d \<noteq> cell y + 1) \<Longrightarrow> r d = ram t d" by auto
    have rm: "r d = ram (pgs s) d" if d: "d < p * 512 \<or> (p + 1) * 512 \<le> d" for d
    proof -
      have "d \<noteq> cell y \<and> d \<noteq> cell y + 1" if "y \<in> set ?objs" for y
        using obj_cell_page [OF that c pb] d by linarith
      then show ?thesis using ch(3) z(8) d by simp
    qed
    define g where "g = (mem_map t p)\<lparr>pflags := set_flag (pflags (mem_map t p)) PG_SLAB, slab_class := c,
      slab_inuse := 0, freelist := h\<rparr>"
    define s' where "s' = s\<lparr>pgs := t\<lparr>ram := r, mem_map := (mem_map t)(p := g)\<rparr>,
      partial := (partial s)(c := p # partial s c), cpages := (cpages s)(c := cpages s c + 1)\<rparr>"
    have ns': "new_slab s c = Inr (Some p, s')"
      by (simp add: new_slab_def 2 cv Let_def s'_def g_def upd_page_def upd_ram_def)
    have ct: "core t" "counted t" using z(2) by (auto simp: pg_inv_def)
    have nb: "\<not> is_buddy t p" by (rule pending_not_buddy [OF ct(1) z(3)])
    have pz: "pfn_zone t p = z" using pfn_zone_blk [OF coreD(5) [OF ct(1) z(1)] z(1), of p 0 p] z(3) by (simp add: pending_def)
    have nf: "p \<notin> free_set t y" if "y < NR_ZONES" for y
      using not_free_any [OF z(2,1) pz _ that] z(3) by (simp add: pending_def blk_page)
    have gb: "\<not> has_flag (pflags g) PG_BUDDY" using nb by (simp add: g_def is_buddy_def flag_simps pg_flag_defs)
    note up = core_busy_upd [OF ct(1) nf gb nb refl]
    have cc: "core (pgs s')" "free_set (pgs s') = free_set t" "pfn_zone (pgs s') = pfn_zone t" "pfn_valid (pgs s') = pfn_valid t"
      using up core_cong [of "pgs s'" "t\<lparr>mem_map := (mem_map t)(p := g)\<rparr>"] by (simp_all add: s'_def)
    have pgi: "pg_inv (pgs s')" using cc(1,2) ct(2) by (simp add: pg_inv_def counted_def) (simp add: s'_def)
    have flg: "page_flag (pgs s') q m = (page_flag (pgs s) q m \<or> q = p \<and> PG_SLAB AND m \<noteq> 0)" if "PG_BUDDY AND m = 0" for q m
      using z(7) [OF that, of q] by (auto simp: s'_def g_def page_flag_def flag_simps)
    have val: "pfn_valid (pgs s') q = pfn_valid (pgs s) q" for q using cc(4) z(9,10) by (simp add: pfn_valid_def)
    have sl: "is_slab s' q \<longleftrightarrow> q = p \<or> is_slab s q" for q
      using flg [OF slab_mask(1), of q] val pv cc(4) by (auto simp: is_slab_def pg_flag_defs)
    have kp: "kpage s' p = g" "slab_class g = c" "freelist g = h" "slab_inuse g = 0" "kram s' = r" by (simp_all add: s'_def g_def)
    have "length ?objs \<noteq> 0" using class_size_le [OF c] by (simp add: div_greater_zero_iff)
    then have "?objs \<noteq> []" by force
    moreover have "p \<in> set (partial s' c)" by (simp add: s'_def)
    ultimately have sc: "slab_chain s' p ?objs"
      using ch(1,2) slab_objs_distinct [OF c pb] unfolding slab_chain_def kp by simp
    have "clean t p" using z(3) by (simp add: pending_def blk_page)
    then have "\<not> page_flag (pgs s) p PG_RESERVED" using z(7) [OF slab_mask(3), of p] by (simp add: clean_def page_flag_def flag_simps)
    moreover have "\<not> page_flag (pgs s) p PG_COMPOUND" by (rule kinvD(6) [OF k z(1) pf])
    ultimately have ok: "slab_ok s' p"
      unfolding slab_ok_def using flg slab_mask sc c nf [of "pfn_zone t p"] cc(2,3) kp pz z(1) by (auto simp: pg_flag_defs)
    have "kinv s' \<and> live s' = live s"
    proof (rule slab_set_change [OF k pgi, where p = p])
      show "base_pfn (pgs s') = base_pfn (pgs s)" "map_pfns (pgs s') = map_pfns (pgs s)" using z(9,10) by (simp_all add: s'_def)
      show "is_slab s' q = is_slab s q" if "q \<noteq> p" for q using sl that by simp
      show "kpage s' q = kpage s q" if "is_slab s q" "q \<noteq> p" for q
        using z(6) slabs_busy [OF k that(1) z(1)] that(2) by (simp add: s'_def)
      show "q \<notin> free_set (pgs s') y" if "is_slab s q" "q \<noteq> p" "y < NR_ZONES" for q y
        using slabs_busy [OF k that(1,3)] cc(2) z(5) by auto
      show "kram s' d = kram s d" if "d < p * 512 \<or> (p + 1) * 512 \<le> d" for d using rm that kp by simp
      show "distinct (partial s' d)" if "d < NR_CLASSES" for d
        using kinvD(4) [OF k that] e by (simp add: s'_def)
      show "set (partial s' d) - {p} = set (partial s d) - {p}" for d by (auto simp: s'_def)
      show "slab_ok s' p" by (rule ok)
      show "is_slab s' p \<and> slab_class (kpage s' p) = d" if "d < NR_CLASSES" "p \<in> set (partial s' d)" for d
        using that sl kp kinvD(5) [OF k that(1), of p] ns by (cases "d = c") (auto simp: s'_def)
      show "\<not> page_flag (pgs s') q PG_COMPOUND" if "y < NR_ZONES" "q \<in> free_set (pgs s') y" for y q
      proof -
        have "q \<in> free_set (pgs s) y" using that(2) cc(2) z(5) by (auto split: if_splits)
        then show ?thesis using kinvD(6) [OF k that(1)] flg [OF slab_mask(2)] by (simp add: pg_flag_defs)
      qed
      show "set (slab_objs p (csize s p)) \<subseteq> free_objs s p" if "is_slab s p" using ns that by blast
      show "set (slab_objs p (csize s' p)) \<subseteq> free_objs s' p" using slab_chain_objs [OF sc] kp by simp
    qed
    then have ki: "kinv s'" "live s' = live s" by blast+
    show thesis using some [OF ns' ki(1) _ ki(2) ns] rm kp by (simp add: s'_def)
  qed
qed

lemma drop_slab_spec:
  assumes k: "kinv s" and sp: "is_slab s p" and all: "free_objs s p = set (slab_objs p (csize s p))"
    and pp: "p \<in> set (partial s (slab_class (kpage s p)))"
  obtains s' where "drop_slab s p = Inr s'" "kinv s'" "live s' = live s" "kram s' = kram s"
    "kimage_voffset s' = kimage_voffset s" "\<not> page_flag (pgs s') p PG_SLAB" "\<not> page_flag (pgs s') p PG_COMPOUND"
proof -
  define c where "c = slab_class (kpage s p)"
  note pi = kinvD(1) [OF k]
  have co: "core (pgs s)" "counted (pgs s)" using pi by (auto simp: pg_inv_def)
  have ok: "slab_ok s p" by (rule kinvD(2) [OF k sp])
  have c: "c < NR_CLASSES" using ok by (simp add: slab_ok_def c_def)
  let ?z = "pfn_zone (pgs s) p"
  have zb: "zone_bounds (pgs s)" using co(1) by (simp add: core_def)
  have gp: "good_blk (pgs s) ?z p 0" "?z < NR_ZONES" using good_page [OF zb] sp by (auto simp: is_slab_def)
  define g where "g = (kpage s p)\<lparr>pflags := clear_flag (pflags (kpage s p)) PG_SLAB\<rparr>"
  define u where "u = (pgs s)\<lparr>mem_map := (mem_map (pgs s))(p := g)\<rparr>"
  have nf: "p \<notin> free_set (pgs s) y" if "y < NR_ZONES" for y by (rule slabs_busy [OF k sp that])
  have nb: "\<not> is_buddy (pgs s) p"
  proof
    assume b: "is_buddy (pgs s) p"
    have "(p, porder (kpage s p)) \<in> fblocks (pgs s) ?z"
      using co(1) sp b by (auto simp: core_def heads_ok_def is_slab_def)
    then show False using fblocks_free_set nf [OF gp(2)] blk_self by blast
  qed
  have gb: "\<not> has_flag (pflags g) PG_BUDDY" using nb by (simp add: g_def is_buddy_def flag_simps pg_flag_defs)
  note up = core_busy_upd [OF co(1) nf gb nb u_def]
  have ui: "pg_inv u" using up co(2) by (simp add: pg_inv_def counted_def)
  have res: "\<not> page_flag (pgs s) p PG_RESERVED" "\<not> page_flag (pgs s) p PG_COMPOUND" using ok by (auto simp: slab_ok_def)
  have "clean u p"
    using res(1) unslab by (simp add: clean_def u_def g_def page_flag_def)
  then have pend: "pending u ?z p 0" using gp up nf [OF gp(2)] by (simp add: pending_def blk_page)
  obtain t where t: "free_pages u (Some p) 0 = Inr t" "pg_inv t" "free_set t = (free_set u)(?z := free_set u ?z \<union> blk p 0)"
    "ram t = ram u" "\<And>q. q \<notin> free_set u ?z \<union> blk p 0 \<Longrightarrow> mem_map t q = mem_map u q"
    "\<And>q m. PG_BUDDY AND m = 0 \<Longrightarrow> page_flag t q m = page_flag u q m"
    "base_pfn t = base_pfn u" "map_pfns t = map_pfns u"
    by (rule free_pages_InrE [OF ui pend]) blast
  define s' where "s' = s\<lparr>pgs := t, partial := (partial s)(c := remove1 p (partial s c)),
    cpages := (cpages s)(c := cpages s c - 1)\<rparr>"
  have ds: "drop_slab s p = Inr s'"
    using t(1) by (simp add: drop_slab_def Let_def c_def [symmetric] upd_page_def s'_def u_def g_def)
  have flg: "page_flag (pgs s') q m = (page_flag (pgs s) q m)" if "PG_BUDDY AND m = 0" "q \<noteq> p \<or> PG_SLAB AND m = 0" for q m
    using t(6) [OF that(1), of q] that(2) by (auto simp: s'_def page_flag_def u_def g_def flag_simps)
  have nslab: "\<not> is_slab s' p"
    using t(6) [OF slab_mask(1), of p] by (simp add: is_slab_def s'_def page_flag_def u_def g_def flag_simps)
  have val: "pfn_valid (pgs s') q = pfn_valid (pgs s) q" for q using t(7,8) by (simp add: pfn_valid_def s'_def u_def)
  have "kinv s' \<and> live s' = live s"
  proof (rule slab_set_change [OF k, where p = p])
    show "pg_inv (pgs s')" using t(2) by (simp add: s'_def)
    show "base_pfn (pgs s') = base_pfn (pgs s)" "map_pfns (pgs s') = map_pfns (pgs s)" using t(7,8) by (simp_all add: s'_def u_def)
    show "is_slab s' q = is_slab s q" if "q \<noteq> p" for q
      using flg [OF slab_mask(1), of q] val that by (simp add: is_slab_def)
    show "kpage s' q = kpage s q" if "is_slab s q" "q \<noteq> p" for q
      using t(5) [of q] slabs_busy [OF k that(1) gp(2)] that(2) up(2) by (simp add: s'_def blk_page u_def)
    show "q \<notin> free_set (pgs s') y" if "is_slab s q" "q \<noteq> p" "y < NR_ZONES" for q y
      using slabs_busy [OF k that(1,3)] t(3) up(2) that(2) by (simp add: s'_def blk_page) (metis fun_upd_apply insertE)
    show "kram s' d = kram s d" for d using t(4) by (simp add: s'_def u_def)
    show "distinct (partial s' d)" if "d < NR_CLASSES" for d using kinvD(4) [OF k that] by (auto simp: s'_def)
    show "set (partial s' d) - {p} = set (partial s d) - {p}" for d
      using kinvD(4) [OF k c] by (auto simp: s'_def)
    show "slab_ok s' p" if "is_slab s' p" using that nslab by blast
    show "is_slab s' p \<and> slab_class (kpage s' p) = d" if "d < NR_CLASSES" "p \<in> set (partial s' d)" for d
      using that kinvD(4) [OF k c] kinvD(5) [OF k that(1), of p] by (cases "d = c") (auto simp: s'_def c_def)
    show "\<not> page_flag (pgs s') q PG_COMPOUND" if "y < NR_ZONES" "q \<in> free_set (pgs s') y" for y q
    proof (cases "q = p")
      case True
      then show ?thesis using flg [OF slab_mask(2), of p] res(2) by (simp add: pg_flag_defs)
    next
      case False
      then have "q \<in> free_set (pgs s) y" using that(2) t(3) up(2) by (auto simp: s'_def blk_page split: if_splits)
      then show ?thesis using kinvD(6) [OF k that(1)] flg [OF slab_mask(2), of q] False by simp
    qed
    show "set (slab_objs p (csize s p)) \<subseteq> free_objs s p" using all by simp
    show "set (slab_objs p (csize s' p)) \<subseteq> free_objs s' p" if "is_slab s' p" using that nslab by blast
  qed
  moreover have "\<not> page_flag (pgs s') p PG_SLAB" "\<not> page_flag (pgs s') p PG_COMPOUND"
    using nslab val [of p] sp flg [OF slab_mask(2), of p] res(2) by (auto simp: is_slab_def pg_flag_defs)
  ultimately show thesis using that [OF ds] t(4) by (simp add: s'_def u_def)
qed


section \<open>Properties of the heap\<close>

lemma size_class_small:
  assumes "0 < unat n" "unat n \<le> 2048"
  obtains c where "size_class n = Some c" "c < NR_CLASSES" "unat n \<le> class_size c"
proof -
  have "unat n \<le> class_size 7" "7 \<in> set [0..<NR_CLASSES]"
    using assms by (simp_all add: class_size_def MIN_SHIFT_def NR_CLASSES_def)
  then have "size_class n \<noteq> None" by (auto simp: size_class_def find_None_iff)
  then obtain c where c: "size_class n = Some c" by blast
  then have "c < NR_CLASSES" "unat n \<le> class_size c"
    by (auto simp: size_class_def find_Some_iff NR_CLASSES_def)
  then show thesis using that c by blast
qed

definition obj_words :: "kmstate \<Rightarrow> u64 \<Rightarrow> nat set" where
  "obj_words s x = {cell x ..< cell x + csize s (virt_to_page (kimage_voffset s) x) div 8}"

lemma obj_page:
  assumes "x \<in> set (slab_objs p (class_size c))" "c < NR_CLASSES" "p < 2 ^ 26"
  shows "virt_to_page voff x = p" "x AND (of_nat (class_size c) - 1) = 0"
proof -
  obtain i where i: "x = lin (p * 4096 + i * class_size c)" "i < 4096 div class_size c" "p * 4096 + i * class_size c < 2 ^ 38"
    by (rule slab_objE [OF assms])
  have lt: "i * class_size c < 4096" using obj_bound(3) [OF i(2) assms(3)] .
  have "(p * 4096 + i * class_size c) div 4096 = p" using lt by simp
  then show "virt_to_page voff x = p" using lin_facts(5) [OF i(3)] i(1) by simp
  define k where "k = c + MIN_SHIFT"
  have k: "class_size c = 2 ^ k" "k \<le> 11" using assms(2) by (simp_all add: class_size_def k_def NR_CLASSES_def MIN_SHIFT_def)
  have "(2 :: nat) ^ k dvd 2 ^ 12" by (rule le_imp_power_dvd) (use k(2) in simp)
  then have d4: "(2 :: nat) ^ k dvd 4096" by simp
  have "unat PAGE_OFFSET = 4096 * 4503599493152768" by (simp add: PAGE_OFFSET_def)
  then have "(2 :: nat) ^ k dvd unat PAGE_OFFSET" using d4 by (simp only: dvd_mult2)
  moreover have "(2 :: nat) ^ k dvd p * 4096 + i * class_size c" using d4 k(1) by simp
  ultimately have "2 ^ k dvd unat x" using lin_facts(3) [OF i(3)] i(1) by simp
  then have "unat (take_bit k x) = 0" unfolding unsigned_take_bit_eq by (simp add: take_bit_eq_mod)
  then have "take_bit k x = 0" by (simp add: unat_eq_zero)
  then show "x AND (of_nat (class_size c) - 1) = 0" using k(1) by (simp add: take_bit_eq_mask mask_eq_exp_minus_1)
qed

lemma liveE:
  assumes "kinv s" "x \<in> live s"
  obtains p where "is_slab s p" "x \<in> set (slab_objs p (csize s p))" "x \<notin> free_objs s p"
    "slab_class (kpage s p) < NR_CLASSES" "p < 2 ^ 26" "\<And>voff. virt_to_page voff x = p"
proof -
  obtain p where p: "is_slab s p" "x \<in> set (slab_objs p (csize s p))" "x \<notin> free_objs s p"
    using assms(2) by (auto simp: live_def)
  have c: "slab_class (kpage s p) < NR_CLASSES" using kinvD(2) [OF assms(1) p(1)] by (simp add: slab_ok_def)
  note pb = kinvD(3) [OF assms(1) p(1)]
  show thesis using that [OF p c pb] obj_page(1) [OF p(2) c pb] by blast
qed

lemma take_obj_frame:
  assumes k: "kinv s" and x: "x \<in> set (slab_objs p (class_size c))" "c < NR_CLASSES" "p < 2 ^ 26" "is_slab s p"
      "slab_class (kpage s p) = c" "x \<notin> live s" and w: "class_size c = 8 * w" and y: "y \<in> live s" "d \<in> obj_words s y"
  shows "d < cell x \<or> cell x + w \<le> d"
proof -
  obtain q where q: "is_slab s q" "y \<in> set (slab_objs q (csize s q))" "slab_class (kpage s q) < NR_CLASSES" "q < 2 ^ 26"
    "virt_to_page (kimage_voffset s) y = q" by (rule liveE [OF k y(1)]) blast
  obtain v where v: "csize s q = 8 * v" using class_words [OF q(3)] by blast
  have "cell x + w \<le> cell y \<or> cell y + v \<le> cell x"
    by (rule obj_cells_disjoint [OF x(1-3) q(2-4) _ _ w v]) (use x y in auto)
  then show ?thesis using y(2) v q(5) by (auto simp: obj_words_def)
qed

lemma kmalloc_small_spec:
  assumes k: "kinv s" and c: "c < NR_CLASSES"
  obtains (none) "kmalloc_small s c g = Inr (None, s)"
    | (some) x s' where "kmalloc_small s c g = Inr (Some x, s')" "kinv s'" "x \<notin> live s" "live s' = insert x (live s)"
      "\<exists>p < 2 ^ 26. x \<in> set (slab_objs p (class_size c))"
      "\<And>y d. y \<in> live s \<Longrightarrow> d \<in> obj_words s y \<Longrightarrow> kram s' d = kram s d"
      "\<And>d. has_flag g GFP_ZERO \<Longrightarrow> d \<in> {cell x ..< cell x + class_size c div 8} \<Longrightarrow> kram s' d = 0"
proof -
  obtain w where w: "class_size c = 8 * w" using class_words [OF c] by blast
  show thesis
  proof (cases "partial s c")
    case (Cons p ps)
    then have p: "p \<in> set (partial s c)" by simp
    obtain x s' where x: "take_obj s c p g = Inr (Some x, s')" "kinv s'" "x \<notin> live s" "live s' = insert x (live s)"
      "x \<in> set (slab_objs p (class_size c))" "p < 2 ^ 26" "\<And>d. d < cell x \<or> cell x + w \<le> d \<Longrightarrow> kram s' d = kram s d"
      "\<And>d. has_flag g GFP_ZERO \<Longrightarrow> cell x \<le> d \<Longrightarrow> d < cell x + w \<Longrightarrow> kram s' d = 0"
      by (rule take_obj_spec [OF k c p w, where g = g]) blast
    have sp: "is_slab s p" "slab_class (kpage s p) = c" using kinvD(5) [OF k c p] by auto
    have fr: "kram s' d = kram s d" if "y \<in> live s" "d \<in> obj_words s y" for y d
      using take_obj_frame [OF k x(5) c x(6) sp x(3) w that] x(7) by blast
    have km: "kmalloc_small s c g = Inr (Some x, s')" using Cons x(1) by (simp add: kmalloc_small_def)
    have zr: "kram s' d = 0" if "has_flag g GFP_ZERO" "d \<in> {cell x ..< cell x + class_size c div 8}" for d
      using x(8) [OF that(1)] that(2) w by simp
    show thesis by (rule some [OF km x(2-4) _ fr zr]) (use x(5,6) in blast)
  next
    case Nil
    show thesis
    proof (rule new_slab_spec [OF k c Nil])
      assume "new_slab s c = Inr (None, s)"
      then show thesis using none Nil by (simp add: kmalloc_small_def)
    next
      fix p t
      assume n: "new_slab s c = Inr (Some p, t)" "kinv t" "p \<in> set (partial t c)" "live t = live s"
        "\<not> is_slab s p" "kimage_voffset t = kimage_voffset s"
        and mem: "\<And>d. d < p * 512 \<or> (p + 1) * 512 \<le> d \<Longrightarrow> kram t d = kram s d"
      obtain x s' where x: "take_obj t c p g = Inr (Some x, s')" "kinv s'" "x \<notin> live t" "live s' = insert x (live t)"
        "x \<in> set (slab_objs p (class_size c))" "p < 2 ^ 26" "\<And>d. d < cell x \<or> cell x + w \<le> d \<Longrightarrow> kram s' d = kram t d"
        "\<And>d. has_flag g GFP_ZERO \<Longrightarrow> cell x \<le> d \<Longrightarrow> d < cell x + w \<Longrightarrow> kram s' d = 0"
        by (rule take_obj_spec [OF n(2) c n(3) w, where g = g]) blast
      have fr: "kram s' d = kram s d" if y: "y \<in> live s" "d \<in> obj_words s y" for y d
      proof -
        obtain q where q: "is_slab s q" "y \<in> set (slab_objs q (csize s q))" "slab_class (kpage s q) < NR_CLASSES" "q < 2 ^ 26"
          "virt_to_page (kimage_voffset s) y = q" by (rule liveE [OF k y(1)]) blast
        obtain i v where v: "csize s q = 8 * v" "(i + 1) * v \<le> 512" "cell y = q * 512 + i * v" by (rule slab_objE [OF q(2-4)])
        have d: "q * 512 \<le> d" "d < (q + 1) * 512" using y(2) v q(5) by (auto simp: obj_words_def)
        have out: "d < p * 512 \<or> (p + 1) * 512 \<le> d"
        proof (rule pages_apart [OF _ d])
          show "p \<noteq> q" using n(5) q(1) by blast
        qed
        have "p * 512 \<le> cell x" "cell x + w \<le> (p + 1) * 512"
        proof -
          obtain j u where "class_size c = 8 * u" "(j + 1) * u \<le> 512" "cell x = p * 512 + j * u" by (rule slab_objE [OF x(5) c x(6)])
          then show "p * 512 \<le> cell x" "cell x + w \<le> (p + 1) * 512" using w by simp_all
        qed
        then have "d < cell x \<or> cell x + w \<le> d" using out by (elim disjE) simp_all
        then show ?thesis using x(7) mem out by simp
      qed
      have km: "kmalloc_small s c g = Inr (Some x, s')" using Nil x(1) n(1) by (simp add: kmalloc_small_def)
      have zr: "kram s' d = 0" if "has_flag g GFP_ZERO" "d \<in> {cell x ..< cell x + class_size c div 8}" for d
        using x(8) [OF that(1)] that(2) w by simp
      show thesis by (rule some [OF km x(2,3,4) [unfolded n(4)] _ fr zr]) (use x(5,6) in blast)
    qed
  qed
qed

text \<open>
  C7: a request of 1 to 2048 bytes always returns and never panics under the heap invariant.  It either
  finds no memory and changes nothing, or returns an object not in use before, of a size class that holds
  the request; then exactly this object is in use in addition, the contents of all objects in use are
  untouched, GFP\_ZERO memory is zero, and the invariant holds again.
\<close>

theorem kmalloc_slab_sound:
  assumes "kinv s" "0 < unat n" "unat n \<le> 2048"
  shows "kmalloc s n g = Some (Inr (None, s)) \<or>
    (\<exists>x s' c. kmalloc s n g = Some (Inr (Some x, s')) \<and> kinv s' \<and> x \<notin> live s \<and> live s' = insert x (live s) \<and>
       unat n \<le> class_size c \<and> (\<exists>p < 2 ^ 26. x \<in> set (slab_objs p (class_size c))) \<and>
       (\<forall>y \<in> live s. \<forall>d \<in> obj_words s y. kram s' d = kram s d) \<and>
       (has_flag g GFP_ZERO \<longrightarrow> (\<forall>d \<in> {cell x ..< cell x + class_size c div 8}. kram s' d = 0)))"
proof -
  obtain c where c: "size_class n = Some c" "c < NR_CLASSES" "unat n \<le> class_size c"
    using assms(2,3) by (rule size_class_small)
  have "n \<noteq> 0" using assms(2) by auto
  then have km: "kmalloc s n g = Some (kmalloc_small s c g)" using c(1) by (simp add: kmalloc_def)
  show ?thesis
  proof (rule kmalloc_small_spec [OF assms(1) c(2), of g])
    assume "kmalloc_small s c g = Inr (None, s)"
    then show ?thesis using km by simp
  next
    fix x s'
    assume h: "kmalloc_small s c g = Inr (Some x, s')" "kinv s'" "x \<notin> live s" "live s' = insert x (live s)"
      "\<exists>p < 2 ^ 26. x \<in> set (slab_objs p (class_size c))"
      "\<And>y d. y \<in> live s \<Longrightarrow> d \<in> obj_words s y \<Longrightarrow> kram s' d = kram s d"
      "\<And>d. has_flag g GFP_ZERO \<Longrightarrow> d \<in> {cell x ..< cell x + class_size c div 8} \<Longrightarrow> kram s' d = 0"
    have "kmalloc s n g = Some (Inr (Some x, s')) \<and> kinv s' \<and> x \<notin> live s \<and> live s' = insert x (live s) \<and>
       unat n \<le> class_size c \<and> (\<exists>p < 2 ^ 26. x \<in> set (slab_objs p (class_size c))) \<and>
       (\<forall>y \<in> live s. \<forall>d \<in> obj_words s y. kram s' d = kram s d) \<and>
       (has_flag g GFP_ZERO \<longrightarrow> (\<forall>d \<in> {cell x ..< cell x + class_size c div 8}. kram s' d = 0))"
      using h km c(3) by simp
    then show ?thesis by blast
  qed
qed

lemma freelist_bound:
  assumes "kinv s" "is_slab s p"
  obtains xs where "chain (kram s) (freelist (kpage s p)) xs" "free_objs s p = set xs" "length xs \<le> 256"
    "\<And>x. x \<in> set xs \<Longrightarrow> kram s (cell x + 1) = FREE_MAGIC" "set xs \<subseteq> set (slab_objs p (csize s p))"
proof -
  have ok: "slab_ok s p" by (rule kinvD(2) [OF assms])
  then obtain xs where xs: "slab_chain s p xs" by (auto simp: slab_ok_def)
  have c: "slab_class (kpage s p) < NR_CLASSES" using ok by (simp add: slab_ok_def)
  have "length xs \<le> 4096 div csize s p" using xs by (simp add: slab_chain_def)
  also have "\<dots> \<le> 4096 div 16" using class_size_le [OF c] by (intro div_le_mono2) simp_all
  finally have "length xs \<le> 256" by simp
  then show thesis using that xs slab_chain_objs [OF xs] by (auto simp: slab_chain_def)
qed

lemma put_obj_spec:
  assumes "kinv s" "is_slab s p" "x \<in> live s" "x \<in> set (slab_objs p (csize s p))"
  obtains s' where "put_obj s p x = Inr s'" "kinv s'" "live s' = live s - {x}" "kimage_voffset s' = kimage_voffset s"
    "(is_slab s' p \<and> x \<in> free_objs s' p \<and> slab_class (kpage s' p) = slab_class (kpage s p)) \<or>
     (\<not> page_flag (pgs s') p PG_SLAB \<and> \<not> page_flag (pgs s') p PG_COMPOUND)"
proof -
  define t where "t = push_obj s p x"
  note t = t_def [symmetric] push_obj_spec [OF assms t_def [symmetric]]
  have xf: "x \<in> free_objs t p" using live_page [OF t(2,4), of x] assms(4) t(3,7) by simp
  show thesis
  proof (cases "slab_inuse (kpage t p) = 0 \<and> 1 < cpages t (slab_class (kpage s p))")
    case False
    then have po: "put_obj s p x = Inr t" unfolding put_obj_def Let_def t(1) by (simp only: if_False)
    show thesis by (rule that [OF po t(2,3,6)]) (use t(4,7) xf in simp)
  next
    case True
    have f: "free_objs t p = set (slab_objs p (csize t p))" using t(5,7) True by simp
    have pp: "p \<in> set (partial t (slab_class (kpage t p)))" using t(7,8) by simp
    obtain s' where s': "drop_slab t p = Inr s'" "kinv s'" "live s' = live t" "kram s' = kram t" "kimage_voffset s' = kimage_voffset t"
      "\<not> page_flag (pgs s') p PG_SLAB" "\<not> page_flag (pgs s') p PG_COMPOUND"
      by (rule drop_slab_spec [OF t(2,4) f pp])
    have po: "put_obj s p x = Inr s'" using True s'(1) unfolding put_obj_def Let_def t(1) by simp
    show thesis by (rule that [OF po s'(2)]) (use s' t(3,6) in simp_all)
  qed
qed

lemma kfree_slab_unfold:
  assumes "kinv s" "is_slab s p" "x \<in> set (slab_objs p (csize s p))" "256 < fuel"
  shows "kfree fuel s (Some x) = Some (if x \<in> free_objs s p then Inl ''kfree: double free'' else put_obj s p x)"
proof -
  have ok: "slab_ok s p" by (rule kinvD(2) [OF assms(1,2)])
  have c: "slab_class (kpage s p) < NR_CLASSES" using ok by (simp add: slab_ok_def)
  note pb = kinvD(3) [OF assms(1,2)]
  note pg = obj_page [OF assms(3) c pb]
  obtain xs where xs: "chain (kram s) (freelist (kpage s p)) xs" "free_objs s p = set xs" "length xs \<le> 256"
    "\<And>y. y \<in> set xs \<Longrightarrow> kram s (cell y + 1) = FREE_MAGIC"
    by (rule freelist_bound [OF assms(1,2)]) blast
  have sc: "on_freelist fuel (kram s) (freelist (kpage s p)) x = Some (x \<in> free_objs s p)"
    using on_freelist_chain [OF xs(1)] xs(2,3) assms(4) by simp
  have fl: "\<not> has_flag (pflags (kpage s p)) PG_COMPOUND" "has_flag (pflags (kpage s p)) PG_SLAB"
    using ok assms(2) by (auto simp: slab_ok_def is_slab_def page_flag_def)
  have "16 \<le> csize s p" using class_size_le [OF c] by simp
  then show ?thesis
    using xs(2,4) sc fl pg by (auto simp: kfree_def Let_def)
qed

text \<open>
  C8: freeing an object that is in use returns normally (the scan of the free list ends), keeps the
  heap invariant and takes exactly this object out of use; freeing it again immediately panics.
\<close>

theorem kfree_live:
  assumes "kinv s" "x \<in> live s" "256 < fuel"
  shows "\<exists>s'. kfree fuel s (Some x) = Some (Inr s') \<and> kinv s' \<and> live s' = live s - {x} \<and>
    (\<exists>msg. kfree fuel s' (Some x) = Some (Inl msg))"
proof -
  obtain p where p: "is_slab s p" "x \<in> set (slab_objs p (csize s p))" "x \<notin> free_objs s p"
    "\<And>voff. virt_to_page voff x = p" by (rule liveE [OF assms(1,2)]) blast
  obtain s' where s': "put_obj s p x = Inr s'" "kinv s'" "live s' = live s - {x}"
    "(is_slab s' p \<and> x \<in> free_objs s' p \<and> slab_class (kpage s' p) = slab_class (kpage s p)) \<or>
     (\<not> page_flag (pgs s') p PG_SLAB \<and> \<not> page_flag (pgs s') p PG_COMPOUND)"
    by (rule put_obj_spec [OF assms(1) p(1) assms(2) p(2)]) blast
  have "kfree fuel s (Some x) = Some (Inr s')" using kfree_slab_unfold [OF assms(1) p(1,2) assms(3)] p(3) s'(1) by simp
  moreover have "\<exists>msg. kfree fuel s' (Some x) = Some (Inl msg)"
    using s'(4)
  proof
    assume "is_slab s' p \<and> x \<in> free_objs s' p \<and> slab_class (kpage s' p) = slab_class (kpage s p)"
    then have h: "is_slab s' p" "x \<in> free_objs s' p" "x \<in> set (slab_objs p (csize s' p))" using p(2) by auto
    show ?thesis using kfree_slab_unfold [OF s'(2) h(1,3) assms(3)] h(2) by simp
  next
    assume "\<not> page_flag (pgs s') p PG_SLAB \<and> \<not> page_flag (pgs s') p PG_COMPOUND"
    then show ?thesis by (simp add: kfree_def Let_def p(4) page_flag_def)
  qed
  ultimately show ?thesis using s'(2,3) by blast
qed

text \<open>
  \<^verbatim>\<open>kfree\<close> of any object that lies on a free list panics, whatever data the object's words hold that
  are not on a list: the magic word alone never decides.
\<close>

lemma kfree_double_free:
  assumes "kinv s" "is_slab s p" "x \<in> set (slab_objs p (csize s p))" "256 < fuel"
  shows "kfree fuel s (Some x) = Some (Inl ''kfree: double free'') \<longleftrightarrow> x \<notin> live s"
proof -
  have "put_obj s p x \<noteq> Inl ''kfree: double free''" if "x \<in> live s"
    by (rule put_obj_spec [OF assms(1,2) that assms(3)]) simp
  then show ?thesis
    using kfree_slab_unfold [OF assms] live_page [OF assms(1-3)] by auto
qed


lemma order_loop_find: "order_loop f n k = find (\<lambda>i. n \<le> push_bit i PAGE_SIZE) [k..<k + f]"
proof (induction f arbitrary: k)
  case (Suc f)
  have e: "[k..<k + Suc f] = k # [Suc k..<Suc k + f]" by (simp add: upt_conv_Cons)
  show ?case unfolding e find.simps order_loop.simps not_less [symmetric] Suc.IH by (simp del: upt_Suc)
qed simp

lemma push_page: "unat (push_bit i PAGE_SIZE) = (if i < 52 then 2 ^ (12 + i) else 0)"
proof -
  have e: "push_bit i PAGE_SIZE = 2 ^ (12 + i)" by (simp add: PAGE_SIZE_def push_bit_eq_mult power_add)
  show ?thesis
  proof (cases "i < 52")
    case True
    then show ?thesis unfolding e by (subst u64_pow2) simp_all
  next
    case False
    then have z: "(2 :: u64) ^ (12 + i) = 0" by simp
    show ?thesis unfolding e z using False by simp
  qed
qed

text \<open>
  C9: the order loop of a large request finds the smallest order whose block holds the request when the
  request is at most \<open>2 ^ 63\<close> bytes; above that the shifted page size wraps to zero and the loop has no
  defined end.
\<close>

theorem order_loop_spec:
  "order_loop 64 n 0 = (if unat n \<le> 2 ^ 63 then Some (LEAST k. unat n \<le> 4096 * 2 ^ k) else None)"
proof (cases "unat n \<le> 2 ^ 63")
  case False
  have "\<not> n \<le> push_bit i PAGE_SIZE" for i
  proof -
    have "unat (push_bit i PAGE_SIZE) \<le> 2 ^ 63"
    proof (cases "i < 52")
      case True
      then have "(2 :: nat) ^ (12 + i) \<le> 2 ^ 63" by (intro power_increasing) simp_all
      then show ?thesis unfolding push_page using True by (simp only: if_True)
    next
      case False
      then show ?thesis unfolding push_page by (simp only: if_False zero_le)
    qed
    then show ?thesis using False unfolding word_le_nat_alt by linarith
  qed
  then show ?thesis using False by (simp add: order_loop_find find_None_iff)
next
  case True
  define k where "k = (LEAST k. unat n \<le> 4096 * 2 ^ k)"
  have ex: "unat n \<le> 4096 * 2 ^ 51" using True by simp
  then have k: "unat n \<le> 4096 * 2 ^ k" "k \<le> 51" unfolding k_def by (rule LeastI, intro Least_le)
  have below: "\<not> unat n \<le> 4096 * 2 ^ j" if "j < k" for j using not_less_Least that unfolding k_def by blast
  have cond: "n \<le> push_bit i PAGE_SIZE \<longleftrightarrow> unat n \<le> 4096 * 2 ^ i" if "i \<le> 51" for i
    using that unfolding word_le_nat_alt push_page power_add by simp
  have "find (\<lambda>i. n \<le> push_bit i PAGE_SIZE) [0..<64] = Some k"
    unfolding find_Some_iff using k below cond by (intro exI [of _ k]) simp
  then show ?thesis using True by (simp add: order_loop_find k_def)
qed

section \<open>Instances\<close>

text \<open>A heap over the two free pages of \<open>pair_free\<close>.\<close>

definition small_heap :: kmstate where
  "small_heap = kmalloc_init pair_free 0"

lemma pair_free_flags: "pflags (mem_map pair_free q) = (if q = 1048576 then PG_BUDDY else 0)"
  "base_pfn pair_free = 1048576" "map_pfns pair_free = 8"
  by (simp_all add: pair_free_def free_block_def buddy_merge.simps all_busy_def zone_table_def pfn_zone_def
      add_free_cnt_def add_free_def del_free_def pfn_valid_def MAX_ORDER_def has_flag_def set_flag_def
      clear_flag_def pg_flag_defs boot_page_def Let_def unset_pow2)

lemma small_heap_inv: "kinv small_heap" "live small_heap = {}"
proof -
  have ns: "\<not> is_slab small_heap p" for p
    by (simp add: is_slab_def small_heap_def kmalloc_init_def page_flag_def pair_free_flags has_flag_def pg_flag_defs)
  have nc: "\<not> page_flag (pgs small_heap) p PG_COMPOUND" for p
    by (simp add: small_heap_def kmalloc_init_def page_flag_def pair_free_flags has_flag_def pg_flag_defs)
  show "kinv small_heap"
    unfolding kinv_def using ns nc pair_free_inv(1) by (simp add: small_heap_def kmalloc_init_def pair_free_flags)
  show "live small_heap = {}" using ns by (simp add: live_def)
qed

text \<open>The heap after a 40-byte request.\<close>

lemma small_heap_alloc: "\<exists>x s. kmalloc small_heap 40 GFP_ZERO = Some (Inr (Some x, s)) \<and> kinv s \<and> live s = {x}"
proof -
  have sc: "size_class 40 = Some 2"
    by (simp add: size_class_def NR_CLASSES_def class_size_def MIN_SHIFT_def upt_rec)
  have c: "2 < NR_CLASSES" by (simp add: NR_CLASSES_def)
  have e: "partial small_heap 2 = []" by (simp add: small_heap_def kmalloc_init_def)
  have km: "kmalloc small_heap 40 GFP_ZERO = Some (kmalloc_small small_heap 2 GFP_ZERO)"
    by (simp add: kmalloc_def sc)
  obtain p t where "alloc_pages (pgs small_heap) 0 0 = Inr (Some p, t)"
    using pair_free_inv(1)
  proof (cases rule: alloc_pages_cases [where g = 0 and n = 0])
    case none
    have "zone_list 0 = [2, 1, 0]" by (simp add: zone_list_def)
    then show thesis using none(2) pair_free_block by (auto simp: MAX_ORDER_def)
  next
    case (some z p t)
    then show thesis using that by (simp add: small_heap_def kmalloc_init_def)
  qed
  then have nn: "new_slab small_heap 2 \<noteq> Inr (None, small_heap)"
    by (simp add: new_slab_def Let_def case_prod_beta)
  have "kmalloc_small small_heap 2 GFP_ZERO \<noteq> Inr (None, small_heap)"
  proof (rule new_slab_spec [OF small_heap_inv(1) c e])
    fix p s'
    assume n: "new_slab small_heap 2 = Inr (Some p, s')" "kinv s'" "p \<in> set (partial s' 2)"
    obtain w where w: "class_size 2 = 8 * w" using class_words [OF c] by blast
    show ?thesis
      by (rule take_obj_spec [OF n(2) c n(3) w, where g = GFP_ZERO]) (simp add: kmalloc_small_def e n(1))
  qed (use nn in simp)
  then show ?thesis
    using kmalloc_small_spec [OF small_heap_inv(1) c, of GFP_ZERO] km small_heap_inv(2) by (metis (no_types, lifting))
qed

theorem kmalloc_slab_sound_witness:
  "\<exists>x s. kmalloc small_heap 40 GFP_ZERO = Some (Inr (Some x, s)) \<and> kinv s \<and> live s = {x} \<and> kram s (cell x) = 0"
proof -
  obtain x s where x: "kmalloc small_heap 40 GFP_ZERO = Some (Inr (Some x, s))" "kinv s" "live s = {x}"
    using small_heap_alloc by blast
  have z: "has_flag GFP_ZERO GFP_ZERO" by (simp add: has_flag_def GFP_ZERO_def)
  obtain c where c: "unat (40 :: u64) \<le> class_size c" "\<forall>d \<in> {cell x ..< cell x + class_size c div 8}. kram s d = 0"
    using kmalloc_slab_sound [OF small_heap_inv(1), of 40 GFP_ZERO] x(1) z by auto
  have "0 < class_size c div 8" using c(1) by (simp add: div_greater_zero_iff)
  then show ?thesis using x c(2) by auto
qed

theorem kfree_live_witness:
  "\<exists>x s s'. kmalloc small_heap 40 GFP_ZERO = Some (Inr (Some x, s)) \<and> kfree 257 s (Some x) = Some (Inr s') \<and>
     live s' = {} \<and> (\<exists>msg. kfree 257 s' (Some x) = Some (Inl msg))"
proof -
  obtain x s where x: "kmalloc small_heap 40 GFP_ZERO = Some (Inr (Some x, s))" "kinv s" "live s = {x}"
    using small_heap_alloc by blast
  then show ?thesis using kfree_live [OF x(2), of x 257] by auto
qed

end
