(* ===== verification/Olux_String.thy ===== *)
theory Olux_String
  imports Olux_Prelude
begin

text \<open>
  The string library (lib/string.c, include/olux/string.h).  The memory routines work on a byte
  memory \<open>nat \<Rightarrow> u8\<close> with word accesses in little-endian order.  The string routines only read their
  arguments up to the terminating zero, so a pointer into a C string is the list of the bytes from
  there to the terminator, which is not in the list: reading \<open>*s\<close> of the empty list gives zero, and a
  returned pointer is a suffix.  Buffers that are written are lists of bytes.
\<close>

type_synonym mem = "nat \<Rightarrow> u8"
type_synonym cstr = "u8 list"


section \<open>Memory routines\<close>

definition ld64 :: "mem \<Rightarrow> nat \<Rightarrow> u64" where
  "ld64 m a = ucast (m a) OR push_bit 8 (ucast (m (a + 1))) OR push_bit 16 (ucast (m (a + 2)))
     OR push_bit 24 (ucast (m (a + 3))) OR push_bit 32 (ucast (m (a + 4))) OR push_bit 40 (ucast (m (a + 5)))
     OR push_bit 48 (ucast (m (a + 6))) OR push_bit 56 (ucast (m (a + 7)))"

definition st64 :: "mem \<Rightarrow> nat \<Rightarrow> u64 \<Rightarrow> mem" where
  "st64 m a v = (\<lambda>x. if a \<le> x \<and> x < a + 8 then ucast (drop_bit (8 * (x - a)) v) else m x)"

text \<open>The three loops of \<^verbatim>\<open>memcpy\<close>: blocks of four words, single words, bytes.\<close>

definition copy32 :: "mem \<Rightarrow> nat \<Rightarrow> nat \<Rightarrow> mem" where
  "copy32 m d s =
     (let a = ld64 m s; b = ld64 m (s + 8); c = ld64 m (s + 16); e = ld64 m (s + 24)
      in st64 (st64 (st64 (st64 m d a) (d + 8) b) (d + 16) c) (d + 24) e)"

function memcpy_blocks :: "mem \<Rightarrow> nat \<Rightarrow> nat \<Rightarrow> nat \<Rightarrow> mem \<times> nat \<times> nat \<times> nat" where
  "memcpy_blocks m d s n =
     (if 32 \<le> n then memcpy_blocks (copy32 m d s) (d + 32) (s + 32) (n - 32) else (m, d, s, n))"
  by pat_completeness auto
termination
  by (relation "measure (\<lambda>(m, d, s, n). n)") auto

function memcpy_words :: "mem \<Rightarrow> nat \<Rightarrow> nat \<Rightarrow> nat \<Rightarrow> mem \<times> nat \<times> nat \<times> nat" where
  "memcpy_words m d s n =
     (if 8 \<le> n then memcpy_words (st64 m d (ld64 m s)) (d + 8) (s + 8) (n - 8) else (m, d, s, n))"
  by pat_completeness auto
termination
  by (relation "measure (\<lambda>(m, d, s, n). n)") auto

declare memcpy_blocks.simps [simp del] memcpy_words.simps [simp del]

fun memcpy_bytes :: "mem \<Rightarrow> nat \<Rightarrow> nat \<Rightarrow> nat \<Rightarrow> mem" where
  "memcpy_bytes m d s 0 = m"
| "memcpy_bytes m d s (Suc n) = memcpy_bytes (m(d := m s)) (d + 1) (s + 1) n"

definition memcpy :: "mem \<Rightarrow> nat \<Rightarrow> nat \<Rightarrow> nat \<Rightarrow> mem" where
  "memcpy m d s n =
     (if (d OR s) AND 7 = 0
      then case memcpy_blocks m d s n of (m1, d1, s1, n1) \<Rightarrow>
           case memcpy_words m1 d1 s1 n1 of (m2, d2, s2, n2) \<Rightarrow> memcpy_bytes m2 d2 s2 n2
      else memcpy_bytes m d s n)"

fun memmove_back :: "mem \<Rightarrow> nat \<Rightarrow> nat \<Rightarrow> nat \<Rightarrow> mem" where
  "memmove_back m d s 0 = m"
| "memmove_back m d s (Suc n) = memmove_back (m(d + n := m (s + n))) d s n"

definition memmove :: "mem \<Rightarrow> nat \<Rightarrow> nat \<Rightarrow> nat \<Rightarrow> mem" where
  "memmove m d s n =
     (if d = s \<or> n = 0 then m
      else if d < s \<or> s + n \<le> d then memcpy m d s n
      else memmove_back m d s n)"

definition splat :: "u8 \<Rightarrow> u64" where
  "splat c =
     (let v = ucast c; v1 = v OR push_bit 8 v; v2 = v1 OR push_bit 16 v1 in v2 OR push_bit 32 v2)"

function memset_words :: "mem \<Rightarrow> nat \<Rightarrow> u64 \<Rightarrow> nat \<Rightarrow> mem \<times> nat \<times> nat" where
  "memset_words m d v n = (if 8 \<le> n then memset_words (st64 m d v) (d + 8) v (n - 8) else (m, d, n))"
  by pat_completeness auto
termination
  by (relation "measure (\<lambda>(m, d, v, n). n)") auto

declare memset_words.simps [simp del]

fun memset_bytes :: "mem \<Rightarrow> nat \<Rightarrow> u8 \<Rightarrow> nat \<Rightarrow> mem" where
  "memset_bytes m d c 0 = m"
| "memset_bytes m d c (Suc n) = memset_bytes (m(d := c)) (d + 1) c n"

text \<open>The \<^verbatim>\<open>int\<close> argument of \<^verbatim>\<open>memset\<close> is used as its low byte.\<close>

definition memset :: "mem \<Rightarrow> nat \<Rightarrow> 32 word \<Rightarrow> nat \<Rightarrow> mem" where
  "memset m d c n =
     (if d AND 7 = 0 \<and> 8 \<le> n
      then case memset_words m d (splat (ucast c)) n of (m1, d1, n1) \<Rightarrow> memset_bytes m1 d1 (ucast c) n1
      else memset_bytes m d (ucast c) n)"

fun memcmp :: "mem \<Rightarrow> nat \<Rightarrow> nat \<Rightarrow> nat \<Rightarrow> int" where
  "memcmp m x y 0 = 0"
| "memcmp m x y (Suc n) = (if m x \<noteq> m y then uint (m x) - uint (m y) else memcmp m (x + 1) (y + 1) n)"

fun memchr :: "mem \<Rightarrow> nat \<Rightarrow> u8 \<Rightarrow> nat \<Rightarrow> nat option" where
  "memchr m p c 0 = None"
| "memchr m p c (Suc n) = (if m p = c then Some p else memchr m (p + 1) c n)"


section \<open>String routines\<close>

definition chr0 :: "cstr \<Rightarrow> u8" where
  "chr0 s = (case s of [] \<Rightarrow> 0 | c # _ \<Rightarrow> c)"

fun strlen :: "cstr \<Rightarrow> nat" where
  "strlen [] = 0"
| "strlen (c # s) = strlen s + 1"

fun strnlen :: "cstr \<Rightarrow> nat \<Rightarrow> nat" where
  "strnlen s 0 = 0"
| "strnlen [] (Suc n) = 0"
| "strnlen (c # s) (Suc n) = strnlen s n + 1"

fun strcmp :: "cstr \<Rightarrow> cstr \<Rightarrow> int" where
  "strcmp (x # a) (y # b) = (if x = y then strcmp a b else uint x - uint y)"
| "strcmp a b = uint (chr0 a) - uint (chr0 b)"

fun strncmp :: "cstr \<Rightarrow> cstr \<Rightarrow> nat \<Rightarrow> int" where
  "strncmp a b 0 = 0"
| "strncmp (x # a) (y # b) (Suc n) = (if x \<noteq> y then uint x - uint y else strncmp a b n)"
| "strncmp a b (Suc n) = uint (chr0 a) - uint (chr0 b)"

text \<open>A search for the terminator itself returns the end of the string, the empty suffix.\<close>

fun strchr :: "cstr \<Rightarrow> u8 \<Rightarrow> cstr option" where
  "strchr [] c = (if c = 0 then Some [] else None)"
| "strchr (x # s) c = (if x = c then Some (x # s) else strchr s c)"

fun strrchr_from :: "cstr \<Rightarrow> u8 \<Rightarrow> cstr option \<Rightarrow> cstr option" where
  "strrchr_from [] c r = (if c = 0 then Some [] else r)"
| "strrchr_from (x # s) c r = strrchr_from s c (if x = c then Some (x # s) else r)"

definition strrchr :: "cstr \<Rightarrow> u8 \<Rightarrow> cstr option" where
  "strrchr s c = strrchr_from s c None"

text \<open>\<open>dst\<close> is the whole destination array.  The result is the return value and the array afterwards.\<close>

definition strlcpy :: "u8 list \<Rightarrow> cstr \<Rightarrow> nat \<Rightarrow> nat \<times> u8 list" where
  "strlcpy dst src sz =
     (let len = strlen src in
      (len, if sz \<noteq> 0
            then let n = (if sz \<le> len then sz - 1 else len) in (take n src @ drop n dst)[n := 0]
            else dst))"

definition bufstr :: "u8 list \<Rightarrow> cstr" where
  "bufstr buf = takeWhile (\<lambda>c. c \<noteq> 0) buf"

definition strlcat :: "u8 list \<Rightarrow> cstr \<Rightarrow> nat \<Rightarrow> nat \<times> u8 list" where
  "strlcat dst src sz =
     (let dl = strnlen (bufstr dst) sz in
      if dl = sz then (sz + strlen src, dst)
      else case strlcpy (drop dl dst) src (sz - dl) of (r, rest) \<Rightarrow> (dl + r, take dl dst @ rest))"

text \<open>\<^verbatim>\<open>strsep\<close> cuts a token off; the result is the token and what \<^verbatim>\<open>*s\<close> points to afterwards.\<close>

fun strsep_scan :: "cstr \<Rightarrow> cstr \<Rightarrow> cstr \<times> cstr option" where
  "strsep_scan [] delim = ([], None)"
| "strsep_scan (c # p) delim =
     (if strchr delim c \<noteq> None then ([], Some p)
      else case strsep_scan p delim of (tok, rest) \<Rightarrow> (c # tok, rest))"

definition strsep :: "cstr option \<Rightarrow> cstr \<Rightarrow> cstr option \<times> cstr option" where
  "strsep s delim =
     (case s of None \<Rightarrow> (None, None)
      | Some start \<Rightarrow> (case strsep_scan start delim of (tok, rest) \<Rightarrow> (Some tok, rest)))"

fun strstr_scan :: "cstr \<Rightarrow> cstr \<Rightarrow> cstr option" where
  "strstr_scan [] n = None"
| "strstr_scan (c # h) n =
     (if c = chr0 n \<and> strncmp (c # h) n (strlen n) = 0 then Some (c # h) else strstr_scan h n)"

definition strstr :: "cstr \<Rightarrow> cstr \<Rightarrow> cstr option" where
  "strstr h n = (if strlen n = 0 then Some h else strstr_scan h n)"

definition isdigit :: "u8 \<Rightarrow> bool" where
  "isdigit c \<longleftrightarrow> 48 \<le> c \<and> c \<le> 57"

definition isspace :: "u8 \<Rightarrow> bool" where
  "isspace c \<longleftrightarrow> c = 32 \<or> (9 \<le> c \<and> c \<le> 13)"

definition isprint :: "u8 \<Rightarrow> bool" where
  "isprint c \<longleftrightarrow> 0x20 \<le> c \<and> c < 0x7f"

definition isxdigit :: "u8 \<Rightarrow> bool" where
  "isxdigit c \<longleftrightarrow> isdigit c \<or> (97 \<le> c \<and> c \<le> 102) \<or> (65 \<le> c \<and> c \<le> 70)"

definition tolower :: "u8 \<Rightarrow> u8" where
  "tolower c = (if 65 \<le> c \<and> c \<le> 90 then c + 32 else c)"

definition digit_val :: "u8 \<Rightarrow> nat option" where
  "digit_val c =
     (if isdigit c then Some (unat c - 48)
      else if 97 \<le> c \<and> c \<le> 122 then Some (unat c - 97 + 10)
      else if 65 \<le> c \<and> c \<le> 90 then Some (unat c - 65 + 10)
      else None)"

fun strtoul_digits :: "cstr \<Rightarrow> nat \<Rightarrow> u64 \<Rightarrow> u64 \<times> cstr" where
  "strtoul_digits [] base v = (v, [])"
| "strtoul_digits (c # s) base v =
     (case digit_val c of
        None \<Rightarrow> (v, c # s)
      | Some d \<Rightarrow> if base \<le> d then (v, c # s) else strtoul_digits s base (v * of_nat base + of_nat d))"

definition skip_space :: "cstr \<Rightarrow> cstr" where
  "skip_space s = dropWhile isspace s"

definition strtoul_base :: "cstr \<Rightarrow> nat \<Rightarrow> cstr \<times> nat" where
  "strtoul_base s base =
     (if (base = 0 \<or> base = 16) \<and> chr0 s = 48 \<and> (chr0 (tl s) = 120 \<or> chr0 (tl s) = 88) then (drop 2 s, 16)
      else if base = 0 \<and> chr0 s = 48 then (s, 8)
      else if base = 0 then (s, 10)
      else (s, base))"

definition strtoul :: "cstr \<Rightarrow> nat \<Rightarrow> u64 \<times> cstr" where
  "strtoul s base =
     (let s1 = skip_space s;
          s2 = (if chr0 s1 = 43 then tl s1 else s1)
      in case strtoul_base s2 base of (s3, b) \<Rightarrow> strtoul_digits s3 b 0)"

definition strtol :: "cstr \<Rightarrow> nat \<Rightarrow> u64 \<times> cstr" where
  "strtol s base =
     (let s1 = skip_space s in
      if chr0 s1 = 45 then (case strtoul (tl s1) base of (v, e) \<Rightarrow> (- v, e))
      else strtoul s1 base)"


section \<open>The memory routines copy and fill\<close>

definition copied :: "mem \<Rightarrow> nat \<Rightarrow> nat \<Rightarrow> nat \<Rightarrow> mem" where
  "copied m d s n = (\<lambda>a. if d \<le> a \<and> a < d + n then m (s + (a - d)) else m a)"

definition filled :: "mem \<Rightarrow> nat \<Rightarrow> u8 \<Rightarrow> nat \<Rightarrow> mem" where
  "filled m d c n = (\<lambda>a. if d \<le> a \<and> a < d + n then c else m a)"

lemma less8_cases: "i < 8 \<Longrightarrow> i = 0 \<or> i = 1 \<or> i = 2 \<or> i = 3 \<or> i = 4 \<or> i = 5 \<or> i = 6 \<or> i = (7 :: nat)"
  by auto

lemma ld64_byte:
  assumes "i < 8"
  shows "ucast (drop_bit (8 * i) (ld64 m a)) = m (a + i)"
proof (rule bit_eqI)
  fix n
  assume n: "possible_bit TYPE(u8) n"
  then have n8: "n < 8" by simp
  have hi: "\<not> bit (w :: u8) (8 + k)" "\<not> bit w (16 + k)" "\<not> bit w (24 + k)" "\<not> bit w (32 + k)" "\<not> bit w (40 + k)"
    "\<not> bit w (48 + k)" "\<not> bit w (56 + k)" for w k
    by (auto dest!: bit_imp_le_length)
  show "bit (ucast (drop_bit (8 * i) (ld64 m a)) :: u8) n = bit (m (a + i)) n"
    using less8_cases [OF assms] n8 hi
    by (elim disjE) (simp_all add: ld64_def bit_simps)
qed

lemma st64_ld64: "st64 m d (ld64 n s) = (\<lambda>a. if d \<le> a \<and> a < d + 8 then n (s + (a - d)) else m a)"
proof
  fix a
  show "st64 m d (ld64 n s) a = (if d \<le> a \<and> a < d + 8 then n (s + (a - d)) else m a)"
  proof (cases "d \<le> a \<and> a < d + 8")
    case True
    then have "a - d < 8" by linarith
    then show ?thesis using True ld64_byte [of "a - d" n s] by (simp add: st64_def)
  next
    case False
    then show ?thesis unfolding st64_def by (simp only: if_False)
  qed
qed

lemma copied_0 [simp]: "copied m d s 0 = m"
  by (auto simp: copied_def fun_eq_iff)

lemma copied_same [simp]: "copied m d d n = m"
  by (auto simp: copied_def fun_eq_iff)

text \<open>A forward copy may be cut anywhere when the destination is below the source or past its end.\<close>

lemma copied_split:
  assumes "k \<le> n" "d \<le> s \<or> s + n \<le> d"
  shows "copied (copied m d s k) (d + k) (s + k) (n - k) = copied m d s n"
proof
  fix a
  consider "a < d" | "d \<le> a" "a < d + k" | "d + k \<le> a" "a < d + n" | "d + n \<le> a" by linarith
  then show "copied (copied m d s k) (d + k) (s + k) (n - k) a = copied m d s n a"
  proof cases
    case 3
    then obtain j where j: "a = d + k + j" using le_Suc_ex by blast
    then have "j < n - k" using 3 by linarith
    then have "\<not> (d \<le> s + k + j \<and> s + k + j < d + k)" using assms(2) by linarith
    then show ?thesis using 3 j by (auto simp: copied_def add.assoc)
  qed (use assms(1) in \<open>simp_all add: copied_def\<close>)
qed

lemma copy32_copied: "copy32 m d s = copied m d s 32"
proof
  fix a
  have "a < d \<or> d \<le> a \<and> a < d + 8 \<or> d + 8 \<le> a \<and> a < d + 16 \<or> d + 16 \<le> a \<and> a < d + 24 \<or>
      d + 24 \<le> a \<and> a < d + 32 \<or> d + 32 \<le> a" by linarith
  then show "copy32 m d s a = copied m d s 32 a"
    by (elim disjE) (simp_all add: copy32_def Let_def st64_ld64 copied_def)
qed

lemma memcpy_blocks_copied:
  assumes "memcpy_blocks m d s n = (m', d', s', n')" "d \<le> s \<or> s + n \<le> d"
  shows "copied m' d' s' n' = copied m d s n \<and> (d' \<le> s' \<or> s' + n' \<le> d')"
  using assms
proof (induction m d s n rule: memcpy_blocks.induct)
  case (1 m d s n)
  show ?case
  proof (cases "32 \<le> n")
    case True
    have b: "memcpy_blocks (copy32 m d s) (d + 32) (s + 32) (n - 32) = (m', d', s', n')"
      using "1.prems"(1) True by (subst (asm) memcpy_blocks.simps) simp
    have o: "d + 32 \<le> s + 32 \<or> s + 32 + (n - 32) \<le> d + 32" using "1.prems"(2) by auto
    show ?thesis
      using "1.IH" [OF True b o] copied_split [OF True "1.prems"(2), of m] by (simp add: copy32_copied)
  next
    case False
    then show ?thesis using "1.prems" by (subst (asm) memcpy_blocks.simps) simp
  qed
qed

lemma memcpy_words_copied:
  assumes "memcpy_words m d s n = (m', d', s', n')" "d \<le> s \<or> s + n \<le> d"
  shows "copied m' d' s' n' = copied m d s n \<and> (d' \<le> s' \<or> s' + n' \<le> d')"
  using assms
proof (induction m d s n rule: memcpy_words.induct)
  case (1 m d s n)
  show ?case
  proof (cases "8 \<le> n")
    case True
    have b: "memcpy_words (st64 m d (ld64 m s)) (d + 8) (s + 8) (n - 8) = (m', d', s', n')"
      using "1.prems"(1) True by (subst (asm) memcpy_words.simps) simp
    have o: "d + 8 \<le> s + 8 \<or> s + 8 + (n - 8) \<le> d + 8" using "1.prems"(2) by auto
    have "st64 m d (ld64 m s) = copied m d s 8" by (simp add: st64_ld64 copied_def)
    then show ?thesis using "1.IH" [OF True b o] copied_split [OF True "1.prems"(2), of m] by simp
  next
    case False
    then show ?thesis using "1.prems" by (subst (asm) memcpy_words.simps) simp
  qed
qed

lemma memcpy_bytes_copied: "d \<le> s \<or> s + n \<le> d \<Longrightarrow> memcpy_bytes m d s n = copied m d s n"
proof (induction n arbitrary: m d s)
  case (Suc n)
  have "m(d := m s) = copied m d s 1" by (auto simp: copied_def fun_eq_iff)
  moreover have "d + 1 \<le> s + 1 \<or> s + 1 + n \<le> d + 1" using Suc.prems by auto
  ultimately show ?case using Suc.IH copied_split [of 1 "Suc n" d s m] Suc.prems by simp
qed simp

lemma memcpy_copied:
  assumes "d \<le> s \<or> s + n \<le> d"
  shows "memcpy m d s n = copied m d s n"
proof -
  obtain m1 d1 s1 n1 where b: "memcpy_blocks m d s n = (m1, d1, s1, n1)" by (metis prod_cases4)
  obtain m2 d2 s2 n2 where w: "memcpy_words m1 d1 s1 n1 = (m2, d2, s2, n2)" by (metis prod_cases4)
  have "copied m2 d2 s2 n2 = copied m d s n \<and> (d2 \<le> s2 \<or> s2 + n2 \<le> d2)"
    using memcpy_blocks_copied [OF b assms] memcpy_words_copied [OF w] by simp
  then have "memcpy_bytes m2 d2 s2 n2 = copied m d s n" using memcpy_bytes_copied by simp
  then show ?thesis using memcpy_bytes_copied [OF assms] b w by (simp add: memcpy_def)
qed

lemma memmove_back_copied: "s \<le> d \<Longrightarrow> memmove_back m d s n = copied m d s n"
proof (induction n arbitrary: m)
  case (Suc n)
  have "copied (m(d + n := m (s + n))) d s n = copied m d s (Suc n)"
    using Suc.prems by (auto simp: copied_def fun_eq_iff)
  then show ?case using Suc by simp
qed simp

text \<open>
  C12: whatever the overlap and the alignment of the two areas, \<^verbatim>\<open>memmove\<close> leaves at the destination the
  bytes the source had before the call, and every other byte as it was; it uses \<^verbatim>\<open>memcpy\<close> with its
  32-byte and 8-byte paths for destinations below the source or past its end.
\<close>

theorem memmove_correct: "memmove m d s n = copied m d s n"
  using memcpy_copied [of d s n m] memmove_back_copied [of s d m n] by (auto simp: memmove_def)

lemma splat_byte: "i < 8 \<Longrightarrow> ucast (drop_bit (8 * i) (splat c)) = c"
proof (rule bit_eqI)
  fix n
  assume i: "i < 8" and n: "possible_bit TYPE(u8) n"
  then have n8: "n < 8" by simp
  have hi: "\<not> bit (w :: u8) (8 + k)" "\<not> bit w (16 + k)" "\<not> bit w (24 + k)" "\<not> bit w (32 + k)" "\<not> bit w (40 + k)"
    "\<not> bit w (48 + k)" "\<not> bit w (56 + k)" for w k
    by (auto dest!: bit_imp_le_length)
  show "bit (ucast (drop_bit (8 * i) (splat c)) :: u8) n = bit c n"
    using less8_cases [OF i] n8 hi
    by (elim disjE) (simp_all add: splat_def Let_def bit_simps)
qed

lemma filled_split: "k \<le> n \<Longrightarrow> filled (filled m d c k) (d + k) c (n - k) = filled m d c n"
  by (auto simp: filled_def fun_eq_iff)

lemma memset_words_filled:
  assumes "memset_words m d (splat c) n = (m', d', n')"
  shows "filled m' d' c n' = filled m d c n"
  using assms
proof (induction m d "splat c" n rule: memset_words.induct)
  case (1 m d n)
  show ?case
  proof (cases "8 \<le> n")
    case True
    have b: "memset_words (st64 m d (splat c)) (d + 8) (splat c) (n - 8) = (m', d', n')"
      using "1.prems" True by (subst (asm) memset_words.simps) simp
    have "st64 m d (splat c) = filled m d c 8"
    proof
      fix a
      show "st64 m d (splat c) a = filled m d c 8 a"
        using splat_byte [of "a - d" c] by (cases "d \<le> a \<and> a < d + 8") (auto simp: st64_def filled_def)
    qed
    then show ?thesis using "1.hyps" [OF True b] filled_split [OF True] by simp
  next
    case False
    then show ?thesis using "1.prems" by (subst (asm) memset_words.simps) simp
  qed
qed

lemma memset_bytes_filled: "memset_bytes m d c n = filled m d c n"
proof (induction n arbitrary: m d)
  case (Suc n)
  have "m(d := c) = filled m d c 1" by (auto simp: filled_def fun_eq_iff)
  then show ?case using Suc filled_split [of 1 "Suc n" m d c] by simp
qed (auto simp: filled_def fun_eq_iff)

text \<open>
  \<^verbatim>\<open>memset\<close>, with its word loop over the replicated byte, stores the low byte of its argument in
  exactly the \<open>n\<close> bytes from the destination on.
\<close>

lemma memset_correct: "memset m d c n = filled m d (ucast c) n"
proof -
  obtain m1 d1 n1 where w: "memset_words m d (splat (ucast c)) n = (m1, d1, n1)" by (metis prod_cases3)
  show ?thesis using memset_words_filled [OF w] w by (simp add: memset_def memset_bytes_filled)
qed


section \<open>String copies\<close>

lemma strlen_length [simp]: "strlen s = length s"
  by (induction s) auto

lemma strnlen_min [simp]: "strnlen s n = min (length s) n"
  by (induction s n rule: strnlen.induct) auto

lemma bufstr_append_zero: "0 \<notin> set xs \<Longrightarrow> bufstr (xs @ 0 # ys) = xs"
  by (simp add: bufstr_def takeWhile_append)

lemma strlcpy_form:
  assumes "0 < sz" "sz \<le> length dst" and n_def: "n = min (sz - 1) (length src)"
  shows "strlcpy dst src sz = (length src, take n src @ 0 # drop (Suc n) dst)"
proof -
  have n: "n < length dst" "n \<le> length src" using assms(1,2) by (auto simp: n_def)
  have e: "(if sz \<le> length src then sz - 1 else length src) = n" using assms(1) by (auto simp: n_def)
  have "(take n src @ drop n dst)[n := 0] = take n src @ (drop n dst)[0 := 0]"
    using n(2) by (simp add: list_update_append)
  also have "(drop n dst)[0 := 0] = 0 # drop (Suc n) dst" by (simp add: Cons_nth_drop_Suc [OF n(1), symmetric])
  finally show ?thesis using assms(1) e by (simp add: strlcpy_def Let_def)
qed

text \<open>
  \<^verbatim>\<open>strlcpy\<close> into an array of at least \<open>sz\<close> bytes returns the length of the source, always
  terminates the destination (for \<open>sz > 0\<close>), stores the longest prefix of the source that fits, and
  writes nothing at or past offset \<open>sz\<close>.
\<close>

lemma strlcpy_correct:
  assumes "0 < sz" "sz \<le> length dst" "0 \<notin> set src"
  shows "fst (strlcpy dst src sz) = length src \<and> bufstr (snd (strlcpy dst src sz)) = take (sz - 1) src \<and>
    length (snd (strlcpy dst src sz)) = length dst \<and> drop sz (snd (strlcpy dst src sz)) = drop sz dst"
proof -
  define n where "n = min (sz - 1) (length src)"
  have f: "strlcpy dst src sz = (length src, take n src @ 0 # drop (Suc n) dst)"
    by (rule strlcpy_form [OF assms(1,2) n_def])
  have z: "0 \<notin> set (take n src)" using assms(3) by (meson in_set_takeD)
  have n: "n < sz" "take n src = take (sz - 1) src" "length (take n src) = n"
    using assms(1) by (auto simp: n_def min_def)
  have d: "drop sz (take n src @ 0 # drop (Suc n) dst) = drop sz dst"
    using n(1,3) assms(2) by (simp add: drop_Cons' drop_append)
  show ?thesis using f z n d assms(2) bufstr_append_zero [OF z] by auto
qed

text \<open>
  \<^verbatim>\<open>strlcat\<close> appends to a terminated string in an array of at least \<open>sz\<close> bytes the longest prefix of
  the source that fits, terminates the result, and returns the length it tried to create.
\<close>

lemma strlcat_correct:
  assumes "sz \<le> length dst" "0 \<notin> set src" "length (bufstr dst) < sz"
  shows "fst (strlcat dst src sz) = length (bufstr dst) + length src \<and>
    bufstr (snd (strlcat dst src sz)) = take (sz - 1) (bufstr dst @ src) \<and>
    length (snd (strlcat dst src sz)) = length dst"
proof -
  let ?dl = "length (bufstr dst)"
  have pre: "take ?dl dst = bufstr dst" by (simp add: bufstr_def takeWhile_eq_take [symmetric])
  define n where "n = min (sz - ?dl - 1) (length src)"
  have s: "strlcpy (drop ?dl dst) src (sz - ?dl) = (length src, take n src @ 0 # drop (Suc n) (drop ?dl dst))"
    using strlcpy_form [of "sz - ?dl" "drop ?dl dst" n src] assms(1,3) by (simp add: n_def)
  have c: "strlcat dst src sz = (?dl + length src, bufstr dst @ take n src @ 0 # drop (Suc n) (drop ?dl dst))"
    using s assms(3) pre by (simp add: strlcat_def Let_def min_def)
  have "0 \<notin> set (bufstr dst)" by (auto simp: bufstr_def dest: set_takeWhileD)
  then have z: "0 \<notin> set (bufstr dst @ take n src)" using assms(2) by (auto dest: in_set_takeD)
  have t: "bufstr dst @ take n src = take (sz - 1) (bufstr dst @ src)" using assms(3) by (auto simp: n_def min_def)
  show ?thesis using c bufstr_append_zero [OF z] t assms(1,3) by (auto simp: n_def)
qed

end
