(* ===== verification/Olux_Vsprintf.thy ===== *)
theory Olux_Vsprintf
  imports Olux_String
begin

text \<open>
  Formatted output (lib/vsprintf.c).  Every character goes through \<^verbatim>\<open>emit\<close>, so a conversion is modelled
  by the list of characters it emits, in order, and the loop emits them one by one into the bounded
  buffer.  A variadic argument list is a list of values; reading an argument that is not there or has
  the wrong kind is undefined in C and makes the model return \<open>None\<close>.
\<close>

section \<open>The output buffer\<close>

record out =
  obuf :: "u8 list"
  osize :: nat
  opos :: nat

definition emit :: "out \<Rightarrow> u8 \<Rightarrow> out" where
  "emit st c =
     (let st1 = (if opos st + 1 < osize st then st\<lparr>obuf := (obuf st)[opos st := c]\<rparr> else st)
      in st1\<lparr>opos := opos st1 + 1\<rparr>)"

definition emit_all :: "out \<Rightarrow> u8 list \<Rightarrow> out" where
  "emit_all st cs = foldl emit st cs"


section \<open>Numbers\<close>

definition F_LEFT :: u32 where "F_LEFT = 1"
definition F_PLUS :: u32 where "F_PLUS = 2"
definition F_SPACE :: u32 where "F_SPACE = 4"
definition F_ALT :: u32 where "F_ALT = 8"
definition F_ZERO :: u32 where "F_ZERO = 16"
definition F_UPPER :: u32 where "F_UPPER = 32"

lemmas fmt_flag_defs = F_LEFT_def F_PLUS_def F_SPACE_def F_ALT_def F_ZERO_def F_UPPER_def

definition digit_char :: "bool \<Rightarrow> nat \<Rightarrow> u8" where
  "digit_char upper d = (if d < 10 then of_nat (48 + d) else of_nat ((if upper then 55 else 87) + d))"

text \<open>
  The array \<^verbatim>\<open>tmp\<close> after the division loop, least significant digit first.  The base is 8, 10 or 16; the
  guard on it only makes the recursion total.
\<close>

function tmp_digits :: "bool \<Rightarrow> nat \<Rightarrow> nat \<Rightarrow> u8 list" where
  "tmp_digits upper base v =
     (if v = 0 \<or> base < 2 then [] else digit_char upper (v mod base) # tmp_digits upper base (v div base))"
  by pat_completeness auto
termination
  by (relation "measure (\<lambda>(u, b, v). v)") auto

declare tmp_digits.simps [simp del]

definition pad_text :: "u8 \<Rightarrow> int \<Rightarrow> u8 list" where
  "pad_text c n = replicate (nat n) c"

text \<open>The characters \<^verbatim>\<open>emit_num\<close> emits.\<close>

definition num_text :: "u64 \<Rightarrow> bool \<Rightarrow> nat \<Rightarrow> u32 \<Rightarrow> int \<Rightarrow> int \<Rightarrow> u8 list" where
  "num_text v neg base flags width prec =
     (let upper = has_flag flags F_UPPER;
          tmp = (if v = 0 \<and> prec \<noteq> 0 then [48] else []) @ tmp_digits upper base (unat v);
          n = int (length tmp);
          sign = (if neg then [45] else if has_flag flags F_PLUS then [43]
                  else if has_flag flags F_SPACE then [32] else []);
          prefix1 = (if has_flag flags F_ALT \<and> base = 16 \<and> v \<noteq> 0 then (if upper then [48, 88] else [48, 120]) else []);
          prefix = (if has_flag flags F_ALT \<and> base = 8 \<and> (tmp = [] \<or> last tmp \<noteq> 48) then [48] else prefix1);
          plen = int (length prefix) + int (length sign);
          zeros1 = (if n < prec then prec - n else 0);
          w = width - plen - n;
          zeros = (if has_flag flags F_ZERO \<and> \<not> has_flag flags F_LEFT \<and> prec < 0 \<and> zeros1 < w then w else zeros1);
          pad = width - plen - zeros - n
      in (if has_flag flags F_LEFT then [] else pad_text 32 pad) @ sign @ prefix @ pad_text 48 zeros @ rev tmp @
         (if has_flag flags F_LEFT then pad_text 32 pad else []))"


section \<open>Parsing a directive\<close>

datatype varg = VNum u64 | VStr "cstr option"

fun va_word :: "varg list \<Rightarrow> (u64 \<times> varg list) option" where
  "va_word (VNum v # ap) = Some (v, ap)"
| "va_word _ = None"

fun va_str :: "varg list \<Rightarrow> (cstr option \<times> varg list) option" where
  "va_str (VStr s # ap) = Some (s, ap)"
| "va_str _ = None"

definition va_int :: "varg list \<Rightarrow> (int \<times> varg list) option" where
  "va_int ap = map_option (\<lambda>(v, ap'). (sint (ucast v :: 32 word), ap')) (va_word ap)"

fun parse_flags :: "cstr \<Rightarrow> u32 \<Rightarrow> cstr \<times> u32" where
  "parse_flags [] flags = ([], flags)"
| "parse_flags (c # f) flags =
     (if c = 45 then parse_flags f (flags OR F_LEFT)
      else if c = 43 then parse_flags f (flags OR F_PLUS)
      else if c = 32 then parse_flags f (flags OR F_SPACE)
      else if c = 35 then parse_flags f (flags OR F_ALT)
      else if c = 48 then parse_flags f (flags OR F_ZERO)
      else (c # f, flags))"

fun parse_num :: "cstr \<Rightarrow> int \<Rightarrow> cstr \<times> int" where
  "parse_num [] n = ([], n)"
| "parse_num (c # f) n = (if isdigit c then parse_num f (n * 10 + (uint c - 48)) else (c # f, n))"

definition parse_width :: "cstr \<Rightarrow> u32 \<Rightarrow> varg list \<Rightarrow> (cstr \<times> u32 \<times> int \<times> varg list) option" where
  "parse_width f flags ap =
     (if chr0 f = 42
      then map_option (\<lambda>(w, ap'). if w < 0 then (tl f, flags OR F_LEFT, - w, ap') else (tl f, flags, w, ap')) (va_int ap)
      else case parse_num f 0 of (f', w) \<Rightarrow> Some (f', flags, w, ap))"

definition parse_prec :: "cstr \<Rightarrow> varg list \<Rightarrow> (cstr \<times> int \<times> varg list) option" where
  "parse_prec f ap =
     (if chr0 f = 46
      then let f1 = tl f in
           if chr0 f1 = 42 then map_option (\<lambda>(p, ap'). (tl f1, p, ap')) (va_int ap)
           else case parse_num f1 0 of (f', p) \<Rightarrow> Some (f', p, ap)
      else Some (f, - 1, ap))"

fun parse_len :: "cstr \<Rightarrow> int \<Rightarrow> cstr \<times> int" where
  "parse_len [] len = ([], len)"
| "parse_len (c # f) len =
     (if c = 108 then parse_len f (len + 1)
      else if c = 104 then parse_len f (len - 1)
      else if c = 122 \<or> c = 116 \<or> c = 106 then parse_len f 1
      else (c # f, len))"

text \<open>Signed and unsigned arguments after the length modifier, as 64-bit values.\<close>

definition signed_arg :: "int \<Rightarrow> u64 \<Rightarrow> int" where
  "signed_arg len v =
     (if 1 \<le> len then sint v
      else let s = sint (ucast v :: 32 word) in
           if len = - 1 then sint (word_of_int s :: 16 word)
           else if len \<le> - 2 then sint (word_of_int s :: 8 word) else s)"

definition unsigned_arg :: "int \<Rightarrow> u64 \<Rightarrow> u64" where
  "unsigned_arg len v =
     (if 1 \<le> len then v
      else let u = ucast (ucast v :: 32 word) in
           if len = - 1 then ucast (ucast u :: 16 word)
           else if len \<le> - 2 then ucast (ucast u :: 8 word) else u)"

definition null_text :: cstr where
  "null_text = [40, 110, 117, 108, 108, 41]"

text \<open>The conversion itself: \<open>f\<close> points at the conversion character.\<close>

definition conv_text :: "cstr \<Rightarrow> u32 \<Rightarrow> int \<Rightarrow> int \<Rightarrow> int \<Rightarrow> varg list \<Rightarrow> (u8 list \<times> varg list) option" where
  "conv_text f flags width prec len ap =
     (let c = chr0 f in
      if c = 100 \<or> c = 105
      then map_option (\<lambda>(v, ap'). let s = signed_arg len v
             in (num_text (word_of_int (abs s)) (s < 0) 10 flags width prec, ap')) (va_word ap)
      else if c = 117 \<or> c = 120 \<or> c = 88 \<or> c = 111
      then map_option (\<lambda>(v, ap').
             let fl = (if c = 88 then flags OR F_UPPER else flags);
                 base = (if c = 117 then 10 else if c = 111 then 8 else 16)
             in (num_text (unsigned_arg len v) False base (fl AND NOT (F_PLUS OR F_SPACE)) width prec, ap')) (va_word ap)
      else if c = 112
      then map_option (\<lambda>(v, ap'). (num_text v False 16 (F_ALT OR F_ZERO) 18 (- 1), ap')) (va_word ap)
      else if c = 115
      then map_option (\<lambda>(so, ap').
             let str = (case so of None \<Rightarrow> null_text | Some s \<Rightarrow> s);
                 n = (if 0 \<le> prec then strnlen str (nat prec) else strlen str);
                 pad = width - int n
             in ((if has_flag flags F_LEFT then [] else pad_text 32 pad) @ take n str @
                 (if has_flag flags F_LEFT then pad_text 32 pad else []), ap')) (va_str ap)
      else if c = 99
      then map_option (\<lambda>(v, ap').
             ((if has_flag flags F_LEFT then [] else pad_text 32 (width - 1)) @ [ucast v] @
              (if has_flag flags F_LEFT then pad_text 32 (width - 1) else []), ap')) (va_word ap)
      else if c = 37 then Some ([37], ap)
      else if f = [] then Some ([], ap)
      else Some ([37, c], ap))"

definition directive :: "cstr \<Rightarrow> varg list \<Rightarrow> (u8 list \<times> cstr \<times> varg list) option" where
  "directive f ap =
     (case parse_flags f 0 of (f1, flags) \<Rightarrow>
        case parse_width f1 flags ap of
          None \<Rightarrow> None
        | Some (f2, flags2, width, ap2) \<Rightarrow>
            case parse_prec f2 ap2 of
              None \<Rightarrow> None
            | Some (f3, prec, ap3) \<Rightarrow>
                case parse_len f3 0 of (f4, len) \<Rightarrow>
                  map_option (\<lambda>(t, ap4). (t, tl f4, ap4)) (conv_text f4 flags2 width prec len ap3))"

lemma parse_flags_length: "length (fst (parse_flags f fl)) \<le> length f"
  by (induction f fl rule: parse_flags.induct) auto

lemma parse_num_length: "length (fst (parse_num f n)) \<le> length f"
  by (induction f n rule: parse_num.induct) auto

lemma parse_len_length: "length (fst (parse_len f n)) \<le> length f"
  by (induction f n rule: parse_len.induct) auto

lemma parse_width_length: "parse_width f fl ap = Some (f', r) \<Longrightarrow> length f' \<le> length f"
  using parse_num_length [of f 0] by (auto simp: parse_width_def split: if_splits prod.splits)

lemma parse_prec_length: "parse_prec f ap = Some (f', r) \<Longrightarrow> length f' \<le> length f"
  using parse_num_length [of "tl f" 0] by (auto simp: parse_prec_def Let_def split: if_splits prod.splits)

lemma directive_length:
  assumes "directive f ap = Some (t, f', ap')"
  shows "length f' \<le> length f"
proof -
  obtain f1 flags where 1: "parse_flags f 0 = (f1, flags)" by (cases "parse_flags f 0")
  obtain f2 fl2 w ap2 where 2: "parse_width f1 flags ap = Some (f2, fl2, w, ap2)"
    using assms by (auto simp: directive_def 1 split: option.splits)
  obtain f3 pr ap3 where 3: "parse_prec f2 ap2 = Some (f3, pr, ap3)"
    using assms by (auto simp: directive_def 1 2 split: option.splits)
  obtain f4 len where 4: "parse_len f3 0 = (f4, len)" by (cases "parse_len f3 0")
  have "f' = tl f4" using assms by (auto simp: directive_def 1 2 3 4)
  moreover have "length f1 \<le> length f" using parse_flags_length [of f 0] by (simp add: 1)
  moreover have "length f4 \<le> length f3" using parse_len_length [of f3 0] by (simp add: 4)
  ultimately show ?thesis using parse_width_length [OF 2] parse_prec_length [OF 3] by simp
qed


section \<open>The format loop\<close>

function vs_loop :: "out \<Rightarrow> cstr \<Rightarrow> varg list \<Rightarrow> out option" where
  "vs_loop st [] ap = Some st"
| "vs_loop st (c # f) ap =
     (if c \<noteq> 37 then vs_loop (emit st c) f ap
      else case directive f ap of
             None \<Rightarrow> None
           | Some (t, f', ap') \<Rightarrow> vs_loop (emit_all st t) f' ap')"
  by pat_completeness auto
termination
  by (relation "measure (\<lambda>(st, f, ap). length f)") (auto dest: directive_length)

definition vsnprintf :: "u8 list \<Rightarrow> nat \<Rightarrow> cstr \<Rightarrow> varg list \<Rightarrow> (int \<times> u8 list) option" where
  "vsnprintf buf sz fmt ap =
     (case vs_loop \<lparr>obuf = buf, osize = sz, opos = 0\<rparr> fmt ap of
        None \<Rightarrow> None
      | Some st \<Rightarrow>
          Some (sint (of_nat (opos st) :: 32 word),
                if sz \<noteq> 0 then (obuf st)[(if opos st < sz then opos st else sz - 1) := 0] else obuf st))"

definition snprintf :: "u8 list \<Rightarrow> nat \<Rightarrow> cstr \<Rightarrow> varg list \<Rightarrow> (int \<times> u8 list) option" where
  "snprintf buf sz fmt args = vsnprintf buf sz fmt args"

section \<open>The text of a format\<close>

text \<open>What a format and its arguments denote, without any buffer: the reference for the bounded output.\<close>

function fmt_text :: "cstr \<Rightarrow> varg list \<Rightarrow> u8 list option" where
  "fmt_text [] ap = Some []"
| "fmt_text (c # f) ap =
     (if c \<noteq> 37 then map_option (Cons c) (fmt_text f ap)
      else case directive f ap of
             None \<Rightarrow> None
           | Some (t, f', ap') \<Rightarrow> map_option (append t) (fmt_text f' ap'))"
  by pat_completeness auto
termination
  by (relation "measure (\<lambda>(f, ap). length f)") (auto dest: directive_length)

lemma emit_all_Nil [simp]: "emit_all st [] = st"
  by (simp add: emit_all_def)

lemma emit_all_Cons [simp]: "emit_all st (c # cs) = emit_all (emit st c) cs"
  by (simp add: emit_all_def)

lemma emit_all_append: "emit_all st (cs @ ds) = emit_all (emit_all st cs) ds"
  by (simp add: emit_all_def)

lemma vs_loop_text: "vs_loop st f ap = map_option (emit_all st) (fmt_text f ap)"
proof (induction st f ap rule: vs_loop.induct)
  case (2 st c f ap)
  show ?case
  proof (cases "c = 37")
    case True
    then show ?thesis using 2(2)
      by (auto simp: option.map_comp comp_def emit_all_append split: option.splits prod.splits)
  next
    case False
    then show ?thesis using 2(1) by (simp add: option.map_comp comp_def)
  qed
qed simp

text \<open>The buffer after emitting \<open>t\<close>: the prefix that leaves room for the terminator.\<close>

lemma emit_fields [simp]:
  "opos (emit st c) = Suc (opos st)" "osize (emit st c) = osize st"
  "length (obuf (emit st c)) = length (obuf st)"
  by (simp_all add: emit_def Let_def)

lemma emit_all_fields:
  "opos (emit_all st t) = opos st + length t \<and> osize (emit_all st t) = osize st \<and>
   length (obuf (emit_all st t)) = length (obuf st)"
  by (induction t arbitrary: st) auto

lemma emit_all_buf:
  assumes "osize st \<le> length (obuf st)"
  shows "obuf (emit_all st t) =
    (let k = min (length t) (osize st - 1 - opos st)
     in take (opos st) (obuf st) @ take k t @ drop (opos st + k) (obuf st))"
  using assms
proof (induction t arbitrary: st)
  case Nil
  then show ?case by simp
next
  case (Cons c t)
  have IH: "obuf (emit_all (emit st c) t) =
    (let k = min (length t) (osize st - 1 - Suc (opos st))
     in take (Suc (opos st)) (obuf (emit st c)) @ take k t @ drop (Suc (opos st) + k) (obuf (emit st c)))"
    using Cons by simp
  show ?case
  proof (cases "opos st + 1 < osize st")
    case True
    then have "obuf (emit st c) = (obuf st)[opos st := c]" by (simp add: emit_def)
    moreover have "opos st < length (obuf st)" using True Cons.prems by simp
    moreover have "osize st - 1 - opos st = Suc (osize st - 1 - Suc (opos st))" using True by simp
    ultimately show ?thesis
      by (simp add: IH Let_def take_Suc_conv_app_nth)
  next
    case False
    then have "obuf (emit st c) = obuf st" by (simp add: emit_def)
    then show ?thesis using False by (simp add: IH Let_def)
  qed
qed

lemma vsnprintf_spec:
  assumes "sz \<le> length buf"
  shows "vsnprintf buf sz fmt ap =
    map_option (\<lambda>t. (sint (of_nat (length t) :: 32 word),
       if sz = 0 then buf
       else let n = min (length t) (sz - 1) in take n t @ 0 # drop (Suc n) buf)) (fmt_text fmt ap)"
proof (cases "fmt_text fmt ap")
  case None
  then show ?thesis by (simp add: vsnprintf_def vs_loop_text)
next
  case (Some t)
  define st where "st = emit_all \<lparr>obuf = buf, osize = sz, opos = 0\<rparr> t"
  define n where "n = min (length t) (sz - 1)"
  have f: "opos st = length t" using emit_all_fields [of _ t] by (simp add: st_def)
  have b: "obuf st = take n t @ drop n buf"
    using emit_all_buf [of "\<lparr>obuf = buf, osize = sz, opos = 0\<rparr>" t] assms by (simp add: st_def n_def Let_def)
  have r: "vsnprintf buf sz fmt ap = Some (sint (of_nat (length t) :: 32 word),
      if sz \<noteq> 0 then (obuf st)[(if length t < sz then length t else sz - 1) := 0] else obuf st)"
    by (simp add: vsnprintf_def vs_loop_text Some st_def [symmetric] f)
  have i: "(if length t < sz then length t else sz - 1) = n" by (auto simp: n_def)
  show ?thesis
  proof (cases "sz = 0")
    case True
    then have "obuf st = buf" by (simp add: b n_def)
    then show ?thesis unfolding r Some using True by simp
  next
    case False
    then have "n < length buf" "length (take n t) = n" using assms by (auto simp: n_def)
    then have "(obuf st)[n := 0] = take n t @ 0 # drop (Suc n) buf"
      by (simp add: b list_update_append Cons_nth_drop_Suc [symmetric])
    then show ?thesis
      unfolding r i Some using False by (simp add: n_def [symmetric] Let_def) (simp add: n_def Let_def)
  qed
qed




section \<open>Numbers print and parse\<close>

text \<open>The value of a digit list, least significant digit first.\<close>

lemma tmp_digits_rec:
  "2 \<le> base \<Longrightarrow> v \<noteq> 0 \<Longrightarrow>
   tmp_digits u base v = digit_char u (v mod base) # tmp_digits u base (v div base)"
  by (subst tmp_digits.simps) simp

lemma tmp_digits_0 [simp]: "tmp_digits u base 0 = []"
  by (subst tmp_digits.simps) simp

lemma tmp_digits_length:
  assumes "v < base ^ k" "2 \<le> base"
  shows "length (tmp_digits u base v) \<le> k"
  using assms(1)
proof (induction k arbitrary: v)
  case 0
  then show ?case by simp
next
  case (Suc k)
  show ?case
  proof (cases "v = 0")
    case False
    have "v div base < base ^ k" using Suc.prems assms(2) by (simp add: div_less_iff_less_mult mult.commute)
    then show ?thesis using Suc.IH False assms(2) by (simp add: tmp_digits_rec)
  qed simp
qed

text \<open>
  The digit buffer never overflows: for each of the three bases in use, every 64-bit value (and the
  lone zero) fits into the 24 bytes of \<^verbatim>\<open>tmp\<close>.
\<close>

lemma tmp_digits_bound:
  "length ((if v = 0 \<and> prec \<noteq> 0 then [48] else []) @ tmp_digits u (if c = 117 then 10 else if c = (111 :: u8) then 8 else 16) (unat (v :: u64))) \<le> 22"
proof -
  have v: "unat v < 2 ^ 64" by (rule u64_bound)
  define base :: nat where "base = (if c = 117 then 10 else if c = 111 then 8 else 16)"
  have b: "8 \<le> base" by (simp add: base_def)
  have "unat v < 8 ^ 22" using v by simp
  also have "8 ^ 22 \<le> base ^ 22" by (rule power_mono [OF b]) simp
  finally have "length (tmp_digits u base (unat v)) \<le> 22" using b by (intro tmp_digits_length) simp_all
  then show ?thesis by (cases "v = 0") (simp_all add: base_def)
qed

lemma digit_char_table:
  "\<forall>u \<in> set [True, False]. \<forall>d \<in> set [0 ..< 16].
     digit_val (digit_char u d) = Some d \<and> \<not> isspace (digit_char u d) \<and> digit_char u d \<notin> {43, 120, 88, 0}"
  by code_simp

lemma digit_char_props:
  assumes "d < 16"
  shows "digit_val (digit_char u d) = Some d" "\<not> isspace (digit_char u d)" "digit_char u d \<notin> {43, 120, 88, 0}"
proof -
  have "u \<in> set [True, False]" "d \<in> set [0 ..< 16]" using assms by (cases u, simp_all)
  then show "digit_val (digit_char u d) = Some d" "\<not> isspace (digit_char u d)" "digit_char u d \<notin> {43, 120, 88, 0}"
    using digit_char_table by blast+
qed

lemma strtoul_digits_append:
  assumes "\<And>c. c \<in> set xs \<Longrightarrow> \<exists>d. digit_val c = Some d \<and> d < base"
  shows "strtoul_digits (xs @ ys) base v = strtoul_digits ys base (fst (strtoul_digits xs base v))"
  using assms
proof (induction xs arbitrary: v)
  case (Cons c xs)
  then obtain d where "digit_val c = Some d" "d < base" by auto
  then show ?case using Cons by simp
qed simp

lemma tmp_digits_set:
  assumes "2 \<le> base" "base \<le> 16"
  shows "c \<in> set (tmp_digits u base v) \<Longrightarrow> \<exists>d < base. c = digit_char u d"
proof (induction v rule: less_induct)
  case (less v)
  show ?case
  proof (cases "v = 0")
    case False
    then consider "c = digit_char u (v mod base)" | "c \<in> set (tmp_digits u base (v div base))"
      using less.prems assms by (auto simp: tmp_digits_rec)
    then show ?thesis
    proof cases
      case 1
      moreover have "v mod base < base" using assms by simp
      ultimately show ?thesis by blast
    next
      case 2
      moreover have "v div base < v" using assms False by simp
      ultimately show ?thesis using less.IH by blast
    qed
  qed (use less in simp)
qed

lemma strtoul_tmp_digits:
  assumes "2 \<le> base" "base \<le> 16"
  shows "strtoul_digits (rev (tmp_digits u base v)) base 0 = (of_nat v, [])"
proof (induction v rule: less_induct)
  case (less v)
  show ?case
  proof (cases "v = 0")
    case False
    have d: "\<exists>d. digit_val c = Some d \<and> d < base" if "c \<in> set (rev (tmp_digits u base (v div base)))" for c
      using tmp_digits_set [OF assms, of c u "v div base"] that assms digit_char_props(1) by fastforce
    have m: "v mod base < base" using assms by simp
    have "v div base < v" using False assms by simp
    then have IH: "strtoul_digits (rev (tmp_digits u base (v div base))) base 0 = (of_nat (v div base), [])"
      by (rule less)
    have "rev (tmp_digits u base v) = rev (tmp_digits u base (v div base)) @ [digit_char u (v mod base)]"
      using False assms by (simp add: tmp_digits_rec)
    then have "strtoul_digits (rev (tmp_digits u base v)) base 0 =
        strtoul_digits [digit_char u (v mod base)] base (of_nat (v div base))"
      by (simp only: strtoul_digits_append [OF d] IH fst_conv)
    also have "\<dots> = (of_nat (v div base) * of_nat base + of_nat (v mod base), [])"
    proof -
      have "v mod base < 16" using less_le_trans [OF m assms(2)] .
      then have "digit_val (digit_char u (v mod base)) = Some (v mod base)" by (rule digit_char_props)
      then show ?thesis using m by simp
    qed
    also have "of_nat (v div base) * of_nat base + of_nat (v mod base) = (of_nat v :: u64)"
      by (metis div_mult_mod_eq of_nat_add of_nat_mult)
    finally show ?thesis .
  qed simp
qed

definition plain_digits :: "nat \<Rightarrow> u64 \<Rightarrow> u8 list" where
  "plain_digits base v = (if v = 0 then [48] else rev (tmp_digits False base (unat v)))"

lemma num_text_plain: "num_text v False base 0 0 (- 1) = plain_digits base v"
  by (simp add: num_text_def Let_def pad_text_def plain_digits_def)

lemma directive_unsigned:
  "c \<in> {117, 111, 120} \<Longrightarrow> directive [108, c] [VNum v] =
     Some (plain_digits (if c = 117 then 10 else if c = 111 then 8 else 16) v, [], [])"
  by (auto simp: directive_def parse_width_def parse_prec_def conv_text_def chr0_def isdigit_def
      unsigned_arg_def num_text_plain Let_def)

lemma fmt_text_unsigned:
  "fmt_text [37, 108, 117] [VNum v] = Some (plain_digits 10 v)"
  "fmt_text [37, 108, 111] [VNum v] = Some (plain_digits 8 v)"
  "fmt_text [37, 108, 120] [VNum v] = Some (plain_digits 16 v)"
  by (simp_all add: directive_unsigned)

lemma plain_digits_set:
  assumes "2 \<le> base" "base \<le> 16" "c \<in> set (plain_digits base v)"
  shows "\<exists>d < base. c = digit_char False d"
proof (cases "v = 0")
  case True
  then have "c = digit_char False 0" using assms by (simp add: plain_digits_def digit_char_def)
  then show ?thesis using assms(1) by (intro exI [of _ 0]) simp
next
  case False
  then show ?thesis using assms tmp_digits_set [OF assms(1,2)] by (simp add: plain_digits_def)
qed

lemma strtoul_plain_digits:
  assumes "base \<in> {8, 10, 16}"
  shows "strtoul (plain_digits base v) base = (v, [])"
proof -
  have b: "2 \<le> base" "base \<le> 16" using assms by auto
  let ?s = "plain_digits base v"
  have ne: "?s \<noteq> []"
  proof (cases "v = 0")
    case False
    then have "unat v \<noteq> 0" by (simp add: unat_eq_0)
    then show ?thesis using b by (simp add: plain_digits_def tmp_digits_rec)
  qed (simp add: plain_digits_def)
  then obtain c s where cs: "?s = c # s" by (cases ?s) auto
  have p: "\<not> isspace x \<and> x \<notin> {43, 120, 88, 0}" if "x \<in> set ?s" for x
    using plain_digits_set [OF b that] b digit_char_props(2,3) by fastforce
  have c: "\<not> isspace c" "c \<noteq> 43" using p [of c] by (simp_all add: cs)
  have s: "chr0 s \<noteq> 120" "chr0 s \<noteq> 88"
    using p by (cases s; force simp: cs chr0_def)+
  have "strtoul_base ?s base = (?s, base)"
    using assms s by (auto simp: strtoul_base_def cs)
  then have "strtoul ?s base = strtoul_digits ?s base 0"
    using c by (simp add: strtoul_def skip_space_def cs chr0_def Let_def)
  also have "\<dots> = (v, [])"
  proof (cases "v = 0")
    case True
    have "digit_val 48 = Some 0" by code_simp
    then show ?thesis using True b by (simp add: plain_digits_def)
  next
    case False
    then show ?thesis using strtoul_tmp_digits [OF b, of False "unat v"] by (simp add: plain_digits_def)
  qed
  finally show ?thesis .
qed

text \<open>
  C14: Printing and parsing are inverse: an unsigned 64-bit value formatted in decimal, octal or
  hexadecimal into a buffer of at least 23 bytes is read back by \<^verbatim>\<open>strtoul\<close> in the same base, with nothing left over.
\<close>

theorem print_parse_roundtrip:
  assumes "23 \<le> sz" "sz \<le> length buf" "(c, base) \<in> {(117, 10), (111, 8), (120, 16)}"
  shows "\<exists>n buf'. vsnprintf buf sz [37, 108, c] [VNum v] = Some (n, buf') \<and> strtoul (bufstr buf') base = (v, [])"
proof -
  define t where "t = plain_digits base v"
  have b: "base \<in> {8, 10, 16}" "2 \<le> base" "base \<le> 16" "8 \<le> base" using assms(3) by auto
  have tx: "fmt_text [37, 108, c] [VNum v] = Some t"
    using assms(3) by (auto simp: fmt_text_unsigned t_def simp del: fmt_text.simps)
  have "unat v < 8 ^ 22" using u64_bound [of v] by simp
  also have "8 ^ 22 \<le> base ^ 22" by (rule power_mono [OF b(4)]) simp
  finally have len: "length t \<le> 22" using tmp_digits_length b(2) by (simp add: t_def plain_digits_def)
  have z: "0 \<notin> set t"
    using plain_digits_set [OF b(2,3)] digit_char_props(3) b(3) by (fastforce simp: t_def)
  have "min (length t) (sz - 1) = length t" using len assms(1) by simp
  then have "vsnprintf buf sz [37, 108, c] [VNum v] =
      Some (sint (of_nat (length t) :: 32 word), t @ 0 # drop (Suc (length t)) buf)"
    using assms(1) by (simp add: vsnprintf_spec [OF assms(2)] tx del: fmt_text.simps)
  then show ?thesis
    using strtoul_plain_digits [OF b(1)] bufstr_append_zero [OF z] by (auto simp: t_def)
qed

theorem print_parse_roundtrip_witness:
  "\<exists>n buf'. vsnprintf (replicate 30 0) 30 [37, 108, 120] [VNum 48879] = Some (n, buf') \<and>
     strtoul (bufstr buf') 16 = (48879, [])"
  by (rule print_parse_roundtrip) simp_all

end
