(* ===== verification/Olux_Spinlock.thy ===== *)
theory Olux_Spinlock
  imports Olux_Prelude
begin

text \<open>
  Ticket spinlocks (kernel/spinlock.c) under arbitrary interleavings of the CPUs.  The two atomic
  accesses of \<^verbatim>\<open>spin_lock\<close> (take a ticket, see it served), the load and the compare-and-swap of
  \<^verbatim>\<open>spin_trylock\<close>, and the release of \<^verbatim>\<open>spin_unlock\<close> are separate steps of any CPU.  The tickets are 16-bit
  and wrap around.
\<close>

section \<open>The lock and the CPUs using it\<close>

definition NR_CPUS :: nat where "NR_CPUS = 8"

record spinlock =
  owner :: u16
  nextt :: u16
  lcpu :: int

definition spin_lock_init :: spinlock where
  "spin_lock_init = \<lparr>owner = 0, nextt = 0, lcpu = - 1\<rparr>"

text \<open>Where a CPU is: outside, waiting with a ticket, between the load and the swap of a trylock, inside.\<close>

datatype spin_pc = Out | Waiting u16 | Trying u16 u16 | Inside

record spin =
  slock :: spinlock
  spc :: "nat \<Rightarrow> spin_pc"

definition spin_init :: spin where
  "spin_init = \<lparr>slock = spin_lock_init, spc = (\<lambda>_. Out)\<rparr>"

text \<open>\<^verbatim>\<open>spin_lock\<close>: the fetch-and-add, and the end of the wait loop.\<close>

definition spin_take :: "nat \<Rightarrow> spin \<Rightarrow> spin" where
  "spin_take c s =
     (let l = slock s; ticket = nextt l
      in s\<lparr>slock := l\<lparr>nextt := ticket + 1\<rparr>, spc := (spc s)(c := Waiting ticket)\<rparr>)"

definition spin_served :: "spin \<Rightarrow> u16 \<Rightarrow> bool" where
  "spin_served s ticket \<longleftrightarrow> owner (slock s) = ticket"

definition spin_enter :: "nat \<Rightarrow> spin \<Rightarrow> spin" where
  "spin_enter c s = s\<lparr>slock := (slock s)\<lparr>lcpu := int c\<rparr>, spc := (spc s)(c := Inside)\<rparr>"

text \<open>\<^verbatim>\<open>spin_trylock\<close>: the load of both halves, and the compare-and-swap.\<close>

definition spin_try_load :: "nat \<Rightarrow> spin \<Rightarrow> spin" where
  "spin_try_load c s =
     (let own = owner (slock s); nxt = nextt (slock s)
      in if own \<noteq> nxt then s else s\<lparr>spc := (spc s)(c := Trying own nxt)\<rparr>)"

definition spin_try_cas :: "nat \<Rightarrow> u16 \<Rightarrow> u16 \<Rightarrow> spin \<Rightarrow> spin" where
  "spin_try_cas c own nxt s =
     (if owner (slock s) = own \<and> nextt (slock s) = nxt
      then s\<lparr>slock := (slock s)\<lparr>nextt := nxt + 1, lcpu := int c\<rparr>, spc := (spc s)(c := Inside)\<rparr>
      else s\<lparr>spc := (spc s)(c := Out)\<rparr>)"

definition spin_unlock :: "nat \<Rightarrow> spin \<Rightarrow> spin" where
  "spin_unlock c s =
     s\<lparr>slock := (slock s)\<lparr>lcpu := - 1, owner := owner (slock s) + 1\<rparr>, spc := (spc s)(c := Out)\<rparr>"

definition spin_is_locked :: "spinlock \<Rightarrow> bool" where
  "spin_is_locked l \<longleftrightarrow> owner l \<noteq> nextt l"

inductive spin_step :: "spin \<Rightarrow> spin \<Rightarrow> bool" where
  Take: "c < NR_CPUS \<Longrightarrow> spc s c = Out \<Longrightarrow> spin_step s (spin_take c s)"
| Enter: "c < NR_CPUS \<Longrightarrow> spc s c = Waiting ticket \<Longrightarrow> spin_served s ticket \<Longrightarrow> spin_step s (spin_enter c s)"
| Try_load: "c < NR_CPUS \<Longrightarrow> spc s c = Out \<Longrightarrow> spin_step s (spin_try_load c s)"
| Try_cas: "c < NR_CPUS \<Longrightarrow> spc s c = Trying own nxt \<Longrightarrow> spin_step s (spin_try_cas c own nxt s)"
| Unlock: "c < NR_CPUS \<Longrightarrow> spc s c = Inside \<Longrightarrow> spin_step s (spin_unlock c s)"

inductive spin_reach :: "spin \<Rightarrow> bool" where
  Init: "spin_reach spin_init"
| Step: "spin_reach s \<Longrightarrow> spin_step s s' \<Longrightarrow> spin_reach s'"


section \<open>The queue behind the tickets\<close>

text \<open>
  The CPUs that wait or hold the lock form a queue in ticket order: the first one holds the lock or is
  being served, and the \<open>i\<close>-th one has the ticket \<open>owner + i\<close>.
\<close>

definition spin_queue :: "spin \<Rightarrow> nat list \<Rightarrow> bool" where
  "spin_queue s q \<longleftrightarrow>
     distinct q \<and> set q \<subseteq> {..< NR_CPUS} \<and> nextt (slock s) = owner (slock s) + of_nat (length q) \<and>
     (\<forall>c. c \<notin> set q \<longrightarrow> spc s c = Out \<or> (\<exists>v. spc s c = Trying v v)) \<and>
     (\<forall>i < length q. spc s (q ! i) = Waiting (owner (slock s) + of_nat i) \<or> (i = 0 \<and> spc s (q ! i) = Inside))"

lemma spin_queue_length:
  assumes "spin_queue s q"
  shows "length q \<le> NR_CPUS"
proof -
  have "card (set q) \<le> card {..< NR_CPUS}" using assms by (intro card_mono) (auto simp: spin_queue_def)
  then show ?thesis using assms by (simp add: spin_queue_def distinct_card)
qed

lemma of_nat_16_inj: "i \<le> NR_CPUS \<Longrightarrow> j \<le> NR_CPUS \<Longrightarrow> (of_nat i :: u16) = of_nat j \<longleftrightarrow> i = j"
  by (auto simp: NR_CPUS_def word_of_nat_eq_iff take_bit_nat_eq_self)

text \<open>A CPU that waits or is inside stands in the queue, at the place its ticket tells.\<close>

lemma spin_queue_place:
  assumes "spin_queue s q" "spc s c = Waiting t"
  obtains i where "i < length q" "q ! i = c" "t = owner (slock s) + of_nat i"
proof -
  have "c \<in> set q" using assms by (auto simp: spin_queue_def)
  then obtain i where "i < length q" "q ! i = c" by (auto simp: in_set_conv_nth)
  then show thesis using assms by (intro that [of i]) (auto simp: spin_queue_def)
qed

lemma spin_queue_inside:
  assumes "spin_queue s q" "spc s c = Inside"
  shows "q \<noteq> [] \<and> hd q = c"
proof -
  have "c \<in> set q" using assms by (auto simp: spin_queue_def)
  then obtain i where i: "i < length q" "q ! i = c" by (auto simp: in_set_conv_nth)
  then have "spc s (q ! i) = Waiting (owner (slock s) + of_nat i) \<or> i = 0" using assms by (auto simp: spin_queue_def)
  then have "i = 0" using i assms by auto
  then show ?thesis using i by (auto simp: hd_conv_nth)
qed

lemma spin_queue_take:
  assumes "spin_queue s q" "c < NR_CPUS" "spc s c = Out"
  shows "spin_queue (spin_take c s) (q @ [c])"
proof -
  have "c \<notin> set q"
  proof
    assume "c \<in> set q"
    then obtain i where "i < length q" "q ! i = c" by (auto simp: in_set_conv_nth)
    then show False using assms by (auto simp: spin_queue_def)
  qed
  then show ?thesis
    using assms by (auto simp: spin_queue_def spin_take_def Let_def nth_append less_Suc_eq)
qed

lemma spin_queue_enter:
  assumes "spin_queue s q" "spc s c = Waiting t" "spin_served s t"
  shows "spin_queue (spin_enter c s) q \<and> q \<noteq> [] \<and> hd q = c"
proof -
  obtain i where i: "i < length q" "q ! i = c" "t = owner (slock s) + of_nat i"
    by (rule spin_queue_place [OF assms(1,2)])
  have "(of_nat i :: u16) = of_nat 0" using assms(3) i(3) by (simp add: spin_served_def)
  moreover have "i \<le> NR_CPUS" using i(1) spin_queue_length [OF assms(1)] by simp
  ultimately have i0: "i = 0" using of_nat_16_inj [of i 0] by simp
  have "q ! j = c \<longleftrightarrow> j = 0" if "j < length q" for j
    using assms(1) that i i0 nth_eq_iff_index_eq by (fastforce simp: spin_queue_def)
  moreover have "c \<in> set q" using i by auto
  ultimately show ?thesis
    using assms(1) i i0 by (auto simp: spin_queue_def spin_enter_def hd_conv_nth)
qed

lemma spin_queue_try_load:
  assumes "spin_queue s q" "spc s c = Out"
  shows "spin_queue (spin_try_load c s) q"
proof -
  have "c \<notin> set q"
  proof
    assume "c \<in> set q"
    then obtain i where "i < length q" "q ! i = c" by (auto simp: in_set_conv_nth)
    then show False using assms by (auto simp: spin_queue_def)
  qed
  then show ?thesis using assms by (auto simp: spin_queue_def spin_try_load_def Let_def)
qed

lemma spin_queue_try_cas:
  assumes "spin_queue s q" "c < NR_CPUS" "spc s c = Trying v w"
  shows "\<exists>q'. spin_queue (spin_try_cas c v w s) q' \<and> (q' = q \<or> q = [] \<and> q' = [c])"
proof -
  have nc: "c \<notin> set q"
  proof
    assume "c \<in> set q"
    then obtain i where "i < length q" "q ! i = c" by (auto simp: in_set_conv_nth)
    then show False using assms by (auto simp: spin_queue_def)
  qed
  have vw: "w = v" using assms nc by (auto simp: spin_queue_def)
  show ?thesis
  proof (cases "owner (slock s) = v \<and> nextt (slock s) = w")
    case True
    then have "(of_nat (length q) :: u16) = of_nat 0" using assms(1) vw by (auto simp: spin_queue_def)
    then have "q = []" using of_nat_16_inj [of "length q" 0] spin_queue_length [OF assms(1)] by simp
    then have "spin_queue (spin_try_cas c v w s) [c]"
      using assms True vw by (auto simp: spin_queue_def spin_try_cas_def)
    then show ?thesis using \<open>q = []\<close> by blast
  next
    case False
    then have "spin_queue (spin_try_cas c v w s) q"
      using assms nc by (auto simp: spin_queue_def spin_try_cas_def)
    then show ?thesis by blast
  qed
qed

lemma spin_queue_unlock:
  assumes "spin_queue s q" "spc s c = Inside"
  shows "spin_queue (spin_unlock c s) (tl q)"
proof -
  obtain r where q: "q = c # r" using spin_queue_inside [OF assms] by (cases q) auto
  have "spc s (r ! i) = Waiting (owner (slock s) + of_nat (Suc i))" if "i < length r" for i
    using assms(1) that unfolding spin_queue_def q by (auto dest!: spec [where x = "Suc i"])
  moreover have "r ! i \<noteq> c" if "i < length r" for i
    using assms(1) that by (auto simp: spin_queue_def q)
  ultimately show ?thesis
    using assms(1) by (auto simp: spin_queue_def q spin_unlock_def add.commute add.left_commute)
qed

lemma spin_reach_queue: "spin_reach s \<Longrightarrow> \<exists>q. spin_queue s q"
proof (induction rule: spin_reach.induct)
  case Init
  have "spin_queue spin_init []" by (simp add: spin_queue_def spin_init_def spin_lock_init_def)
  then show ?case by blast
next
  case (Step s s')
  then obtain q where q: "spin_queue s q" by blast
  from Step(2) show ?case
    using spin_queue_take [OF q] spin_queue_enter [OF q] spin_queue_try_load [OF q]
      spin_queue_try_cas [OF q] spin_queue_unlock [OF q]
    by (cases rule: spin_step.cases) blast+
qed


section \<open>Mutual exclusion and fairness\<close>

text \<open>
  C19: Ticket locks exclude and are fair.  In every reachable state at most one CPU is inside; a waiting
  CPU is at most seven releases away from being served, whatever the 16-bit tickets wrapped to; two
  waiting CPUs never have the same ticket; and the lock word reads as free exactly when nobody waits or
  is inside.
\<close>

theorem spinlock_correct:
  assumes "spin_reach s"
  shows "(spc s c = Inside \<longrightarrow> spc s d = Inside \<longrightarrow> c = d) \<and>
    (spc s c = Waiting t \<longrightarrow> unat (t - owner (slock s)) < NR_CPUS) \<and>
    (spc s c = Waiting t \<longrightarrow> spc s d = Waiting t \<longrightarrow> c = d) \<and>
    (spin_is_locked (slock s) \<longleftrightarrow> (\<exists>e. spc s e = Inside \<or> (\<exists>u. spc s e = Waiting u)))"
proof -
  obtain q where q: "spin_queue s q" using spin_reach_queue [OF assms] by blast
  have len: "length q \<le> NR_CPUS" by (rule spin_queue_length [OF q])
  have 1: "c = d" if "spc s c = Inside" "spc s d = Inside"
    using spin_queue_inside [OF q that(1)] spin_queue_inside [OF q that(2)] by simp
  have 2: "unat (t - owner (slock s)) < NR_CPUS" if w: "spc s c = Waiting t"
  proof -
    obtain i where i: "i < length q" "q ! i = c" "t = owner (slock s) + of_nat i" by (rule spin_queue_place [OF q w])
    then have "unat (t - owner (slock s)) = i"
      using len by (simp add: NR_CPUS_def unat_of_nat)
    then show ?thesis using i len by simp
  qed
  have 3: "c = d" if cd: "spc s c = Waiting t" "spc s d = Waiting t"
  proof -
    obtain i where i: "i < length q" "q ! i = c" "t = owner (slock s) + of_nat i" by (rule spin_queue_place [OF q cd(1)])
    obtain j where j: "j < length q" "q ! j = d" "t = owner (slock s) + of_nat j" by (rule spin_queue_place [OF q cd(2)])
    have "(of_nat i :: u16) = of_nat j" using i(3) j(3) by simp
    then show ?thesis using i j len of_nat_16_inj [of i j] by simp
  qed
  have "spin_is_locked (slock s) \<longleftrightarrow> (of_nat (length q) :: u16) \<noteq> of_nat 0"
    using q by (simp add: spin_is_locked_def spin_queue_def)
  also have "\<dots> \<longleftrightarrow> q \<noteq> []" using of_nat_16_inj [OF len, of 0] by simp
  also have "\<dots> \<longleftrightarrow> (\<exists>e. spc s e = Inside \<or> (\<exists>u. spc s e = Waiting u))"
  proof
    assume "q \<noteq> []"
    then show "\<exists>e. spc s e = Inside \<or> (\<exists>u. spc s e = Waiting u)" using q by (force simp: spin_queue_def)
  next
    assume "\<exists>e. spc s e = Inside \<or> (\<exists>u. spc s e = Waiting u)"
    then obtain e where "spc s e = Inside \<or> (\<exists>u. spc s e = Waiting u)" by blast
    then have "e \<in> set q" using q by (auto simp: spin_queue_def)
    then show "q \<noteq> []" by auto
  qed
  finally show ?thesis using 1 2 3 by blast
qed

text \<open>Two CPUs contend: one is inside, the other waits with the next ticket.\<close>

definition contended :: spin where
  "contended = spin_take 1 (spin_enter 0 (spin_take 0 spin_init))"

lemma contended_reach: "spin_reach contended"
proof -
  let ?s1 = "spin_take 0 spin_init" and ?s2 = "spin_enter 0 (spin_take 0 spin_init)"
  have "spin_reach ?s1"
    by (rule spin_reach.Step [OF spin_reach.Init spin_step.Take]) (simp_all add: NR_CPUS_def spin_init_def)
  moreover have "spin_step ?s1 ?s2"
    by (rule spin_step.Enter [where ticket = 0])
      (simp_all add: NR_CPUS_def spin_init_def spin_take_def spin_served_def spin_lock_init_def Let_def)
  moreover have "spin_step ?s2 contended" unfolding contended_def
    by (rule spin_step.Take) (simp_all add: NR_CPUS_def spin_init_def spin_take_def spin_enter_def Let_def)
  ultimately show ?thesis by (blast intro: spin_reach.Step)
qed

theorem spinlock_correct_witness:
  "spc contended 0 = Inside \<and> spc contended 1 = Waiting 1 \<and>
   spc contended 1 \<noteq> Inside \<and> unat (1 - owner (slock contended)) < NR_CPUS"
proof -
  have "spc contended 0 = Inside" "spc contended 1 = Waiting 1"
    by (simp_all add: contended_def spin_init_def spin_take_def spin_enter_def spin_lock_init_def Let_def)
  then show ?thesis
    using spinlock_correct [OF contended_reach, of 0 1 1] spinlock_correct [OF contended_reach, of 1 1 1] by simp
qed

end
