(* ===== verification/Olux_Sched.thy ===== *)
theory Olux_Sched
  imports Olux_String Olux_Spinlock "HOL-Library.Signed_Division"
begin

text \<open>
  The scheduler (kernel/sched.c): threads, per-CPU run queues with a priority bitmap, wake-ups, context
  switches, ticks and policy changes, and the scheduling system calls of kernel/sys.c.  Threads and CPUs
  are named by numbers; a run queue is the list of the threads linked into it.  Every operation runs
  under the run-queue lock of the CPU it changes, so an operation is one step; the CPU that executes it
  is the argument \<open>me\<close>.
\<close>

section \<open>Threads and CPUs\<close>

type_synonym tref = nat

definition TASK_RUNNING :: u64 where "TASK_RUNNING = 0"
definition TASK_INTERRUPTIBLE :: u64 where "TASK_INTERRUPTIBLE = 1"
definition TASK_UNINTERRUPTIBLE :: u64 where "TASK_UNINTERRUPTIBLE = 2"
definition TASK_STOPPED :: u64 where "TASK_STOPPED = 4"
definition TASK_DEAD :: u64 where "TASK_DEAD = 16"

lemmas task_defs = TASK_RUNNING_def TASK_INTERRUPTIBLE_def TASK_UNINTERRUPTIBLE_def TASK_STOPPED_def TASK_DEAD_def

definition NR_PRIO :: nat where "NR_PRIO = 32"
definition PRIO_RT_LOWEST :: int where "PRIO_RT_LOWEST = 23"
definition PRIO_NORMAL :: int where "PRIO_NORMAL = 27"
definition PRIO_IDLE :: int where "PRIO_IDLE = 31"
definition SCHED_OTHER :: int where "SCHED_OTHER = 0"
definition SCHED_FIFO :: int where "SCHED_FIFO = 1"
definition SCHED_RR :: int where "SCHED_RR = 2"
definition SCHED_BATCH :: int where "SCHED_BATCH = 3"
definition SCHED_IDLE :: int where "SCHED_IDLE = 5"
definition RR_TIMESLICE_TICKS :: int where "RR_TIMESLICE_TICKS = 5"
definition TICK_NSEC :: u64 where "TICK_NSEC = 4000000"
definition HZ :: u64 where "HZ = 250"
definition THREAD_STACK_SIZE :: u64 where "THREAD_STACK_SIZE = 16384"
definition S_FRAME_SIZE :: u64 where "S_FRAME_SIZE = 304"

lemmas prio_defs = PRIO_RT_LOWEST_def PRIO_NORMAL_def PRIO_IDLE_def NR_PRIO_def
lemmas policy_defs = SCHED_OTHER_def SCHED_FIFO_def SCHED_RR_def SCHED_BATCH_def SCHED_IDLE_def

text \<open>The register contents a switch saves and loads; the FP/SIMD file is one opaque value.\<close>

record regs =
  rfpsimd :: nat
  rtpidr :: u64
  rtpidrro :: u64

record thread =
  uregs :: regs
  ctx_x19 :: u64
  ctx_x20 :: u64
  ctx_sp :: u64
  ctx_pc :: u64
  tstate :: u64
  on_cpu :: bool
  on_rq :: bool
  tcpu :: nat
  cpus_allowed :: u64
  policy :: int
  prio :: nat
  rt_priority :: int
  nice :: int
  timeslice :: int
  tid :: int
  tname :: cstr
  kthread :: bool
  tmm :: "nat option"
  trefcount :: int
  kstack_top :: u64
  user_regs :: u64
  bkl_depth :: int
  utime :: u64
  stime :: u64
  start_time :: u64
  last_switch :: u64
  nvcsw :: u64
  nivcsw :: u64

record cpu =
  online :: bool
  curr :: "tref option"
  idle :: "tref option"
  runqueue :: "nat \<Rightarrow> tref list"
  rq_bitmap :: u32
  nr_running :: nat
  need_resched :: bool
  ticks :: u64
  idle_ticks :: u64
  ctx_switches :: u64
  hw_regs :: regs
  hw_mm :: "nat option"

record sched =
  threads :: "tref \<Rightarrow> thread"
  cpus :: "nat \<Rightarrow> cpu"
  nr_cpus_possible :: nat
  all_threads :: "tref list"
  next_tid :: int
  load_avg :: "u64 list"
  bkl :: "tref option"
  ipis :: "nat list"

definition upd_cpu :: "nat \<Rightarrow> (cpu \<Rightarrow> cpu) \<Rightarrow> sched \<Rightarrow> sched" where
  "upd_cpu c f s = s\<lparr>cpus := (cpus s)(c := f (cpus s c))\<rparr>"

definition upd_thread :: "tref \<Rightarrow> (thread \<Rightarrow> thread) \<Rightarrow> sched \<Rightarrow> sched" where
  "upd_thread t f s = s\<lparr>threads := (threads s)(t := f (threads s t))\<rparr>"

lemma sched_upd_simps [simp]:
  "threads (upd_cpu c g s) = threads s" "cpus (upd_thread t f s) = cpus s"
  "cpus (upd_cpu c g s) d = (if d = c then g (cpus s c) else cpus s d)"
  "threads (upd_thread t f s) u = (if u = t then f (threads s t) else threads s u)"
  "nr_cpus_possible (upd_cpu c g s) = nr_cpus_possible s" "nr_cpus_possible (upd_thread t f s) = nr_cpus_possible s"
  "all_threads (upd_cpu c g s) = all_threads s" "all_threads (upd_thread t f s) = all_threads s"
  "bkl (upd_cpu c g s) = bkl s" "bkl (upd_thread t f s) = bkl s"
  by (simp_all add: upd_cpu_def upd_thread_def)


section \<open>The big kernel lock\<close>

text \<open>\<open>None\<close>: the lock is taken and the caller spins.\<close>

definition lock_kernel :: "tref \<Rightarrow> sched \<Rightarrow> sched option" where
  "lock_kernel t s =
     (let d = bkl_depth (threads s t); s1 = upd_thread t (\<lambda>x. x\<lparr>bkl_depth := d + 1\<rparr>) s
      in if d = 0 then (if bkl s = None then Some (s1\<lparr>bkl := Some t\<rparr>) else None) else Some s1)"

definition unlock_kernel :: "tref \<Rightarrow> sched \<Rightarrow> sched kres" where
  "unlock_kernel t s =
     (let d = bkl_depth (threads s t) in
      if d \<le> 0 then Inl ''BUG''
      else let s1 = upd_thread t (\<lambda>x. x\<lparr>bkl_depth := d - 1\<rparr>) s
           in Inr (if d - 1 = 0 then s1\<lparr>bkl := None\<rparr> else s1))"

definition kernel_locked :: "tref \<Rightarrow> sched \<Rightarrow> bool" where
  "kernel_locked t s \<longleftrightarrow> 0 < bkl_depth (threads s t)"


section \<open>Run queues\<close>

definition enqueue :: "nat \<Rightarrow> tref \<Rightarrow> bool \<Rightarrow> sched \<Rightarrow> sched" where
  "enqueue c t head s =
     (let p = prio (threads s t) in
      upd_thread t (\<lambda>x. x\<lparr>on_rq := True, tcpu := c\<rparr>)
        (upd_cpu c (\<lambda>r. r\<lparr>runqueue := (runqueue r)(p := (if head then t # runqueue r p else runqueue r p @ [t])),
                          rq_bitmap := rq_bitmap r OR push_bit p 1,
                          nr_running := nr_running r + 1\<rparr>) s))"

text \<open>\<^verbatim>\<open>list_del\<close> unlinks the thread from the queue of its priority, where \<^verbatim>\<open>enqueue\<close> put it.\<close>

definition dequeue :: "nat \<Rightarrow> tref \<Rightarrow> sched \<Rightarrow> sched" where
  "dequeue c t s =
     (let p = prio (threads s t) in
      upd_thread t (\<lambda>x. x\<lparr>on_rq := False\<rparr>)
        (upd_cpu c (\<lambda>r. let q = remove1 t (runqueue r p) in
             r\<lparr>runqueue := (runqueue r)(p := q),
               rq_bitmap := (if q = [] then rq_bitmap r AND NOT (push_bit p 1) else rq_bitmap r),
               nr_running := nr_running r - 1\<rparr>) s))"

text \<open>\<^verbatim>\<open>__builtin_ctz\<close>: the number of the lowest set bit.\<close>

definition ctz :: "u32 \<Rightarrow> nat" where
  "ctz w = hd (filter (bit w) [0 ..< 32] @ [32])"

definition pick_next :: "nat \<Rightarrow> sched \<Rightarrow> tref option \<times> sched" where
  "pick_next c s =
     (let r = cpus s c in
      if rq_bitmap r = 0 then (None, s)
      else let t = hd (runqueue r (ctz (rq_bitmap r))) in (Some t, dequeue c t s))"

definition curr_prio :: "nat \<Rightarrow> sched \<Rightarrow> nat" where
  "curr_prio c s =
     (case curr (cpus s c) of
        None \<Rightarrow> NR_PRIO
      | Some t \<Rightarrow> if curr (cpus s c) = idle (cpus s c) then NR_PRIO else prio (threads s t))"

definition smp_send_reschedule :: "nat \<Rightarrow> sched \<Rightarrow> sched" where
  "smp_send_reschedule c s = s\<lparr>ipis := ipis s @ [c]\<rparr>"

definition resched_cpu :: "nat \<Rightarrow> nat \<Rightarrow> sched \<Rightarrow> sched" where
  "resched_cpu me c s =
     (let s1 = upd_cpu c (\<lambda>r. r\<lparr>need_resched := True\<rparr>) s
      in if c = me then s1 else smp_send_reschedule c s1)"

definition set_need_resched :: "nat \<Rightarrow> sched \<Rightarrow> sched" where
  "set_need_resched me s = upd_cpu me (\<lambda>r. r\<lparr>need_resched := True\<rparr>) s"

definition cpu_idle_now :: "cpu \<Rightarrow> bool" where
  "cpu_idle_now r \<longleftrightarrow> curr r = idle r \<and> nr_running r = 0"

fun select_loop :: "sched \<Rightarrow> u64 \<Rightarrow> nat list \<Rightarrow> nat option \<Rightarrow> nat option" where
  "select_loop s allowed [] best = best"
| "select_loop s allowed (i # is) best =
     (if \<not> online (cpus s i) \<or> \<not> bit allowed i then select_loop s allowed is best
      else if cpu_idle_now (cpus s i) then Some i
      else select_loop s allowed is
             (case best of None \<Rightarrow> Some i
              | Some b \<Rightarrow> if nr_running (cpus s i) < nr_running (cpus s b) then Some i else Some b))"

definition select_cpu :: "tref \<Rightarrow> sched \<Rightarrow> nat" where
  "select_cpu t s =
     (let x = threads s t; prev = tcpu x in
      if online (cpus s prev) \<and> bit (cpus_allowed x) prev \<and> cpu_idle_now (cpus s prev) then prev
      else case select_loop s (cpus_allowed x) [0 ..< nr_cpus_possible s] None of
             Some b \<Rightarrow> b
           | None \<Rightarrow> prev)"

definition activate :: "nat \<Rightarrow> tref \<Rightarrow> sched \<Rightarrow> sched" where
  "activate me t s =
     (let target = select_cpu t s;
          s1 = enqueue target t False s
      in if prio (threads s1 t) < curr_prio target s1 then resched_cpu me target s1 else s1)"

definition try_to_wake_up :: "nat \<Rightarrow> tref \<Rightarrow> u64 \<Rightarrow> sched \<Rightarrow> bool \<times> sched" where
  "try_to_wake_up me t state_mask s =
     (if \<not> has_flag (tstate (threads s t)) state_mask then (False, s)
      else let s1 = upd_thread t (\<lambda>x. x\<lparr>tstate := TASK_RUNNING\<rparr>) s in
           if on_rq (threads s1 t) \<or> on_cpu (threads s1 t) then (True, s1)
           else (True, activate me t s1))"

definition wake_up_thread :: "nat \<Rightarrow> tref \<Rightarrow> sched \<Rightarrow> sched" where
  "wake_up_thread me t s = snd (try_to_wake_up me t (TASK_INTERRUPTIBLE OR TASK_UNINTERRUPTIBLE OR TASK_STOPPED) s)"

definition sched_add_new :: "nat \<Rightarrow> tref \<Rightarrow> sched \<Rightarrow> sched" where
  "sched_add_new me t s = activate me t (upd_thread t (\<lambda>x. x\<lparr>tstate := TASK_RUNNING\<rparr>) s)"


section \<open>Thread references\<close>

definition thread_get :: "tref \<Rightarrow> sched \<Rightarrow> sched" where
  "thread_get t s = upd_thread t (\<lambda>x. x\<lparr>trefcount := trefcount x + 1\<rparr>) s"

definition thread_free :: "tref \<Rightarrow> sched \<Rightarrow> sched" where
  "thread_free t s = s\<lparr>all_threads := remove1 t (all_threads s)\<rparr>"

definition thread_put :: "tref \<Rightarrow> sched \<Rightarrow> sched" where
  "thread_put t s =
     (let s1 = upd_thread t (\<lambda>x. x\<lparr>trefcount := trefcount x - 1\<rparr>) s
      in if trefcount (threads s1 t) = 0 then thread_free t s1 else s1)"

definition thread_find :: "int \<Rightarrow> sched \<Rightarrow> tref option" where
  "thread_find i s = find (\<lambda>t. tid (threads s t) = i \<and> tstate (threads s t) \<noteq> TASK_DEAD) (all_threads s)"


section \<open>Context switch\<close>

definition finish_switch :: "tref \<Rightarrow> sched \<Rightarrow> sched" where
  "finish_switch prev s =
     (let s1 = upd_thread prev (\<lambda>x. x\<lparr>on_cpu := False\<rparr>) s
      in if tstate (threads s1 prev) = TASK_DEAD then thread_put prev s1 else s1)"

definition schedule_tail :: "tref \<Rightarrow> sched \<Rightarrow> sched" where
  "schedule_tail prev s = finish_switch prev s"

definition switch_mm :: "nat \<Rightarrow> nat option \<Rightarrow> nat option \<Rightarrow> sched \<Rightarrow> sched" where
  "switch_mm me prev next s = (if prev = next then s else upd_cpu me (\<lambda>r. r\<lparr>hw_mm := next\<rparr>) s)"

definition switch_regs :: "nat \<Rightarrow> tref \<Rightarrow> tref \<Rightarrow> sched \<Rightarrow> sched" where
  "switch_regs me prev next s =
     (let s1 = (if kthread (threads s prev) then s
                else upd_thread prev (\<lambda>x. x\<lparr>uregs := hw_regs (cpus s me)\<rparr>) s)
      in if kthread (threads s1 next) then s1
         else upd_cpu me (\<lambda>r. r\<lparr>hw_regs := uregs (threads s1 next)\<rparr>) s1)"

definition switch_to :: "nat \<Rightarrow> u64 \<Rightarrow> tref \<Rightarrow> tref \<Rightarrow> sched \<Rightarrow> sched" where
  "switch_to me now prev next s =
     (let s1 = upd_thread prev (\<lambda>x. x\<lparr>last_switch := now\<rparr>) s;
          s2 = upd_thread next (\<lambda>x. x\<lparr>last_switch := now\<rparr>) s1;
          s3 = upd_thread prev (\<lambda>x. if tstate x = TASK_RUNNING then x\<lparr>nivcsw := nivcsw x + 1\<rparr>
                                     else x\<lparr>nvcsw := nvcsw x + 1\<rparr>) s2;
          s4 = upd_cpu me (\<lambda>r. r\<lparr>ctx_switches := ctx_switches r + 1, curr := Some next\<rparr>) s3;
          s5 = upd_thread next (\<lambda>x. x\<lparr>on_cpu := True, tcpu := me\<rparr>) s4;
          s6 = switch_regs me prev next s5;
          s7 = switch_mm me (tmm (threads s6 prev)) (tmm (threads s6 next)) s6
      in finish_switch prev s7)"

definition requeue_prev :: "nat \<Rightarrow> tref \<Rightarrow> sched \<Rightarrow> sched" where
  "requeue_prev me prev s =
     (if tstate (threads s prev) = TASK_RUNNING \<and> Some prev \<noteq> idle (cpus s me)
      then upd_thread prev (\<lambda>x. if timeslice x \<le> 0 then x\<lparr>timeslice := RR_TIMESLICE_TICKS\<rparr> else x)
             (enqueue me prev (policy (threads s prev) = SCHED_FIFO) s)
      else s)"

text \<open>
  \<^verbatim>\<open>schedule\<close> up to the point where the chosen thread runs.  The caller's hold of the big kernel lock is
  dropped first; it takes it again (\<open>relock_kernel\<close>) when it runs next.
\<close>

definition drop_bkl :: "tref \<Rightarrow> sched \<Rightarrow> sched" where
  "drop_bkl prev s = (if bkl_depth (threads s prev) \<noteq> 0 then s\<lparr>bkl := None\<rparr> else s)"

definition relock_kernel :: "tref \<Rightarrow> sched \<Rightarrow> sched option" where
  "relock_kernel t s =
     (if bkl_depth (threads s t) = 0 then Some s else if bkl s = None then Some (s\<lparr>bkl := Some t\<rparr>) else None)"

definition schedule :: "nat \<Rightarrow> u64 \<Rightarrow> sched \<Rightarrow> sched" where
  "schedule me now s =
     (let prev = the (curr (cpus s me));
          s1 = drop_bkl prev s;
          s2 = upd_cpu me (\<lambda>r. r\<lparr>need_resched := False\<rparr>) s1;
          s3 = requeue_prev me prev s2
      in case pick_next me s3 of
           (picked, s4) \<Rightarrow>
             let next = (case picked of Some t \<Rightarrow> t | None \<Rightarrow> the (idle (cpus s4 me)))
             in if next \<noteq> prev then switch_to me now prev next s4 else s4)"

definition yield :: "nat \<Rightarrow> u64 \<Rightarrow> sched \<Rightarrow> sched" where
  "yield me now s = schedule me now (upd_thread (the (curr (cpus s me))) (\<lambda>x. x\<lparr>timeslice := 0\<rparr>) s)"

definition cond_resched :: "nat \<Rightarrow> u64 \<Rightarrow> sched \<Rightarrow> sched" where
  "cond_resched me now s = (if need_resched (cpus s me) then schedule me now s else s)"


section \<open>Accounting and ticks\<close>

definition nr_running_total :: "sched \<Rightarrow> u64" where
  "nr_running_total s =
     fold (\<lambda>i n. n + of_nat (nr_running (cpus s i)) +
                  (if curr (cpus s i) \<noteq> idle (cpus s i) \<and> online (cpus s i) then 1 else 0))
       [0 ..< nr_cpus_possible s] 0"

definition load_exp :: "u64 list" where
  "load_exp = [60410, 64453, 65173]"

definition calc_load :: "sched \<Rightarrow> sched" where
  "calc_load s =
     (let n = push_bit 16 (nr_running_total s)
      in s\<lparr>load_avg := map2 (\<lambda>v e. drop_bit 16 (v * e + n * (65536 - e))) (load_avg s) load_exp\<rparr>)"

definition tick_slice :: "nat \<Rightarrow> tref \<Rightarrow> sched \<Rightarrow> sched" where
  "tick_slice me t s =
     (if policy (threads s t) = SCHED_FIFO then s
      else let ts = timeslice (threads s t) - 1; s1 = upd_thread t (\<lambda>x. x\<lparr>timeslice := ts\<rparr>) s in
           if 0 < ts then s1
           else let s2 = upd_thread t (\<lambda>x. x\<lparr>timeslice := 0\<rparr>) s1; r = cpus s2 me in
                if rq_bitmap r \<noteq> 0 \<and> ctz (rq_bitmap r) \<le> prio (threads s2 t)
                then upd_cpu me (\<lambda>r. r\<lparr>need_resched := True\<rparr>) s2
                else upd_thread t (\<lambda>x. x\<lparr>timeslice := RR_TIMESLICE_TICKS\<rparr>) s2)"

text \<open>\<open>user\<close>: the interrupted frame is a user frame.\<close>

definition scheduler_tick :: "nat \<Rightarrow> bool \<Rightarrow> sched \<Rightarrow> sched" where
  "scheduler_tick me user s =
     (let s1 = (if me = 0 \<and> ticks (cpus s me) mod (5 * HZ) = 0 then calc_load s else s);
          t = the (curr (cpus s1 me));
          s2 = upd_cpu me (\<lambda>r. r\<lparr>ticks := ticks r + 1\<rparr>) s1
      in if curr (cpus s2 me) = idle (cpus s2 me)
         then upd_cpu me (\<lambda>r. r\<lparr>idle_ticks := idle_ticks r + 1,
                                 need_resched := (if nr_running r \<noteq> 0 then True else need_resched r)\<rparr>) s2
         else tick_slice me t
                (upd_thread t (\<lambda>x. if user then x\<lparr>utime := utime x + TICK_NSEC\<rparr> else x\<lparr>stime := stime x + TICK_NSEC\<rparr>) s2))"


section \<open>Policy\<close>

definition CLAMP :: "int \<Rightarrow> int \<Rightarrow> int \<Rightarrow> int" where
  "CLAMP v lo hi = min (max v lo) hi"

definition compute_prio :: "int \<Rightarrow> int \<Rightarrow> int \<Rightarrow> int" where
  "compute_prio pol rt_prio nic =
     (if pol = SCHED_FIFO \<or> pol = SCHED_RR then PRIO_RT_LOWEST - ((rt_prio - 1) * PRIO_RT_LOWEST) sdiv 98
      else if pol = SCHED_IDLE then PRIO_IDLE
      else CLAMP (PRIO_NORMAL + nic sdiv 7) (PRIO_RT_LOWEST + 1) (PRIO_IDLE - 1))"

definition sched_args_ok :: "int \<Rightarrow> int \<Rightarrow> bool" where
  "sched_args_ok pol pr \<longleftrightarrow>
     (if pol = SCHED_FIFO \<or> pol = SCHED_RR then 1 \<le> pr \<and> pr \<le> 99
      else if pol = SCHED_OTHER \<or> pol = SCHED_BATCH \<or> pol = SCHED_IDLE then pr = 0
      else False)"

definition sched_setscheduler :: "nat \<Rightarrow> tref \<Rightarrow> int \<Rightarrow> int \<Rightarrow> sched \<Rightarrow> (errno + unit) \<times> sched" where
  "sched_setscheduler me t pol pr s =
     (if \<not> sched_args_ok pol pr then (Inl EINVAL, s)
      else let rq = tcpu (threads s t);
               queued = on_rq (threads s t);
               s1 = (if queued then dequeue rq t s else s);
               s2 = upd_thread t (\<lambda>x. x\<lparr>policy := pol, rt_priority := pr, prio := nat (compute_prio pol pr (nice x))\<rparr>) s1;
               s3 = (if queued then enqueue rq t False s2 else s2);
               s4 = (if queued \<and> prio (threads s3 t) < curr_prio rq s3 then resched_cpu me rq s3 else s3)
           in (Inr (), s4))"

definition sched_getscheduler :: "tref \<Rightarrow> sched \<Rightarrow> int" where
  "sched_getscheduler t s = policy (threads s t)"

definition sched_set_nice :: "nat \<Rightarrow> tref \<Rightarrow> int \<Rightarrow> sched \<Rightarrow> sched" where
  "sched_set_nice me t n s =
     (let s1 = upd_thread t (\<lambda>x. x\<lparr>nice := CLAMP n (- 20) 19\<rparr>) s; pol = policy (threads s1 t)
      in if pol = SCHED_OTHER \<or> pol = SCHED_BATCH then snd (sched_setscheduler me t pol 0 s1) else s1)"


section \<open>Creating threads\<close>

definition blank_thread :: thread where
  "blank_thread = \<lparr>uregs = \<lparr>rfpsimd = 0, rtpidr = 0, rtpidrro = 0\<rparr>, ctx_x19 = 0, ctx_x20 = 0, ctx_sp = 0, ctx_pc = 0,
     tstate = 0, on_cpu = False, on_rq = False, tcpu = 0, cpus_allowed = 0, policy = 0, prio = 0, rt_priority = 0,
     nice = 0, timeslice = 0, tid = 0, tname = [], kthread = False, tmm = None, trefcount = 0, kstack_top = 0,
     user_regs = 0, bkl_depth = 0, utime = 0, stime = 0, start_time = 0, last_switch = 0, nvcsw = 0, nivcsw = 0\<rparr>"

text \<open>
  \<open>obj\<close> and \<open>stack\<close> are what \<^verbatim>\<open>kzalloc\<close> and \<^verbatim>\<open>vmap_stack\<close> returned, \<open>entry\<close> is the address of \<^verbatim>\<open>ret_from_fork\<close>.
\<close>

definition thread_alloc ::
  "nat \<Rightarrow> cstr \<Rightarrow> tref option \<Rightarrow> u64 option \<Rightarrow> u64 \<Rightarrow> u64 \<Rightarrow> sched \<Rightarrow> tref option \<times> sched" where
  "thread_alloc me name obj stack entry now s =
     (case obj of
        None \<Rightarrow> (None, s)
      | Some t \<Rightarrow>
          (case stack of
             None \<Rightarrow> (None, s)
           | Some sp0 \<Rightarrow>
               let x = blank_thread\<lparr>kstack_top := sp0, tid := next_tid s + 1, tname := take 15 name,
                         tstate := TASK_UNINTERRUPTIBLE, policy := SCHED_OTHER, prio := nat PRIO_NORMAL,
                         timeslice := RR_TIMESLICE_TICKS, cpus_allowed := - 1, tcpu := me, trefcount := 1,
                         user_regs := sp0 - S_FRAME_SIZE, ctx_sp := sp0 - S_FRAME_SIZE, ctx_pc := entry,
                         start_time := now\<rparr>
               in (Some t, (upd_thread t (\<lambda>_. x) s)\<lparr>next_tid := next_tid s + 1, all_threads := all_threads s @ [t]\<rparr>)))"

definition kthread_create ::
  "nat \<Rightarrow> u64 \<Rightarrow> u64 \<Rightarrow> cstr \<Rightarrow> tref option \<Rightarrow> u64 option \<Rightarrow> u64 \<Rightarrow> u64 \<Rightarrow> sched \<Rightarrow> tref option \<times> sched" where
  "kthread_create me fn arg name obj stack entry now s =
     (case thread_alloc me name obj stack entry now s of
        (None, s1) \<Rightarrow> (None, s1)
      | (Some t, s1) \<Rightarrow>
          (Some t, upd_thread t (\<lambda>x. x\<lparr>kthread := True, tmm := None, ctx_x19 := fn, ctx_x20 := arg\<rparr>) s1))"


section \<open>Start-up\<close>

definition rq_init :: "cpu \<Rightarrow> cpu" where
  "rq_init r = r\<lparr>runqueue := (\<lambda>_. []), rq_bitmap := 0, nr_running := 0\<rparr>"

definition idle_thread :: "nat \<Rightarrow> thread" where
  "idle_thread c = blank_thread\<lparr>tid := 0, kthread := True, tstate := TASK_RUNNING, on_cpu := True, tcpu := c,
     prio := NR_PRIO, cpus_allowed := push_bit c 1, trefcount := 1\<rparr>"

text \<open>\<open>obj\<close> is what \<^verbatim>\<open>kzalloc\<close> returned for the idle thread; its printed name is left empty.\<close>

definition sched_cpu_init :: "nat \<Rightarrow> tref option \<Rightarrow> sched \<Rightarrow> sched kres" where
  "sched_cpu_init me obj s =
     (let s1 = upd_cpu me rq_init s in
      case obj of
        None \<Rightarrow> Inl ''sched: no memory for idle thread''
      | Some t \<Rightarrow> Inr (upd_cpu me (\<lambda>r. r\<lparr>idle := Some t, curr := Some t\<rparr>) (upd_thread t (\<lambda>_. idle_thread me) s1)))"

definition sched_init :: "nat \<Rightarrow> tref option \<Rightarrow> sched \<Rightarrow> sched kres" where
  "sched_init me obj s = sched_cpu_init me obj s"

text \<open>One round of the idle loop; \<open>True\<close> tells that the CPU waited for an interrupt first.\<close>

definition cpu_idle_round :: "nat \<Rightarrow> u64 \<Rightarrow> sched \<Rightarrow> bool \<times> sched" where
  "cpu_idle_round me now s =
     (\<not> need_resched (cpus s me) \<and> nr_running (cpus s me) = 0, schedule me now s)"


section \<open>System calls\<close>

definition sched_target :: "nat \<Rightarrow> u64 \<Rightarrow> sched \<Rightarrow> tref option" where
  "sched_target me pid s =
     (if pid = 0 then curr (cpus s me) else thread_find (sint (ucast pid :: 32 word)) s)"

definition sys_sched_yield :: "nat \<Rightarrow> u64 \<Rightarrow> sched \<Rightarrow> sched" where
  "sys_sched_yield me now s = yield me now s"

text \<open>\<open>uparam\<close> is the 32-bit value at the user address, \<open>None\<close> if it cannot be read; \<open>root\<close> is \<^verbatim>\<open>capable_root()\<close>.\<close>

definition sys_sched_setscheduler ::
  "nat \<Rightarrow> bool \<Rightarrow> u64 \<Rightarrow> u64 \<Rightarrow> int option \<Rightarrow> sched \<Rightarrow> (errno + unit) \<times> sched" where
  "sys_sched_setscheduler me root pid pol uparam s =
     (case sched_target me pid s of
        None \<Rightarrow> (Inl ESRCH, s)
      | Some t \<Rightarrow>
          (case uparam of
             None \<Rightarrow> (Inl EFAULT, s)
           | Some pr \<Rightarrow>
               if (pol = word_of_int SCHED_FIFO \<or> pol = word_of_int SCHED_RR) \<and> \<not> root then (Inl EPERM, s)
               else sched_setscheduler me t (sint (ucast (pol AND NOT 0x40000000) :: 32 word)) pr s))"

definition sys_sched_setparam :: "nat \<Rightarrow> u64 \<Rightarrow> int option \<Rightarrow> sched \<Rightarrow> (errno + unit) \<times> sched" where
  "sys_sched_setparam me pid uparam s =
     (case sched_target me pid s of
        None \<Rightarrow> (Inl ESRCH, s)
      | Some t \<Rightarrow> (case uparam of None \<Rightarrow> (Inl EFAULT, s) | Some pr \<Rightarrow> sched_setscheduler me t (policy (threads s t)) pr s))"

definition sys_sched_getscheduler :: "nat \<Rightarrow> u64 \<Rightarrow> sched \<Rightarrow> errno + int" where
  "sys_sched_getscheduler me pid s =
     (case sched_target me pid s of None \<Rightarrow> Inl ESRCH | Some t \<Rightarrow> Inr (policy (threads s t)))"

definition sys_sched_getparam :: "nat \<Rightarrow> u64 \<Rightarrow> sched \<Rightarrow> errno + int" where
  "sys_sched_getparam me pid s =
     (case sched_target me pid s of None \<Rightarrow> Inl ESRCH | Some t \<Rightarrow> Inr (rt_priority (threads s t)))"

definition sys_sched_get_priority_max :: "u64 \<Rightarrow> int" where
  "sys_sched_get_priority_max pol = (if pol = word_of_int SCHED_FIFO \<or> pol = word_of_int SCHED_RR then 99 else 0)"

definition sys_sched_get_priority_min :: "u64 \<Rightarrow> int" where
  "sys_sched_get_priority_min pol = (if pol = word_of_int SCHED_FIFO \<or> pol = word_of_int SCHED_RR then 1 else 0)"

definition online_mask :: "sched \<Rightarrow> u64" where
  "online_mask s = fold (\<lambda>i m. if online (cpus s i) then m OR push_bit i 1 else m) [0 ..< nr_cpus_possible s] 0"

definition sys_sched_setaffinity :: "nat \<Rightarrow> u64 \<Rightarrow> u64 \<Rightarrow> u64 option \<Rightarrow> sched \<Rightarrow> (errno + unit) \<times> sched" where
  "sys_sched_setaffinity me now pid umask s =
     (case sched_target me pid s of
        None \<Rightarrow> (Inl ESRCH, s)
      | Some t \<Rightarrow>
          (case umask of
             None \<Rightarrow> (Inl EFAULT, s)
           | Some m \<Rightarrow>
               if m AND online_mask s = 0 then (Inl EINVAL, s)
               else let s1 = upd_thread t (\<lambda>x. x\<lparr>cpus_allowed := m AND online_mask s\<rparr>) s
                    in (Inr (), if curr (cpus s1 me) = Some t \<and> \<not> bit m me then yield me now s1 else s1)))"

definition sys_sched_getaffinity :: "nat \<Rightarrow> u64 \<Rightarrow> u64 \<Rightarrow> sched \<Rightarrow> errno + u64" where
  "sys_sched_getaffinity me pid len s =
     (case sched_target me pid s of
        None \<Rightarrow> Inl ESRCH
      | Some t \<Rightarrow> if len < 8 then Inl EINVAL else Inr (cpus_allowed (threads s t) AND online_mask s))"

definition sys_getpriority :: "nat \<Rightarrow> u64 \<Rightarrow> u64 \<Rightarrow> sched \<Rightarrow> errno + int" where
  "sys_getpriority me which who s =
     (if which \<noteq> 0 then Inl EINVAL
      else case sched_target me who s of None \<Rightarrow> Inl ESRCH | Some t \<Rightarrow> Inr (20 - nice (threads s t)))"

definition sys_setpriority :: "nat \<Rightarrow> bool \<Rightarrow> u64 \<Rightarrow> u64 \<Rightarrow> u64 \<Rightarrow> sched \<Rightarrow> (errno + unit) \<times> sched" where
  "sys_setpriority me root which who pr s =
     (if which \<noteq> 0 then (Inl EINVAL, s)
      else case sched_target me who s of
             None \<Rightarrow> (Inl ESRCH, s)
           | Some t \<Rightarrow>
               let n = CLAMP (sint (ucast pr :: 32 word)) (- 20) 19
               in if n < nice (threads s t) \<and> \<not> root then (Inl EACCES, s)
                  else (Inr (), sched_set_nice me t n s))"


section \<open>The run-queue invariant\<close>

text \<open>
  A queue holds exactly the threads whose fields say so; the bitmap and the counter mirror the queues.
\<close>

definition rq_sound :: "sched \<Rightarrow> bool" where
  "rq_sound s \<longleftrightarrow> (\<forall>c p t. t \<in> set (runqueue (cpus s c) p) \<longrightarrow>
     on_rq (threads s t) \<and> tcpu (threads s t) = c \<and> prio (threads s t) = p \<and> p < NR_PRIO)"

definition rq_complete :: "sched \<Rightarrow> bool" where
  "rq_complete s \<longleftrightarrow> (\<forall>t. on_rq (threads s t) \<longrightarrow>
     t \<in> set (runqueue (cpus s (tcpu (threads s t))) (prio (threads s t))))"

definition rq_distinct :: "sched \<Rightarrow> bool" where
  "rq_distinct s \<longleftrightarrow> (\<forall>c p. distinct (runqueue (cpus s c) p))"

definition rq_bits :: "sched \<Rightarrow> bool" where
  "rq_bits s \<longleftrightarrow> (\<forall>c. \<forall>p < NR_PRIO. bit (rq_bitmap (cpus s c)) p \<longleftrightarrow> runqueue (cpus s c) p \<noteq> [])"

definition rq_count :: "sched \<Rightarrow> bool" where
  "rq_count s \<longleftrightarrow> (\<forall>c. nr_running (cpus s c) = (\<Sum>p < NR_PRIO. length (runqueue (cpus s c) p)))"

definition rq_ok :: "sched \<Rightarrow> bool" where
  "rq_ok s \<longleftrightarrow> rq_sound s \<and> rq_complete s \<and> rq_distinct s \<and> rq_bits s \<and> rq_count s"

lemmas rq_defs = rq_sound_def rq_complete_def rq_distinct_def rq_bits_def rq_count_def

text \<open>The invariant reads only the queues, the queue fields of the CPUs, and \<open>on_rq\<close>, \<open>tcpu\<close>, \<open>prio\<close> of queued threads.\<close>

lemma rq_ok_cong:
  assumes "rq_ok s"
    and "\<And>c. runqueue (cpus s' c) = runqueue (cpus s c) \<and> rq_bitmap (cpus s' c) = rq_bitmap (cpus s c) \<and>
            nr_running (cpus s' c) = nr_running (cpus s c)"
    and "\<And>t. on_rq (threads s' t) = on_rq (threads s t)"
    and "\<And>t. on_rq (threads s t) \<Longrightarrow> tcpu (threads s' t) = tcpu (threads s t) \<and> prio (threads s' t) = prio (threads s t)"
  shows "rq_ok s'"
  unfolding rq_ok_def
proof (intro conjI)
  show "rq_sound s'" using assms by (simp add: rq_ok_def rq_sound_def)
  show "rq_complete s'" using assms by (simp add: rq_ok_def rq_complete_def)
  show "rq_distinct s'" using assms by (simp add: rq_ok_def rq_distinct_def)
  show "rq_bits s'" using assms by (simp add: rq_ok_def rq_bits_def)
  show "rq_count s'" using assms by (simp add: rq_ok_def rq_count_def)
qed

lemma sum_length_upd:
  assumes "p < (n :: nat)"
  shows "(\<Sum>i < n. length ((f(p := x)) i)) + length (f p) = (\<Sum>i < n. length (f i)) + length x"
proof -
  have "(\<Sum>i < n. length ((f(p := x)) i)) = length x + (\<Sum>i \<in> {..< n} - {p}. length (f i))"
    using assms by (subst sum.remove [of _ p]) auto
  moreover have "(\<Sum>i < n. length (f i)) = length (f p) + (\<Sum>i \<in> {..< n} - {p}. length (f i))"
    using assms by (subst sum.remove [of _ p]) auto
  ultimately show ?thesis by simp
qed

lemma bit_set_prio: "p < 32 \<Longrightarrow> bit (w OR 2 ^ p :: u32) q \<longleftrightarrow> bit w q \<or> q = p"
  by (auto simp: bit_or_iff bit_exp_iff)

lemma bit_clear_prio: "p < 32 \<Longrightarrow> bit (w AND NOT (2 ^ p) :: u32) q \<longleftrightarrow> bit w q \<and> q \<noteq> p"
  by (auto simp: bit_and_iff bit_not_iff bit_exp_iff dest: bit_imp_le_length)

lemma enqueue_fields [simp]:
  "cpus (enqueue c t h s) d = (if d = c then
     (cpus s c)\<lparr>runqueue := (runqueue (cpus s c))(prio (threads s t) := (if h then t # runqueue (cpus s c) (prio (threads s t))
                  else runqueue (cpus s c) (prio (threads s t)) @ [t])),
               rq_bitmap := rq_bitmap (cpus s c) OR push_bit (prio (threads s t)) 1,
               nr_running := nr_running (cpus s c) + 1\<rparr> else cpus s d)"
  "threads (enqueue c t h s) u = (if u = t then (threads s t)\<lparr>on_rq := True, tcpu := c\<rparr> else threads s u)"
  "all_threads (enqueue c t h s) = all_threads s" "nr_cpus_possible (enqueue c t h s) = nr_cpus_possible s"
  by (simp_all add: enqueue_def Let_def)

lemma dequeue_fields [simp]:
  "cpus (dequeue c t s) d = (if d = c then
     (let q = remove1 t (runqueue (cpus s c) (prio (threads s t))) in
      (cpus s c)\<lparr>runqueue := (runqueue (cpus s c))(prio (threads s t) := q),
               rq_bitmap := (if q = [] then rq_bitmap (cpus s c) AND NOT (push_bit (prio (threads s t)) 1) else rq_bitmap (cpus s c)),
               nr_running := nr_running (cpus s c) - 1\<rparr>) else cpus s d)"
  "threads (dequeue c t s) u = (if u = t then (threads s t)\<lparr>on_rq := False\<rparr> else threads s u)"
  "all_threads (dequeue c t s) = all_threads s" "nr_cpus_possible (dequeue c t s) = nr_cpus_possible s"
  by (simp_all add: dequeue_def Let_def)

declare dequeue_fields(1) [simp del]

lemma enqueue_rq_ok:
  assumes ok: "rq_ok s" and t: "\<not> on_rq (threads s t)" "prio (threads s t) < NR_PRIO"
  shows "rq_ok (enqueue c t h s)"
  unfolding rq_ok_def
proof (intro conjI)
  have new: "t \<notin> set (runqueue (cpus s d) p)" for d p
    using ok t by (auto simp: rq_ok_def rq_sound_def)
  show "rq_sound (enqueue c t h s)" using ok t new by (auto simp: rq_ok_def rq_sound_def)
  show "rq_complete (enqueue c t h s)" using ok t by (auto simp: rq_ok_def rq_complete_def)
  show "rq_distinct (enqueue c t h s)" using ok new by (auto simp: rq_ok_def rq_distinct_def)
  show "rq_bits (enqueue c t h s)"
    using ok t(2) by (auto simp: rq_ok_def rq_bits_def NR_PRIO_def bit_set_prio)
  show "rq_count (enqueue c t h s)"
    using ok sum_length_upd [OF t(2), of "runqueue (cpus s c)"
        "if h then t # runqueue (cpus s c) (prio (threads s t)) else runqueue (cpus s c) (prio (threads s t)) @ [t]"]
    by (auto simp: rq_ok_def rq_count_def split: if_splits)
qed

lemma dequeue_rq_ok:
  assumes ok: "rq_ok s" and t: "on_rq (threads s t)" "tcpu (threads s t) = c"
  shows "rq_ok (dequeue c t s)"
  unfolding rq_ok_def
proof (intro conjI)
  define p where "p = prio (threads s t)"
  have inq: "t \<in> set (runqueue (cpus s c) p)" using ok t by (auto simp: rq_ok_def rq_complete_def p_def)
  then have p: "p < NR_PRIO" using ok by (auto simp: rq_ok_def rq_sound_def)
  have d: "distinct (runqueue (cpus s d) q)" for d q using ok by (auto simp: rq_ok_def rq_distinct_def)
  have rqd: "runqueue (cpus (dequeue c t s) e) q =
      (if e = c \<and> q = p then remove1 t (runqueue (cpus s c) p) else runqueue (cpus s e) q)" for e q
    by (simp add: dequeue_fields(1) Let_def p_def)
  have bm: "bit (rq_bitmap (cpus (dequeue c t s) e)) q \<longleftrightarrow>
      bit (rq_bitmap (cpus s e)) q \<and> \<not> (e = c \<and> q = p \<and> remove1 t (runqueue (cpus s c) p) = [])" for e q
    using p by (auto simp: dequeue_fields(1) Let_def p_def bit_clear_prio NR_PRIO_def)
  have nr: "nr_running (cpus (dequeue c t s) e) = nr_running (cpus s e) - (if e = c then 1 else 0)" for e
    by (simp add: dequeue_fields(1) Let_def)
  have inq': "u \<in> set (runqueue (cpus (dequeue c t s) e) q) \<longleftrightarrow> u \<in> set (runqueue (cpus s e) q) \<and> u \<noteq> t" for e q u
  proof (cases "u = t")
    case True
    then show ?thesis using ok t d by (auto simp: rqd rq_ok_def rq_sound_def p_def)
  qed (auto simp: rqd)
  show "rq_sound (dequeue c t s)"
    using ok by (auto simp: rq_ok_def rq_sound_def inq')
  show "rq_complete (dequeue c t s)"
    using ok by (auto simp: rq_ok_def rq_complete_def inq')
  show "rq_distinct (dequeue c t s)" using d by (auto simp: rq_distinct_def rqd)
  show "rq_bits (dequeue c t s)"
    unfolding rq_bits_def
  proof (intro allI impI)
    fix e q :: nat assume "q < NR_PRIO"
    then have "bit (rq_bitmap (cpus s e)) q \<longleftrightarrow> runqueue (cpus s e) q \<noteq> []" using ok by (simp add: rq_ok_def rq_bits_def)
    then show "bit (rq_bitmap (cpus (dequeue c t s) e)) q \<longleftrightarrow> runqueue (cpus (dequeue c t s) e) q \<noteq> []"
      using inq unfolding bm rqd by (cases "e = c \<and> q = p") auto
  qed
  have e1: "runqueue (cpus (dequeue c t s) c) = (runqueue (cpus s c))(p := remove1 t (runqueue (cpus s c) p))"
    by (rule ext) (simp add: rqd)
  have "length (remove1 t (runqueue (cpus s c) p)) + 1 = length (runqueue (cpus s c) p)"
    using inq length_pos_if_in_set [OF inq] by (simp add: length_remove1)
  then have "(\<Sum>i < NR_PRIO. length (runqueue (cpus (dequeue c t s) c) i)) + 1 = (\<Sum>i < NR_PRIO. length (runqueue (cpus s c) i))"
    unfolding e1 using sum_length_upd [OF p, of "runqueue (cpus s c)" "remove1 t (runqueue (cpus s c) p)"] by linarith
  moreover have "runqueue (cpus (dequeue c t s) e) = runqueue (cpus s e)" if "e \<noteq> c" for e
    using that by (intro ext) (simp add: rqd)
  moreover have "nr_running (cpus s e) = (\<Sum>i < NR_PRIO. length (runqueue (cpus s e) i))" for e
    using ok by (simp add: rq_ok_def rq_count_def)
  ultimately show "rq_count (dequeue c t s)"
    unfolding rq_count_def nr by (metis add_diff_cancel_right' diff_zero)
qed


section \<open>The scheduler invariant\<close>

definition idle_of :: "sched \<Rightarrow> tref \<Rightarrow> bool" where
  "idle_of s t \<longleftrightarrow> (\<exists>c. idle (cpus s c) = Some t)"

text \<open>
  Besides the run queues: a CPU's current thread is the one thread running there and is not queued, idle
  threads are never queued, and a runnable thread is queued or running (none is ever lost).
\<close>

definition curr_sound :: "sched \<Rightarrow> bool" where
  "curr_sound s \<longleftrightarrow> (\<forall>c t. curr (cpus s c) = Some t \<longrightarrow>
     on_cpu (threads s t) \<and> tcpu (threads s t) = c \<and> \<not> on_rq (threads s t))"

definition curr_complete :: "sched \<Rightarrow> bool" where
  "curr_complete s \<longleftrightarrow> (\<forall>t. on_cpu (threads s t) \<longrightarrow> curr (cpus s (tcpu (threads s t))) = Some t)"

definition cpus_ready :: "sched \<Rightarrow> bool" where
  "cpus_ready s \<longleftrightarrow> (\<forall>c < nr_cpus_possible s. curr (cpus s c) \<noteq> None \<and> idle (cpus s c) \<noteq> None) \<and>
     (\<forall>t. tcpu (threads s t) < nr_cpus_possible s)"

definition idle_ok :: "sched \<Rightarrow> bool" where
  "idle_ok s \<longleftrightarrow> (\<forall>c t. idle (cpus s c) = Some t \<longrightarrow>
     \<not> on_rq (threads s t) \<and> tstate (threads s t) = TASK_RUNNING \<and> tcpu (threads s t) = c \<and> t \<notin> set (all_threads s))"

definition prio_ok :: "sched \<Rightarrow> bool" where
  "prio_ok s \<longleftrightarrow> (\<forall>t. \<not> idle_of s t \<longrightarrow> prio (threads s t) < NR_PRIO)"

definition none_lost :: "tref set \<Rightarrow> sched \<Rightarrow> bool" where
  "none_lost X s \<longleftrightarrow> (\<forall>t \<in> set (all_threads s) - X. tstate (threads s t) = TASK_RUNNING \<longrightarrow>
     on_rq (threads s t) \<or> on_cpu (threads s t))"

text \<open>The threads in \<open>X\<close> are exempt from the last clause: a wake-up has marked them runnable and not yet queued them.\<close>

definition sched_invx :: "tref set \<Rightarrow> sched \<Rightarrow> bool" where
  "sched_invx X s \<longleftrightarrow> rq_ok s \<and> curr_sound s \<and> curr_complete s \<and> cpus_ready s \<and> idle_ok s \<and> prio_ok s \<and> none_lost X s"

definition sched_inv :: "sched \<Rightarrow> bool" where
  "sched_inv s \<longleftrightarrow> sched_invx {} s"

lemmas inv_defs = curr_sound_def curr_complete_def cpus_ready_def idle_ok_def prio_ok_def none_lost_def idle_of_def

text \<open>What the invariant reads of a state.\<close>

definition same_sched :: "sched \<Rightarrow> sched \<Rightarrow> bool" where
  "same_sched s s' \<longleftrightarrow>
     (\<forall>c. runqueue (cpus s' c) = runqueue (cpus s c) \<and> rq_bitmap (cpus s' c) = rq_bitmap (cpus s c) \<and>
          nr_running (cpus s' c) = nr_running (cpus s c) \<and> curr (cpus s' c) = curr (cpus s c) \<and>
          idle (cpus s' c) = idle (cpus s c)) \<and>
     (\<forall>t. on_rq (threads s' t) = on_rq (threads s t) \<and> on_cpu (threads s' t) = on_cpu (threads s t) \<and>
          tcpu (threads s' t) = tcpu (threads s t) \<and> prio (threads s' t) = prio (threads s t) \<and>
          tstate (threads s' t) = tstate (threads s t)) \<and>
     nr_cpus_possible s' = nr_cpus_possible s \<and> set (all_threads s') \<subseteq> set (all_threads s)"

lemma same_sched_inv:
  assumes "same_sched s s'" "sched_invx X s"
  shows "sched_invx X s'"
proof -
  have "rq_ok s'" by (rule rq_ok_cong [of s]) (use assms in \<open>auto simp: same_sched_def sched_invx_def\<close>)
  moreover have "curr_sound s'" "curr_complete s'" "cpus_ready s'"
    using assms by (auto simp: same_sched_def sched_invx_def curr_sound_def curr_complete_def cpus_ready_def)
  moreover have "idle_ok s'" using assms by (auto simp: same_sched_def sched_invx_def idle_ok_def)
  moreover have "prio_ok s'" using assms by (auto simp: same_sched_def sched_invx_def prio_ok_def idle_of_def)
  moreover have "none_lost X s'" using assms by (auto simp: same_sched_def sched_invx_def none_lost_def)
  ultimately show ?thesis by (simp add: sched_invx_def)
qed

lemma sched_invD:
  assumes "sched_invx X s"
  shows "rq_ok s" "curr (cpus s c) = Some t \<Longrightarrow> on_cpu (threads s t) \<and> tcpu (threads s t) = c \<and> \<not> on_rq (threads s t)"
    "on_cpu (threads s t) \<Longrightarrow> curr (cpus s (tcpu (threads s t))) = Some t"
    "c < nr_cpus_possible s \<Longrightarrow> \<exists>u v. curr (cpus s c) = Some u \<and> idle (cpus s c) = Some v"
    "tcpu (threads s t) < nr_cpus_possible s"
    "idle (cpus s c) = Some t \<Longrightarrow> \<not> on_rq (threads s t) \<and> tstate (threads s t) = TASK_RUNNING \<and> tcpu (threads s t) = c \<and> t \<notin> set (all_threads s)"
    "\<not> idle_of s t \<Longrightarrow> prio (threads s t) < NR_PRIO"
    "t \<in> set (all_threads s) \<Longrightarrow> t \<notin> X \<Longrightarrow> tstate (threads s t) = TASK_RUNNING \<Longrightarrow> on_rq (threads s t) \<or> on_cpu (threads s t)"
  using assms by (auto simp: sched_invx_def inv_defs)

lemma sched_invI:
  assumes "rq_ok s" "\<And>c t. curr (cpus s c) = Some t \<Longrightarrow> on_cpu (threads s t) \<and> tcpu (threads s t) = c \<and> \<not> on_rq (threads s t)"
    "\<And>t. on_cpu (threads s t) \<Longrightarrow> curr (cpus s (tcpu (threads s t))) = Some t"
    "\<And>c. c < nr_cpus_possible s \<Longrightarrow> curr (cpus s c) \<noteq> None \<and> idle (cpus s c) \<noteq> None"
    "\<And>t. tcpu (threads s t) < nr_cpus_possible s"
    "\<And>c t. idle (cpus s c) = Some t \<Longrightarrow> \<not> on_rq (threads s t) \<and> tstate (threads s t) = TASK_RUNNING \<and> tcpu (threads s t) = c \<and> t \<notin> set (all_threads s)"
    "\<And>t. \<not> idle_of s t \<Longrightarrow> prio (threads s t) < NR_PRIO"
    "\<And>t. t \<in> set (all_threads s) \<Longrightarrow> t \<notin> X \<Longrightarrow> tstate (threads s t) = TASK_RUNNING \<Longrightarrow> on_rq (threads s t) \<or> on_cpu (threads s t)"
  shows "sched_invx X s"
  unfolding sched_invx_def curr_sound_def curr_complete_def cpus_ready_def idle_ok_def prio_ok_def none_lost_def
  using assms by blast

subsection \<open>Waking\<close>

lemma select_loop_range:
  "select_loop s a is b = Some c \<Longrightarrow> b = Some c \<or> c \<in> set is \<and> online (cpus s c) \<and> bit a c"
  by (induction s a "is" b rule: select_loop.induct) (auto split: if_splits option.splits)

lemma select_cpu_range:
  assumes "sched_invx X s"
  shows "select_cpu t s < nr_cpus_possible s"
  using sched_invD(5) [OF assms, of t] select_loop_range [of s "cpus_allowed (threads s t)" "[0 ..< nr_cpus_possible s]" None]
  by (auto simp: select_cpu_def Let_def split: option.splits)

lemma resched_cpu_same: "same_sched s (resched_cpu me c s)"
  by (simp add: same_sched_def resched_cpu_def smp_send_reschedule_def upd_cpu_def Let_def)

lemma activate_inv:
  assumes inv: "sched_invx {t} s" and t: "\<not> on_rq (threads s t)" "\<not> on_cpu (threads s t)" "\<not> idle_of s t"
  shows "sched_inv (activate me t s)"
proof -
  define c where "c = select_cpu t s"
  have c: "c < nr_cpus_possible s" unfolding c_def by (rule select_cpu_range [OF inv])
  have "rq_ok (enqueue c t False s)"
    by (rule enqueue_rq_ok [OF sched_invD(1) [OF inv] t(1) sched_invD(7) [OF inv t(3)]])
  then have "sched_invx {} (enqueue c t False s)"
  proof (rule sched_invI)
    fix d u assume "curr (cpus (enqueue c t False s) d) = Some u"
    then have "curr (cpus s d) = Some u" by (simp split: if_splits)
    then show "on_cpu (threads (enqueue c t False s) u) \<and> tcpu (threads (enqueue c t False s) u) = d \<and> \<not> on_rq (threads (enqueue c t False s) u)"
      using sched_invD(2) [OF inv] t(2) by auto
  next
    fix u assume "on_cpu (threads (enqueue c t False s) u)"
    then show "curr (cpus (enqueue c t False s) (tcpu (threads (enqueue c t False s) u))) = Some u"
      using sched_invD(3) [OF inv] t(2) by (auto split: if_splits)
  next
    fix d assume "d < nr_cpus_possible (enqueue c t False s)"
    then show "curr (cpus (enqueue c t False s) d) \<noteq> None \<and> idle (cpus (enqueue c t False s) d) \<noteq> None"
      using sched_invD(4) [OF inv] by fastforce
  next
    fix u show "tcpu (threads (enqueue c t False s) u) < nr_cpus_possible (enqueue c t False s)"
      using sched_invD(5) [OF inv] c by simp
  next
    fix d u assume "idle (cpus (enqueue c t False s) d) = Some u"
    then have i: "idle (cpus s d) = Some u" by (simp split: if_splits)
    then have "u \<noteq> t" using t(3) by (auto simp: idle_of_def)
    then show "\<not> on_rq (threads (enqueue c t False s) u) \<and> tstate (threads (enqueue c t False s) u) = TASK_RUNNING \<and>
        tcpu (threads (enqueue c t False s) u) = d \<and> u \<notin> set (all_threads (enqueue c t False s))"
      using sched_invD(6) [OF inv i] by simp
  next
    fix u assume "\<not> idle_of (enqueue c t False s) u"
    then have "\<not> idle_of s u" by (auto simp: idle_of_def split: if_splits)
    then show "prio (threads (enqueue c t False s) u) < NR_PRIO" using sched_invD(7) [OF inv] by auto
  next
    fix u assume "u \<in> set (all_threads (enqueue c t False s))" "u \<notin> {}" "tstate (threads (enqueue c t False s) u) = TASK_RUNNING"
    then show "on_rq (threads (enqueue c t False s) u) \<or> on_cpu (threads (enqueue c t False s) u)"
      using sched_invD(8) [OF inv] by (auto split: if_splits)
  qed
  then show ?thesis
    using same_sched_inv [OF resched_cpu_same] by (simp add: sched_inv_def activate_def c_def Let_def)
qed

text \<open>Marking a thread runnable exempts it; the exemption is void when it is queued or running.\<close>

lemma mark_runnable:
  assumes inv: "sched_inv s" and t: "\<not> idle_of s t"
  shows "sched_invx {t} (upd_thread t (\<lambda>x. x\<lparr>tstate := st\<rparr>) s)"
proof -
  let ?s = "upd_thread t (\<lambda>x. x\<lparr>tstate := st\<rparr>) s"
  have D: "sched_invx {} s" using inv by (simp add: sched_inv_def)
  have "rq_ok ?s" by (rule rq_ok_cong [OF sched_invD(1) [OF D]]) auto
  moreover have "u \<noteq> t" if "idle (cpus s c) = Some u" for c u using that t by (auto simp: idle_of_def)
  moreover have "idle_of ?s u = idle_of s u" for u by (simp add: idle_of_def)
  ultimately show ?thesis
    using sched_invD(2-8) [OF D] by (intro sched_invI) (auto simp: split: if_splits)
qed

lemma exempt_void:
  assumes "sched_invx {t} s" "tstate (threads s t) = TASK_RUNNING \<Longrightarrow> on_rq (threads s t) \<or> on_cpu (threads s t)"
  shows "sched_inv s"
  using assms by (auto simp: sched_inv_def sched_invx_def none_lost_def)

lemma sleeping_not_idle:
  "sched_inv s \<Longrightarrow> tstate (threads s t) \<noteq> TASK_RUNNING \<Longrightarrow> \<not> idle_of s t"
  using sched_invD(6) unfolding sched_inv_def idle_of_def by blast

lemma has_flag_not_running: "has_flag st m \<Longrightarrow> st \<noteq> TASK_RUNNING"
  by (auto simp: TASK_RUNNING_def)

lemma try_to_wake_up_inv:
  assumes "sched_inv s"
  shows "sched_inv (snd (try_to_wake_up me t m s))"
proof (cases "has_flag (tstate (threads s t)) m")
  case False
  then show ?thesis using assms by (simp add: try_to_wake_up_def)
next
  case True
  let ?s = "upd_thread t (\<lambda>x. x\<lparr>tstate := TASK_RUNNING\<rparr>) s"
  have ni: "\<not> idle_of s t" using True assms by (blast dest: has_flag_not_running sleeping_not_idle)
  have inv: "sched_invx {t} ?s" by (rule mark_runnable [OF assms ni])
  show ?thesis
  proof (cases "on_rq (threads s t) \<or> on_cpu (threads s t)")
    case on: True
    then show ?thesis using exempt_void [OF inv] True by (simp add: try_to_wake_up_def Let_def)
  next
    case off: False
    then have "sched_inv (activate me t ?s)"
      using ni by (intro activate_inv [OF inv]) (simp_all add: idle_of_def)
    then show ?thesis using True off by (simp add: try_to_wake_up_def Let_def)
  qed
qed

lemma sched_add_new_inv:
  assumes "sched_inv s" "\<not> on_rq (threads s t)" "\<not> on_cpu (threads s t)" "\<not> idle_of s t"
  shows "sched_inv (sched_add_new me t s)"
  unfolding sched_add_new_def
  using assms by (intro activate_inv [OF mark_runnable]) (simp_all add: idle_of_def)


subsection \<open>Changing the policy\<close>

lemma requeue_prio_inv:
  assumes inv: "sched_inv s" and t: "on_rq (threads s t)" and p: "p < NR_PRIO"
    and f: "\<And>x. prio (f x) = p \<and> on_rq (f x) = on_rq x \<and> on_cpu (f x) = on_cpu x \<and> tcpu (f x) = tcpu x \<and> tstate (f x) = tstate x"
  shows "sched_inv (enqueue (tcpu (threads s t)) t False (upd_thread t f (dequeue (tcpu (threads s t)) t s)))"
    (is "sched_inv (enqueue ?c t False ?s2)")
proof -
  have D: "sched_invx {} s" using inv by (simp add: sched_inv_def)
  have "rq_ok (dequeue ?c t s)" by (rule dequeue_rq_ok [OF sched_invD(1) [OF D] t]) simp
  then have "rq_ok ?s2" by (rule rq_ok_cong) (use f in auto)
  then have "rq_ok (enqueue ?c t False ?s2)" by (rule enqueue_rq_ok) (use f p in auto)
  moreover have "curr (cpus (enqueue ?c t False ?s2) d) = curr (cpus s d)"
      "idle (cpus (enqueue ?c t False ?s2) d) = idle (cpus s d)" for d
    by (simp_all add: dequeue_fields(1) Let_def)
  moreover have "on_rq (threads (enqueue ?c t False ?s2) u) = on_rq (threads s u)"
      "on_cpu (threads (enqueue ?c t False ?s2) u) = on_cpu (threads s u)"
      "tcpu (threads (enqueue ?c t False ?s2) u) = tcpu (threads s u)"
      "tstate (threads (enqueue ?c t False ?s2) u) = tstate (threads s u)"
      "prio (threads (enqueue ?c t False ?s2) u) = (if u = t then p else prio (threads s u))" for u
    using f t by auto
  moreover have "all_threads (enqueue ?c t False ?s2) = all_threads s"
    "nr_cpus_possible (enqueue ?c t False ?s2) = nr_cpus_possible s" by simp_all
  ultimately show ?thesis
    unfolding sched_inv_def using sched_invD(2-8) [OF D] p
    by (intro sched_invI) (simp_all add: idle_of_def)
qed

lemma sdiv_int_nonneg: "0 \<le> a \<Longrightarrow> 0 < b \<Longrightarrow> a sdiv b = (a :: int) div b"
  by (simp add: signed_divide_int_def sgn_if)

lemma compute_prio_rt:
  assumes "pol = SCHED_FIFO \<or> pol = SCHED_RR" "1 \<le> r" "r \<le> 99"
  shows "compute_prio pol r n = 23 - (r - 1) * 23 div 98"
  using assms by (auto simp: compute_prio_def prio_defs sdiv_int_nonneg)

lemma compute_prio_range:
  assumes "sched_args_ok pol r"
  shows "0 \<le> compute_prio pol r n \<and> compute_prio pol r n < 32"
proof (cases "pol = SCHED_FIFO \<or> pol = SCHED_RR")
  case True
  then have "1 \<le> r" "r \<le> 99" using assms by (auto simp: sched_args_ok_def)
  then show ?thesis using compute_prio_rt [OF True, of r n] by auto
next
  case False
  then show ?thesis by (auto simp: compute_prio_def prio_defs CLAMP_def)
qed

lemma prio_change_inv:
  assumes inv: "sched_inv s" and t: "\<not> on_rq (threads s t)" and p: "p < NR_PRIO"
    and f: "\<And>x. prio (f x) = p \<and> on_rq (f x) = on_rq x \<and> on_cpu (f x) = on_cpu x \<and> tcpu (f x) = tcpu x \<and> tstate (f x) = tstate x"
  shows "sched_inv (upd_thread t f s)"
proof -
  have D: "sched_invx {} s" using inv by (simp add: sched_inv_def)
  have "rq_ok (upd_thread t f s)" by (rule rq_ok_cong [OF sched_invD(1) [OF D]]) (use f t in auto)
  then show ?thesis
    unfolding sched_inv_def using sched_invD(2-8) [OF D] f p
    by (intro sched_invI) (auto simp: idle_of_def split: if_splits)
qed

lemma sched_setscheduler_inv:
  assumes "sched_inv s"
  shows "sched_inv (snd (sched_setscheduler me t pol pr s))"
proof (cases "sched_args_ok pol pr")
  case False
  then show ?thesis using assms by (simp add: sched_setscheduler_def)
next
  case ok: True
  define f :: "thread \<Rightarrow> thread" where "f = (\<lambda>x. x\<lparr>policy := pol, rt_priority := pr, prio := nat (compute_prio pol pr (nice x))\<rparr>)"
  define g :: "thread \<Rightarrow> thread" where "g = (\<lambda>x. x\<lparr>policy := pol, rt_priority := pr, prio := nat (compute_prio pol pr (nice (threads s t)))\<rparr>)"
  have p: "nat (compute_prio pol pr (nice (threads s t))) < NR_PRIO"
    using compute_prio_range [OF ok, of "nice (threads s t)"] by (auto simp: NR_PRIO_def)
  show ?thesis
  proof (cases "on_rq (threads s t)")
    case True
    let ?s3 = "enqueue (tcpu (threads s t)) t False (upd_thread t f (dequeue (tcpu (threads s t)) t s))"
    have "upd_thread t f (dequeue (tcpu (threads s t)) t s) = upd_thread t g (dequeue (tcpu (threads s t)) t s)"
      by (simp add: upd_thread_def f_def g_def)
    then have "sched_inv ?s3" using requeue_prio_inv [OF assms True p, of g] by (simp add: g_def)
    then have "sched_inv (resched_cpu me (tcpu (threads s t)) ?s3)"
      using same_sched_inv [OF resched_cpu_same] by (simp add: sched_inv_def)
    then show ?thesis using \<open>sched_inv ?s3\<close> ok True by (simp add: sched_setscheduler_def Let_def f_def)
  next
    case False
    have "upd_thread t f s = upd_thread t g s" by (simp add: upd_thread_def f_def g_def)
    then have "sched_inv (upd_thread t f s)" using prio_change_inv [OF assms False p, of g] by (simp add: g_def)
    then show ?thesis using ok False by (simp add: sched_setscheduler_def Let_def f_def)
  qed
qed

lemma same_upd_thread:
  assumes "\<And>x. on_rq (f x) = on_rq x \<and> on_cpu (f x) = on_cpu x \<and> tcpu (f x) = tcpu x \<and> prio (f x) = prio x \<and> tstate (f x) = tstate x"
  shows "same_sched s (upd_thread t f s)"
  using assms by (simp add: same_sched_def)

lemma same_upd_cpu:
  assumes "\<And>r. runqueue (g r) = runqueue r \<and> rq_bitmap (g r) = rq_bitmap r \<and> nr_running (g r) = nr_running r \<and>
    curr (g r) = curr r \<and> idle (g r) = idle r"
  shows "same_sched s (upd_cpu c g s)"
  using assms by (simp add: same_sched_def)

lemma same_sched_trans: "same_sched s s' \<Longrightarrow> same_sched s' s'' \<Longrightarrow> same_sched s s''"
  unfolding same_sched_def by auto

lemma same_sched_refl [simp]: "same_sched s s"
  by (simp add: same_sched_def)

lemma same_inv: "same_sched s s' \<Longrightarrow> sched_inv s \<Longrightarrow> sched_inv s'"
  unfolding sched_inv_def by (rule same_sched_inv)

lemma sched_set_nice_inv:
  assumes "sched_inv s"
  shows "sched_inv (sched_set_nice me t n s)"
proof -
  have "sched_inv (upd_thread t (\<lambda>x. x\<lparr>nice := CLAMP n (- 20) 19\<rparr>) s)"
    by (rule same_inv [OF same_upd_thread assms]) simp
  then show ?thesis using sched_setscheduler_inv by (simp add: sched_set_nice_def Let_def)
qed


subsection \<open>Ticks\<close>

lemma calc_load_same: "same_sched s (calc_load s)"
  by (simp add: calc_load_def Let_def same_sched_def)

lemma tick_slice_same: "same_sched s (tick_slice me t s)"
  by (simp add: tick_slice_def Let_def same_sched_def)

lemma scheduler_tick_same: "same_sched s (scheduler_tick me user s)"
proof -
  define s1 where "s1 = (if me = 0 \<and> ticks (cpus s me) mod (5 * HZ) = 0 then calc_load s else s)"
  have 1: "same_sched s s1" using calc_load_same by (simp add: s1_def)
  define s2 where "s2 = upd_cpu me (\<lambda>r. r\<lparr>ticks := ticks r + 1\<rparr>) s1"
  have 2: "same_sched s1 s2" unfolding s2_def by (rule same_upd_cpu) simp
  show ?thesis
  proof (cases "curr (cpus s2 me) = idle (cpus s2 me)")
    case True
    have "same_sched s2 (upd_cpu me (\<lambda>r. r\<lparr>idle_ticks := idle_ticks r + 1,
        need_resched := (if nr_running r \<noteq> 0 then True else need_resched r)\<rparr>) s2)"
      by (rule same_upd_cpu) simp
    then show ?thesis
      using True 1 2 unfolding scheduler_tick_def Let_def s1_def [symmetric] s2_def [symmetric]
      by (auto intro: same_sched_trans)
  next
    case False
    have "same_sched s2 (upd_thread (the (curr (cpus s1 me)))
        (\<lambda>x. if user then x\<lparr>utime := utime x + TICK_NSEC\<rparr> else x\<lparr>stime := stime x + TICK_NSEC\<rparr>) s2)"
      by (rule same_upd_thread) simp
    then show ?thesis
      using False 1 2 tick_slice_same unfolding scheduler_tick_def Let_def s1_def [symmetric] s2_def [symmetric]
      by (simp add: if_False) (blast intro: same_sched_trans)
  qed
qed


subsection \<open>Context switch\<close>

text \<open>What a switch changes of the fields the invariant reads.\<close>

definition switched :: "nat \<Rightarrow> tref \<Rightarrow> tref \<Rightarrow> sched \<Rightarrow> sched \<Rightarrow> bool" where
  "switched me prev next s s' \<longleftrightarrow>
     (\<forall>c. runqueue (cpus s' c) = runqueue (cpus s c) \<and> rq_bitmap (cpus s' c) = rq_bitmap (cpus s c) \<and>
          nr_running (cpus s' c) = nr_running (cpus s c) \<and> idle (cpus s' c) = idle (cpus s c) \<and>
          curr (cpus s' c) = (if c = me then Some next else curr (cpus s c))) \<and>
     (\<forall>t. on_rq (threads s' t) = on_rq (threads s t) \<and> prio (threads s' t) = prio (threads s t) \<and>
          tstate (threads s' t) = tstate (threads s t) \<and>
          on_cpu (threads s' t) = (t \<noteq> prev \<and> (t = next \<or> on_cpu (threads s t))) \<and>
          tcpu (threads s' t) = (if t = next then me else tcpu (threads s t))) \<and>
     nr_cpus_possible s' = nr_cpus_possible s \<and> set (all_threads s') \<subseteq> set (all_threads s)"

lemma finish_switch_fields:
  "cpus (finish_switch prev s) = cpus s" "nr_cpus_possible (finish_switch prev s) = nr_cpus_possible s"
  "set (all_threads (finish_switch prev s)) \<subseteq> set (all_threads s)"
  "on_rq (threads (finish_switch prev s) t) = on_rq (threads s t)" "prio (threads (finish_switch prev s) t) = prio (threads s t)"
  "tstate (threads (finish_switch prev s) t) = tstate (threads s t)" "tcpu (threads (finish_switch prev s) t) = tcpu (threads s t)"
  "on_cpu (threads (finish_switch prev s) t) = (t \<noteq> prev \<and> on_cpu (threads s t))"
  by (auto simp: finish_switch_def thread_put_def thread_free_def Let_def dest: set_remove1_subset [THEN subsetD])

lemma switch_regs_same: "same_sched s (switch_regs me prev next s)"
  by (simp add: switch_regs_def Let_def same_sched_def)

lemma switch_mm_same: "same_sched s (switch_mm me a b s)"
  by (simp add: switch_mm_def same_sched_def)

lemma switch_to_switched:
  assumes "prev \<noteq> next"
  shows "switched me prev next s (switch_to me now prev next s)"
proof -
  define s5 where "s5 = upd_thread next (\<lambda>x. x\<lparr>on_cpu := True, tcpu := me\<rparr>)
    (upd_cpu me (\<lambda>r. r\<lparr>ctx_switches := ctx_switches r + 1, curr := Some next\<rparr>)
      (upd_thread prev (\<lambda>x. if tstate x = TASK_RUNNING then x\<lparr>nivcsw := nivcsw x + 1\<rparr> else x\<lparr>nvcsw := nvcsw x + 1\<rparr>)
        (upd_thread next (\<lambda>x. x\<lparr>last_switch := now\<rparr>) (upd_thread prev (\<lambda>x. x\<lparr>last_switch := now\<rparr>) s))))"
  obtain s7 where s7: "switch_to me now prev next s = finish_switch prev s7" "same_sched s5 s7"
    unfolding switch_to_def Let_def s5_def [symmetric]
    using same_sched_trans [OF switch_regs_same switch_mm_same] by blast
  have c5: "runqueue (cpus s5 c) = runqueue (cpus s c) \<and> rq_bitmap (cpus s5 c) = rq_bitmap (cpus s c) \<and>
      nr_running (cpus s5 c) = nr_running (cpus s c) \<and> idle (cpus s5 c) = idle (cpus s c) \<and>
      curr (cpus s5 c) = (if c = me then Some next else curr (cpus s c))" for c
    by (simp add: s5_def)
  have t5: "on_rq (threads s5 t) = on_rq (threads s t) \<and> prio (threads s5 t) = prio (threads s t) \<and>
      tstate (threads s5 t) = tstate (threads s t) \<and> on_cpu (threads s5 t) = (t = next \<or> on_cpu (threads s t)) \<and>
      tcpu (threads s5 t) = (if t = next then me else tcpu (threads s t))" for t
    by (simp add: s5_def)
  have a5: "nr_cpus_possible s5 = nr_cpus_possible s" "all_threads s5 = all_threads s" by (simp_all add: s5_def)
  show ?thesis
    unfolding s7(1) switched_def finish_switch_fields(1,2,4-8)
    using s7(2) c5 t5 a5 finish_switch_fields(3) [of prev s7] unfolding same_sched_def by auto
qed

lemma ctz_bit: "w \<noteq> 0 \<Longrightarrow> ctz w < 32 \<and> bit w (ctz w) \<and> (\<forall>p < ctz w. \<not> bit w p)" for w :: u32
proof -
  assume "w \<noteq> 0"
  then obtain n where "bit w n" by (auto simp: bit_eq_iff)
  moreover from this have "n < 32" using bit_imp_le_length [of w n] by simp
  ultimately have ne: "filter (bit w) [0 ..< 32] \<noteq> []" by (auto simp: filter_empty_conv)
  define xs where "xs = filter (bit w) [0 ..< 32]"
  have ne': "xs \<noteq> []" using ne by (simp add: xs_def)
  have c: "ctz w = hd xs" using ne' by (simp add: ctz_def xs_def [symmetric])
  have set: "set xs = {p. p < 32 \<and> bit w p}" by (auto simp: xs_def)
  have 1: "hd xs < 32 \<and> bit w (hd xs)" using hd_in_set [OF ne'] set by simp
  have "sorted xs" by (simp add: xs_def sorted_wrt_filter)
  then have le: "\<forall>x \<in> set xs. hd xs \<le> x" using ne' by (cases xs) auto
  have "\<not> bit w p" if "p < hd xs" for p
  proof
    assume "bit w p"
    then have "p \<in> set xs" using that 1 set by simp
    then show False using le that by auto
  qed
  then show ?thesis using 1 c by simp
qed

text \<open>The thread \<^verbatim>\<open>pick_next\<close> takes: the first one of the highest non-empty priority.\<close>

lemma pick_next_spec:
  assumes ok: "rq_ok s"
  shows "(fst (pick_next c s) = None \<longrightarrow> snd (pick_next c s) = s \<and> (\<forall>p < NR_PRIO. runqueue (cpus s c) p = [])) \<and>
    (\<forall>t. fst (pick_next c s) = Some t \<longrightarrow> snd (pick_next c s) = dequeue c t s \<and> on_rq (threads s t) \<and>
       tcpu (threads s t) = c \<and> runqueue (cpus s c) (prio (threads s t)) \<noteq> [] \<and>
       t = hd (runqueue (cpus s c) (prio (threads s t))) \<and>
       (\<forall>p < prio (threads s t). runqueue (cpus s c) p = []))"
proof (cases "rq_bitmap (cpus s c) = 0")
  case True
  then have "runqueue (cpus s c) p = []" if "p < NR_PRIO" for p
  proof -
    have "bit (rq_bitmap (cpus s c)) p \<longleftrightarrow> runqueue (cpus s c) p \<noteq> []"
      using ok that by (simp add: rq_ok_def rq_bits_def)
    then show ?thesis using True by simp
  qed
  then show ?thesis using True by (simp add: pick_next_def)
next
  case False
  define p where "p = ctz (rq_bitmap (cpus s c))"
  have p: "p < NR_PRIO" "bit (rq_bitmap (cpus s c)) p" "\<And>q. q < p \<Longrightarrow> \<not> bit (rq_bitmap (cpus s c)) q"
    using ctz_bit [OF False] by (auto simp: p_def NR_PRIO_def)
  define t where "t = hd (runqueue (cpus s c) p)"
  have ne: "runqueue (cpus s c) p \<noteq> []" using ok p by (auto simp: rq_ok_def rq_bits_def)
  then have "t \<in> set (runqueue (cpus s c) p)" by (simp add: t_def)
  then have "on_rq (threads s t) \<and> tcpu (threads s t) = c \<and> prio (threads s t) = p"
    using ok by (auto simp: rq_ok_def rq_sound_def)
  moreover have "runqueue (cpus s c) q = []" if "q < p" for q
    using ok p that by (auto simp: rq_ok_def rq_bits_def)
  moreover have "pick_next c s = (Some t, dequeue c t s)"
    using False by (simp add: pick_next_def t_def p_def Let_def)
  ultimately show ?thesis using ne t_def by auto
qed

text \<open>
  The outcome of \<^verbatim>\<open>schedule\<close> on CPU \<open>me\<close>: \<open>n\<close> replaces \<open>prev\<close>, which is queued when it can go on (\<open>run\<close>).
\<close>

definition rescheduled :: "nat \<Rightarrow> bool \<Rightarrow> tref \<Rightarrow> tref \<Rightarrow> sched \<Rightarrow> sched \<Rightarrow> bool" where
  "rescheduled me run prev n s s' \<longleftrightarrow>
     (\<forall>c. idle (cpus s' c) = idle (cpus s c) \<and> curr (cpus s' c) = (if c = me then Some n else curr (cpus s c))) \<and>
     (\<forall>t. prio (threads s' t) = prio (threads s t) \<and> tstate (threads s' t) = tstate (threads s t) \<and>
          on_rq (threads s' t) = ((on_rq (threads s t) \<or> run \<and> t = prev) \<and> t \<noteq> n) \<and>
          on_cpu (threads s' t) = (t = n \<or> on_cpu (threads s t) \<and> t \<noteq> prev) \<and>
          tcpu (threads s' t) = (if t = n then me else tcpu (threads s t))) \<and>
     nr_cpus_possible s' = nr_cpus_possible s \<and> set (all_threads s') \<subseteq> set (all_threads s)"

lemma rescheduled_inv:
  assumes inv: "sched_inv s" and me: "me < nr_cpus_possible s" and prev: "curr (cpus s me) = Some prev"
    and run: "run \<longleftrightarrow> tstate (threads s prev) = TASK_RUNNING \<and> Some prev \<noteq> idle (cpus s me)"
    and n: "on_rq (threads s n) \<and> tcpu (threads s n) = me \<or> n = prev \<or> idle (cpus s me) = Some n"
    and r: "rescheduled me run prev n s s'" and ok: "rq_ok s'"
  shows "sched_inv s'"
  unfolding sched_inv_def
proof (rule sched_invI [OF ok])
  have D: "sched_invx {} s" using inv by (simp add: sched_inv_def)
  note R = r [unfolded rescheduled_def]
  have p: "on_cpu (threads s prev)" "tcpu (threads s prev) = me" "\<not> on_rq (threads s prev)"
    using sched_invD(2) [OF D prev] by auto
  have tn: "tcpu (threads s n) = me" using n p sched_invD(6) [OF D] by auto
  fix c t
  show "on_cpu (threads s' t) \<and> tcpu (threads s' t) = c \<and> \<not> on_rq (threads s' t)" if "curr (cpus s' c) = Some t"
  proof (cases "c = me")
    case True
    then show ?thesis using that R by auto
  next
    case False
    then have "curr (cpus s c) = Some t" using that R by simp
    then have "on_cpu (threads s t)" "tcpu (threads s t) = c" "\<not> on_rq (threads s t)" using sched_invD(2) [OF D] by auto
    moreover from this have "t \<noteq> prev" "t \<noteq> n" using False p tn by auto
    ultimately show ?thesis using R by simp
  qed
  show "curr (cpus s' (tcpu (threads s' t))) = Some t" if "on_cpu (threads s' t)"
  proof (cases "t = n")
    case True
    then show ?thesis using R by simp
  next
    case False
    then have "on_cpu (threads s t)" "t \<noteq> prev" using that R by auto
    then have c: "curr (cpus s (tcpu (threads s t))) = Some t" using sched_invD(3) [OF D] by blast
    then have "tcpu (threads s t) \<noteq> me" using prev \<open>t \<noteq> prev\<close> by auto
    then show ?thesis using R c False by simp
  qed
  show "curr (cpus s' c) \<noteq> None \<and> idle (cpus s' c) \<noteq> None" if "c < nr_cpus_possible s'"
    using sched_invD(4) [OF D, of c] that R by auto
  show "tcpu (threads s' t) < nr_cpus_possible s'" using sched_invD(5) [OF D] me R by simp
  show "\<not> on_rq (threads s' t) \<and> tstate (threads s' t) = TASK_RUNNING \<and> tcpu (threads s' t) = c \<and> t \<notin> set (all_threads s')"
    if "idle (cpus s' c) = Some t"
  proof -
    have i: "idle (cpus s c) = Some t" using that R by simp
    note I = sched_invD(6) [OF D i]
    have "\<not> (run \<and> t = prev)" using run i I p by auto
    moreover have "tcpu (threads s' t) = c" using I tn R by auto
    ultimately show ?thesis using I R by auto
  qed
  show "prio (threads s' t) < NR_PRIO" if "\<not> idle_of s' t"
    using sched_invD(7) [OF D, of t] that R by (simp add: idle_of_def)
  show "on_rq (threads s' t) \<or> on_cpu (threads s' t)" if "t \<in> set (all_threads s')" "t \<notin> {}" "tstate (threads s' t) = TASK_RUNNING"
  proof -
    have t: "t \<in> set (all_threads s)" "tstate (threads s t) = TASK_RUNNING" using that R by auto
    have "run" if "t = prev" using that t run sched_invD(6) [OF D, of me t] by auto
    then show ?thesis using sched_invD(8) [OF D t(1) _ t(2)] R by auto
  qed
qed

lemma requeue_prev_fields:
  "cpus (requeue_prev me prev s) c = (if tstate (threads s prev) = TASK_RUNNING \<and> Some prev \<noteq> idle (cpus s me)
     then cpus (enqueue me prev (policy (threads s prev) = SCHED_FIFO) s) c else cpus s c)"
  "prio (threads (requeue_prev me prev s) t) = prio (threads s t)" "tstate (threads (requeue_prev me prev s) t) = tstate (threads s t)"
  "on_cpu (threads (requeue_prev me prev s) t) = on_cpu (threads s t)"
  "on_rq (threads (requeue_prev me prev s) t) = (on_rq (threads s t) \<or> tstate (threads s prev) = TASK_RUNNING \<and> Some prev \<noteq> idle (cpus s me) \<and> t = prev)"
  "tcpu (threads s prev) = me \<Longrightarrow> tcpu (threads (requeue_prev me prev s) t) = tcpu (threads s t)"
  "all_threads (requeue_prev me prev s) = all_threads s" "nr_cpus_possible (requeue_prev me prev s) = nr_cpus_possible s"
  by (auto simp: requeue_prev_def)

lemma requeue_prev_rq_ok:
  assumes inv: "sched_inv s" and prev: "curr (cpus s me) = Some prev"
  shows "rq_ok (requeue_prev me prev s)"
proof -
  have D: "sched_invx {} s" using inv by (simp add: sched_inv_def)
  have p: "tcpu (threads s prev) = me" "\<not> on_rq (threads s prev)" using sched_invD(2) [OF D prev] by auto
  show ?thesis
  proof (cases "tstate (threads s prev) = TASK_RUNNING \<and> Some prev \<noteq> idle (cpus s me)")
    case True
    have "\<not> idle_of s prev"
    proof
      assume "idle_of s prev"
      then obtain d where "idle (cpus s d) = Some prev" by (auto simp: idle_of_def)
      moreover from this have "d = me" using sched_invD(6) [OF D] p by blast
      ultimately show False using True by simp
    qed
    then have "rq_ok (enqueue me prev (policy (threads s prev) = SCHED_FIFO) s)"
      using sched_invD(7) [OF D] p by (intro enqueue_rq_ok [OF sched_invD(1) [OF D]]) auto
    then have "rq_ok (upd_thread prev (\<lambda>x. if timeslice x \<le> 0 then x\<lparr>timeslice := RR_TIMESLICE_TICKS\<rparr> else x)
        (enqueue me prev (policy (threads s prev) = SCHED_FIFO) s))"
      by (rule rq_ok_cong) auto
    then show ?thesis using True by (simp add: requeue_prev_def)
  next
    case False
    then show ?thesis using sched_invD(1) [OF D] by (auto simp: requeue_prev_def)
  qed
qed

text \<open>What \<^verbatim>\<open>schedule\<close> does: the thread it runs next, the fields it changes, the queues it leaves.\<close>

lemma schedule_outcome:
  assumes inv: "sched_inv s" and me: "me < nr_cpus_possible s" and prev: "curr (cpus s me) = Some prev"
    and run: "run \<longleftrightarrow> tstate (threads s prev) = TASK_RUNNING \<and> Some prev \<noteq> idle (cpus s me)"
    and S: "S = schedule me now s"
  obtains n where "rescheduled me run prev n s S" "rq_ok S"
    "on_rq (threads s n) \<and> tcpu (threads s n) = me \<or> n = prev \<or> idle (cpus s me) = Some n"
    "idle (cpus s me) \<noteq> Some n \<longrightarrow> (\<forall>p < prio (threads s n). runqueue (cpus S me) p = [])"
    "idle (cpus s me) = Some n \<longrightarrow> (\<forall>p < NR_PRIO. runqueue (cpus S me) p = []) \<and> \<not> run"
    "idle (cpus s me) \<noteq> Some n \<longrightarrow> n = prev \<longrightarrow> run"
proof -
  have D: "sched_invx {} s" using inv by (simp add: sched_inv_def)
  define s2 where "s2 = upd_cpu me (\<lambda>r. r\<lparr>need_resched := False\<rparr>) (drop_bkl prev s)"
  have ss: "same_sched s s2" by (simp add: s2_def drop_bkl_def same_sched_def)
  have inv2: "sched_inv s2" by (rule same_inv [OF ss inv])
  have prev2: "curr (cpus s2 me) = Some prev" using prev ss by (simp add: same_sched_def)
  have p: "on_cpu (threads s prev)" "tcpu (threads s prev) = me" "\<not> on_rq (threads s prev)"
    using sched_invD(2) [OF D prev] by auto
  define s3 where "s3 = requeue_prev me prev s2"
  have ok3: "rq_ok s3" unfolding s3_def by (rule requeue_prev_rq_ok [OF inv2 prev2])
  have run2: "tstate (threads s2 prev) = TASK_RUNNING \<and> Some prev \<noteq> idle (cpus s2 me) \<longleftrightarrow> run"
    using run ss by (simp add: same_sched_def)
  have ss1: "runqueue (cpus s2 c) = runqueue (cpus s c)" "curr (cpus s2 c) = curr (cpus s c)" "idle (cpus s2 c) = idle (cpus s c)"
      "on_rq (threads s2 t) = on_rq (threads s t)" "on_cpu (threads s2 t) = on_cpu (threads s t)"
      "tcpu (threads s2 t) = tcpu (threads s t)" "prio (threads s2 t) = prio (threads s t)" "tstate (threads s2 t) = tstate (threads s t)"
      "nr_cpus_possible s2 = nr_cpus_possible s" "set (all_threads s2) \<subseteq> set (all_threads s)" for c t
    using ss by (simp_all add: same_sched_def)
  have t3: "prio (threads s3 t) = prio (threads s t)" "tstate (threads s3 t) = tstate (threads s t)"
      "on_cpu (threads s3 t) = on_cpu (threads s t)" "on_rq (threads s3 t) = (on_rq (threads s t) \<or> run \<and> t = prev)"
      "tcpu (threads s3 t) = tcpu (threads s t)" for t
    using run2 by (simp_all add: s3_def requeue_prev_fields(2-6) ss1 p) blast
  have c3: "idle (cpus s3 c) = idle (cpus s c)" "curr (cpus s3 c) = curr (cpus s c)" for c
    by (simp_all add: s3_def requeue_prev_fields(1) ss1)
  have a3: "nr_cpus_possible s3 = nr_cpus_possible s" "set (all_threads s3) \<subseteq> set (all_threads s)"
    by (simp_all add: s3_def requeue_prev_fields(7,8) ss1)
  obtain idl where idl: "idle (cpus s me) = Some idl" using sched_invD(4) [OF D me] by auto
  have S3: "S = (case pick_next me s3 of (pk, s4) \<Rightarrow>
      let next = (case pk of Some t \<Rightarrow> t | None \<Rightarrow> the (idle (cpus s4 me)))
      in if next \<noteq> prev then switch_to me now prev next s4 else s4)"
    unfolding S schedule_def Let_def prev option.sel s2_def [symmetric] s3_def [symmetric] ..
  note pk = pick_next_spec [OF ok3, of me]
  have fin: "rescheduled me run prev n s T \<and> rq_ok T \<and> (\<forall>p. runqueue (cpus T me) p = runqueue (cpus s4 me) p)"
    if T: "T = (if n \<noteq> prev then switch_to me now prev n s4 else s4)" and ok4: "rq_ok s4"
      and t4: "\<And>t. prio (threads s4 t) = prio (threads s t)" "\<And>t. tstate (threads s4 t) = tstate (threads s t)"
        "\<And>t. on_cpu (threads s4 t) = on_cpu (threads s t)" "\<And>t. tcpu (threads s4 t) = tcpu (threads s t)"
        "\<And>t. on_rq (threads s4 t) = ((on_rq (threads s t) \<or> run \<and> t = prev) \<and> t \<noteq> n)"
      and c4: "\<And>c. idle (cpus s4 c) = idle (cpus s c)" "\<And>c. curr (cpus s4 c) = curr (cpus s c)"
      and a4: "nr_cpus_possible s4 = nr_cpus_possible s" "set (all_threads s4) \<subseteq> set (all_threads s)" for n T s4
  proof (cases "n = prev")
    case True
    then show ?thesis using T ok4 t4 c4 a4 p prev by (auto simp: rescheduled_def)
  next
    case False
    then have sw: "switched me prev n s4 T" using switch_to_switched T by simp
    have "rq_ok T" by (rule rq_ok_cong [OF ok4]) (use sw t4(5) in \<open>auto simp: switched_def\<close>)
    then show ?thesis using sw t4 c4 a4 False by (auto simp: rescheduled_def switched_def)
  qed
  show thesis
  proof (cases "fst (pick_next me s3)")
    case None
    then have e: "snd (pick_next me s3) = s3" "\<forall>p < NR_PRIO. runqueue (cpus s3 me) p = []" using pk by auto
    have none: "\<not> on_rq (threads s3 t)" if "tcpu (threads s3 t) = me" for t
    proof
      assume "on_rq (threads s3 t)"
      then have m: "t \<in> set (runqueue (cpus s3 me) (prio (threads s3 t)))"
        using ok3 that unfolding rq_ok_def rq_complete_def by metis
      then have "prio (threads s3 t) < NR_PRIO" using ok3 unfolding rq_ok_def rq_sound_def by blast
      then show False using e(2) m by simp
    qed
    then have nr: "\<not> run" using t3(4,5) [of prev] p by auto
    have ni: "\<not> on_rq (threads s idl)" using sched_invD(6) [OF D idl] by auto
    have T: "S = (if idl \<noteq> prev then switch_to me now prev idl s3 else s3)"
      unfolding S3 using None e(1) c3(1) idl by (cases "pick_next me s3") (simp add: Let_def)
    have d: "rescheduled me run prev idl s S \<and> rq_ok S \<and> (\<forall>p. runqueue (cpus S me) p = runqueue (cpus s3 me) p)"
      by (rule fin [OF T ok3]) (use t3 c3 a3 ni nr in auto)
    have q: "\<forall>p < NR_PRIO. runqueue (cpus S me) p = []" using d e(2) by metis
    show thesis using d q idl nr by (intro that [of idl]) simp_all
  next
    case (Some t)
    then have e: "snd (pick_next me s3) = dequeue me t s3" "on_rq (threads s3 t)" "tcpu (threads s3 t) = me"
      "\<forall>p < prio (threads s3 t). runqueue (cpus s3 me) p = []" using pk by auto
    have ok4: "rq_ok (dequeue me t s3)" by (rule dequeue_rq_ok [OF ok3 e(2,3)])
    have T: "S = (if t \<noteq> prev then switch_to me now prev t (dequeue me t s3) else dequeue me t s3)"
      unfolding S3 using Some e(1) by (cases "pick_next me s3") (simp add: Let_def)
    have d: "rescheduled me run prev t s S \<and> rq_ok S \<and> (\<forall>p. runqueue (cpus S me) p = runqueue (cpus (dequeue me t s3) me) p)"
      by (rule fin [OF T ok4]) (use t3 c3 a3 in \<open>auto simp: dequeue_fields(1) Let_def\<close>)
    have "\<forall>p < prio (threads s t). runqueue (cpus (dequeue me t s3) me) p = []"
      using e(4) t3(1) by (simp add: dequeue_fields(1) Let_def)
    then have q: "\<forall>p < prio (threads s t). runqueue (cpus S me) p = []" using d by metis
    have "on_rq (threads s t) \<and> tcpu (threads s t) = me \<or> t = prev \<and> run" using e t3 by auto
    moreover have "idle (cpus s me) \<noteq> Some t"
      using calculation sched_invD(6) [OF D, of me t] run by auto
    ultimately show thesis using d q p(3) by (intro that [of t]) auto
  qed
qed

lemma schedule_inv:
  assumes "sched_inv s" "me < nr_cpus_possible s"
  shows "sched_inv (schedule me now s)"
proof -
  obtain prev where prev: "curr (cpus s me) = Some prev"
    using sched_invD(4) [of "{}" s me] assms by (auto simp: sched_inv_def)
  define run where "run \<longleftrightarrow> tstate (threads s prev) = TASK_RUNNING \<and> Some prev \<noteq> idle (cpus s me)"
  obtain n where "rescheduled me run prev n s (schedule me now s)" "rq_ok (schedule me now s)"
    "on_rq (threads s n) \<and> tcpu (threads s n) = me \<or> n = prev \<or> idle (cpus s me) = Some n"
    by (rule schedule_outcome [OF assms prev run_def refl])
  then show ?thesis using rescheduled_inv [OF assms prev run_def] by blast
qed


section \<open>Reachable states\<close>

definition blank_cpu :: cpu where
  "blank_cpu = \<lparr>online = True, curr = None, idle = None, runqueue = (\<lambda>_. []), rq_bitmap = 0, nr_running = 0,
     need_resched = False, ticks = 0, idle_ticks = 0, ctx_switches = 0,
     hw_regs = \<lparr>rfpsimd = 0, rtpidr = 0, rtpidrro = 0\<rparr>, hw_mm = None\<rparr>"

definition sched_blank :: "nat \<Rightarrow> sched" where
  "sched_blank n = \<lparr>threads = (\<lambda>_. blank_thread), cpus = (\<lambda>_. blank_cpu), nr_cpus_possible = n, all_threads = [],
     next_tid = 0, load_avg = [0, 0, 0], bkl = None, ipis = []\<rparr>"

text \<open>Start-up on \<open>n\<close> CPUs; thread \<open>c\<close> becomes the idle thread of CPU \<open>c\<close>.\<close>

fun boot_cpus :: "nat list \<Rightarrow> sched \<Rightarrow> sched kres" where
  "boot_cpus [] s = Inr s"
| "boot_cpus (c # cs) s = (case sched_cpu_init c (Some c) s of Inl e \<Rightarrow> Inl e | Inr s' \<Rightarrow> boot_cpus cs s')"

text \<open>
  A step is one operation on some CPU.  A thread object that \<^verbatim>\<open>thread_alloc\<close> gets is not in use; only the
  running thread, and never an idle thread, sets its own state.
\<close>

inductive sched_step :: "sched \<Rightarrow> sched \<Rightarrow> bool" where
  Set_state: "me < nr_cpus_possible s \<Longrightarrow> curr (cpus s me) = Some t \<Longrightarrow> idle (cpus s me) \<noteq> Some t \<Longrightarrow>
     sched_step s (upd_thread t (\<lambda>x. x\<lparr>tstate := v\<rparr>) s)"
| Wake: "me < nr_cpus_possible s \<Longrightarrow> sched_step s (snd (try_to_wake_up me t m s))"
| Alloc: "me < nr_cpus_possible s \<Longrightarrow> t \<notin> set (all_threads s) \<Longrightarrow> \<not> on_rq (threads s t) \<Longrightarrow> \<not> on_cpu (threads s t) \<Longrightarrow>
     \<not> idle_of s t \<Longrightarrow> sched_step s (snd (thread_alloc me name (Some t) (Some sp0) entry now s))"
| Add_new: "me < nr_cpus_possible s \<Longrightarrow> \<not> on_rq (threads s t) \<Longrightarrow> \<not> on_cpu (threads s t) \<Longrightarrow> \<not> idle_of s t \<Longrightarrow>
     sched_step s (sched_add_new me t s)"
| Schedule: "me < nr_cpus_possible s \<Longrightarrow> sched_step s (schedule me now s)"
| Yield: "me < nr_cpus_possible s \<Longrightarrow> sched_step s (yield me now s)"
| Tick: "me < nr_cpus_possible s \<Longrightarrow> sched_step s (scheduler_tick me user s)"
| Setscheduler: "me < nr_cpus_possible s \<Longrightarrow> sched_step s (snd (sched_setscheduler me t pol pr s))"
| Set_nice: "me < nr_cpus_possible s \<Longrightarrow> sched_step s (sched_set_nice me t nic s)"
| Affinity: "me < nr_cpus_possible s \<Longrightarrow> sched_step s (snd (sys_sched_setaffinity me now pid um s))"

inductive sched_reach :: "nat \<Rightarrow> sched \<Rightarrow> bool" for n where
  Boot: "0 < n \<Longrightarrow> boot_cpus [0 ..< n] (sched_blank n) = Inr s \<Longrightarrow> sched_reach n s"
| Step: "sched_reach n s \<Longrightarrow> sched_step s s' \<Longrightarrow> sched_reach n s'"

lemma boot_cpus_spec:
  "boot_cpus cs s = Inr s' \<Longrightarrow> distinct cs \<Longrightarrow>
   threads s' = (\<lambda>t. if t \<in> set cs then idle_thread t else threads s t) \<and>
   cpus s' = (\<lambda>c. if c \<in> set cs then (rq_init (cpus s c))\<lparr>idle := Some c, curr := Some c\<rparr> else cpus s c) \<and>
   nr_cpus_possible s' = nr_cpus_possible s \<and> all_threads s' = all_threads s"
proof (induction cs s rule: boot_cpus.induct)
  case (2 c cs s)
  let ?s = "upd_cpu c (\<lambda>r. r\<lparr>idle := Some c, curr := Some c\<rparr>) (upd_thread c (\<lambda>_. idle_thread c) (upd_cpu c rq_init s))"
  have i: "sched_cpu_init c (Some c) s = Inr ?s" by (simp add: sched_cpu_init_def Let_def)
  have "boot_cpus cs ?s = Inr s'" using 2(2) i by simp
  note IH = 2(1) [OF i this]
  have "c \<notin> set cs" "distinct cs" using 2(3) by auto
  then show ?case using IH by (auto simp: fun_eq_iff)
qed simp

lemma boot_inv:
  assumes "0 < n" "boot_cpus [0 ..< n] (sched_blank n) = Inr s"
  shows "sched_inv s"
proof -
  have t: "threads s = (\<lambda>t. if t < n then idle_thread t else blank_thread)"
    and c: "cpus s = (\<lambda>c. if c < n then (rq_init blank_cpu)\<lparr>idle := Some c, curr := Some c\<rparr> else blank_cpu)"
    and n: "nr_cpus_possible s = n" "all_threads s = []"
    using boot_cpus_spec [OF assms(2)] by (auto simp: sched_blank_def)
  have "rq_ok s" by (simp add: rq_ok_def rq_defs t c idle_thread_def blank_thread_def blank_cpu_def rq_init_def)
  then show ?thesis
    unfolding sched_inv_def using assms(1)
    by (intro sched_invI)
      (auto simp: t c n idle_of_def idle_thread_def blank_thread_def blank_cpu_def rq_init_def NR_PRIO_def
        TASK_RUNNING_def split: if_splits)
qed

lemma alloc_inv:
  assumes inv: "sched_inv s" and me: "me < nr_cpus_possible s"
    and t: "t \<notin> set (all_threads s)" "\<not> on_rq (threads s t)" "\<not> on_cpu (threads s t)" "\<not> idle_of s t"
  shows "sched_inv (snd (thread_alloc me name (Some t) (Some sp0) entry now s))"
    (is "sched_inv ?s")
proof -
  have D: "sched_invx {} s" using inv by (simp add: sched_inv_def)
  have c: "cpus ?s = cpus s" "nr_cpus_possible ?s = nr_cpus_possible s" "all_threads ?s = all_threads s @ [t]"
    by (simp_all add: thread_alloc_def Let_def)
  have th: "threads ?s u = threads s u" if "u \<noteq> t" for u using that by (simp add: thread_alloc_def Let_def)
  have tt: "\<not> on_rq (threads ?s t)" "\<not> on_cpu (threads ?s t)" "tcpu (threads ?s t) = me" "prio (threads ?s t) = 27"
    "tstate (threads ?s t) = TASK_UNINTERRUPTIBLE"
    by (simp_all add: thread_alloc_def Let_def blank_thread_def PRIO_NORMAL_def)
  have u: "on_rq (threads ?s u) = on_rq (threads s u)" "on_cpu (threads ?s u) = on_cpu (threads s u)" for u
    using th tt t by (cases "u = t"; simp)+
  have ne: "u \<noteq> t" if "curr (cpus s d) = Some u \<or> idle (cpus s d) = Some u \<or> on_rq (threads s u) \<or> on_cpu (threads s u)" for d u
    using that t sched_invD(2) [OF D, of d u] by (auto simp: idle_of_def)
  have ok: "rq_ok ?s"
    by (rule rq_ok_cong [OF sched_invD(1) [OF D]]) (use u th ne c in auto)
  show ?thesis unfolding sched_inv_def
  proof (rule sched_invI [OF ok])
    fix d v
    show "on_cpu (threads ?s v) \<and> tcpu (threads ?s v) = d \<and> \<not> on_rq (threads ?s v)" if "curr (cpus ?s d) = Some v"
      using that sched_invD(2) [OF D, of d v] ne [of d v] th [of v] u [of v] by (simp add: c)
    show "curr (cpus ?s (tcpu (threads ?s v))) = Some v" if "on_cpu (threads ?s v)"
      using that sched_invD(3) [OF D, of v] ne [of 0 v] th [of v] u [of v] by (simp add: c)
    show "curr (cpus ?s d) \<noteq> None \<and> idle (cpus ?s d) \<noteq> None" if "d < nr_cpus_possible ?s"
      using that sched_invD(4) [OF D, of d] by (auto simp: c)
    show "tcpu (threads ?s v) < nr_cpus_possible ?s" using sched_invD(5) [OF D, of v] tt me th [of v] by (cases "v = t") (simp_all add: c)
    show "\<not> on_rq (threads ?s v) \<and> tstate (threads ?s v) = TASK_RUNNING \<and> tcpu (threads ?s v) = d \<and> v \<notin> set (all_threads ?s)"
      if "idle (cpus ?s d) = Some v"
      using that sched_invD(6) [OF D, of d v] ne [of d v] th [of v] u [of v] by (simp add: c)
    show "prio (threads ?s v) < NR_PRIO" if "\<not> idle_of ?s v"
      using that sched_invD(7) [OF D, of v] tt th [of v] by (cases "v = t") (simp_all add: c idle_of_def NR_PRIO_def)
    show "on_rq (threads ?s v) \<or> on_cpu (threads ?s v)"
      if "v \<in> set (all_threads ?s)" "v \<notin> {}" "tstate (threads ?s v) = TASK_RUNNING"
      using that sched_invD(8) [OF D, of v] tt th [of v] u [of v] by (cases "v = t") (simp_all add: c task_defs)
  qed
qed

lemma set_state_inv:
  assumes inv: "sched_inv s" and t: "curr (cpus s me) = Some t" "idle (cpus s me) \<noteq> Some t"
  shows "sched_inv (upd_thread t (\<lambda>x. x\<lparr>tstate := v\<rparr>) s)"
proof -
  have D: "sched_invx {} s" using inv by (simp add: sched_inv_def)
  have c: "on_cpu (threads s t)" "tcpu (threads s t) = me" using sched_invD(2) [OF D t(1)] by auto
  have "\<not> idle_of s t" using sched_invD(6) [OF D, of _ t] c(2) t(2) unfolding idle_of_def by auto
  then show ?thesis by (intro exempt_void [OF mark_runnable [OF inv]]) (simp_all add: c)
qed

lemma yield_inv:
  assumes "sched_inv s" "me < nr_cpus_possible s"
  shows "sched_inv (yield me now s)"
  unfolding yield_def
  by (rule schedule_inv) (use assms in \<open>auto intro!: same_inv [OF same_upd_thread]\<close>)

lemma setaffinity_inv:
  assumes "sched_inv s" "me < nr_cpus_possible s"
  shows "sched_inv (snd (sys_sched_setaffinity me now pid um s))"
proof -
  have "sched_inv (upd_thread t (\<lambda>x. x\<lparr>cpus_allowed := m\<rparr>) s)" for t m
    by (rule same_inv [OF same_upd_thread assms(1)]) simp
  then show ?thesis using assms
    by (auto simp: sys_sched_setaffinity_def Let_def split: option.splits intro!: yield_inv)
qed

lemma sched_step_inv: "sched_step s s' \<Longrightarrow> sched_inv s \<Longrightarrow> sched_inv s'"
  by (induction rule: sched_step.induct)
    (simp_all add: set_state_inv try_to_wake_up_inv alloc_inv sched_add_new_inv schedule_inv yield_inv
      same_inv [OF scheduler_tick_same] sched_setscheduler_inv sched_set_nice_inv setaffinity_inv)

lemma sched_reach_inv: "sched_reach n s \<Longrightarrow> sched_inv s"
  by (induction rule: sched_reach.induct) (auto intro: boot_inv sched_step_inv)


section \<open>A machine with one CPU and one thread\<close>

definition demo_boot :: sched where
  "demo_boot = (case boot_cpus [0 ..< 1] (sched_blank 1) of Inr s \<Rightarrow> s | Inl _ \<Rightarrow> sched_blank 1)"

definition demo_alloc :: sched where
  "demo_alloc = snd (thread_alloc 0 [97] (Some 5) (Some 65536) 4096 0 demo_boot)"

definition demo_run :: sched where
  "demo_run = sched_add_new 0 5 demo_alloc"

lemma demo_boot_state:
  "threads demo_boot = (\<lambda>t. if t = 0 then idle_thread 0 else blank_thread)"
  "cpus demo_boot = (\<lambda>c. if c = 0 then blank_cpu\<lparr>idle := Some 0, curr := Some 0\<rparr> else blank_cpu)"
  "nr_cpus_possible demo_boot = 1" "all_threads demo_boot = []" "next_tid demo_boot = 0"
  by (simp_all add: demo_boot_def sched_cpu_init_def Let_def upd_cpu_def upd_thread_def sched_blank_def
      rq_init_def blank_cpu_def fun_eq_iff)

lemma demo_boot_reach: "sched_reach 1 demo_boot"
proof (rule sched_reach.Boot)
  show "boot_cpus [0 ..< 1] (sched_blank 1) = Inr demo_boot"
    by (simp add: demo_boot_def sched_cpu_init_def Let_def)
qed simp

lemma demo_alloc_reach: "sched_reach 1 demo_alloc"
  unfolding demo_alloc_def
  by (rule sched_reach.Step [OF demo_boot_reach sched_step.Alloc])
    (simp_all add: demo_boot_state blank_thread_def idle_of_def blank_cpu_def)

lemma demo_alloc_state:
  "cpus demo_alloc = cpus demo_boot" "nr_cpus_possible demo_alloc = 1" "all_threads demo_alloc = [5]"
  "on_rq (threads demo_alloc 5) = False" "on_cpu (threads demo_alloc 5) = False" "tcpu (threads demo_alloc 5) = 0"
  "prio (threads demo_alloc 5) = 27" "tstate (threads demo_alloc 5) = TASK_UNINTERRUPTIBLE"
  "cpus_allowed (threads demo_alloc 5) = - 1" "policy (threads demo_alloc 5) = SCHED_OTHER" "tid (threads demo_alloc 5) = 1"
  by (simp_all add: demo_alloc_def thread_alloc_def Let_def demo_boot_state blank_thread_def PRIO_NORMAL_def)

lemma demo_select:
  "select_cpu 5 (upd_thread 5 (\<lambda>x. x\<lparr>tstate := v\<rparr>) demo_alloc) = 0"
  by (simp add: select_cpu_def Let_def demo_alloc_state demo_boot_state cpu_idle_now_def blank_cpu_def)

lemma demo_run_reach: "sched_reach 1 demo_run"
  unfolding demo_run_def
  by (rule sched_reach.Step [OF demo_alloc_reach sched_step.Add_new])
    (simp_all add: demo_alloc_state demo_boot_state idle_of_def blank_cpu_def)

lemma demo_run_state:
  "tstate (threads demo_run 5) = TASK_RUNNING" "all_threads demo_run = [5]" "nr_cpus_possible demo_run = 1"
  "curr (cpus demo_run 0) = Some 0"
  by (simp_all add: demo_run_def sched_add_new_def activate_def demo_select Let_def resched_cpu_def
      demo_alloc_state demo_boot_state)

end
