(* ===== verification/Olux_Sched_Spec.thy ===== *)
theory Olux_Sched_Spec
  imports Olux_Sched
begin

text \<open>
  What the scheduler guarantees in every reachable state: no runnable thread is lost, the highest
  priority runs, wake-ups take effect; and the priority levels of the policies.
\<close>

section \<open>What the scheduler guarantees\<close>

lemma count_list_distinct: "distinct xs \<Longrightarrow> x \<in> set xs \<Longrightarrow> count_list xs x = 1"
  by (induction xs) (auto simp: count_list_0_iff)

text \<open>
  C15: No runnable thread is ever lost or duplicated.  In every reachable state a runnable thread is either
  the current thread of exactly its CPU and in no run queue, or it stands exactly once in exactly one run
  queue, that of its CPU and priority, whose bit in the bitmap is set; and \<^verbatim>\<open>nr_running\<close> counts the queues.
\<close>

theorem sched_no_thread_lost:
  assumes "sched_reach n s" "t \<in> set (all_threads s)" "tstate (threads s t) = TASK_RUNNING"
  shows "let x = threads s t; r = cpus s (tcpu x); queues = {(c, p). t \<in> set (runqueue (cpus s c) p)} in
    (curr r = Some t \<and> queues = {} \<or>
     (\<forall>c. curr (cpus s c) \<noteq> Some t) \<and> queues = {(tcpu x, prio x)} \<and>
     count_list (runqueue r (prio x)) t = 1 \<and> bit (rq_bitmap r) (prio x)) \<and>
    nr_running r = (\<Sum>p < NR_PRIO. length (runqueue r p))"
proof -
  have D: "sched_invx {} s" using sched_reach_inv [OF assms(1)] by (simp add: sched_inv_def)
  define x where "x = threads s t"
  have ok: "rq_ok s" by (rule sched_invD(1) [OF D])
  then have nr: "nr_running (cpus s (tcpu x)) = (\<Sum>p < NR_PRIO. length (runqueue (cpus s (tcpu x)) p))"
    by (simp add: rq_ok_def rq_count_def)
  have sound: "on_rq (threads s u) \<and> tcpu (threads s u) = c \<and> prio (threads s u) = p \<and> p < NR_PRIO"
    if "u \<in> set (runqueue (cpus s c) p)" for c p u
    using ok that unfolding rq_ok_def rq_sound_def by blast
  show ?thesis
  proof (cases "on_rq x")
    case True
    have m: "t \<in> set (runqueue (cpus s (tcpu x)) (prio x))"
      using ok True unfolding rq_ok_def rq_complete_def x_def by blast
    have d: "distinct (runqueue (cpus s (tcpu x)) (prio x))" using ok unfolding rq_ok_def rq_distinct_def by blast
    have "t \<in> set (runqueue (cpus s c) p) \<longleftrightarrow> c = tcpu x \<and> p = prio x" for c p
      using sound [of t c p] m unfolding x_def by metis
    then have q: "{(c, p). t \<in> set (runqueue (cpus s c) p)} = {(tcpu x, prio x)}" by auto
    have "runqueue (cpus s (tcpu x)) (prio x) \<noteq> []" using m by force
    moreover have "prio x < NR_PRIO" using sound [OF m] by blast
    ultimately have "bit (rq_bitmap (cpus s (tcpu x))) (prio x)" using ok unfolding rq_ok_def rq_bits_def by blast
    moreover have "count_list (runqueue (cpus s (tcpu x)) (prio x)) t = 1" by (rule count_list_distinct [OF d m])
    moreover have "curr (cpus s c) \<noteq> Some t" for c using sched_invD(2) [OF D, of c t] True by (auto simp: x_def)
    ultimately show ?thesis using q nr by (simp add: x_def [symmetric] Let_def)
  next
    case False
    then have "on_cpu x" using sched_invD(8) [OF D assms(2) _ assms(3)] by (auto simp: x_def)
    then have "curr (cpus s (tcpu x)) = Some t" using sched_invD(3) [OF D, of t] by (simp add: x_def)
    moreover have "t \<notin> set (runqueue (cpus s c) p)" for c p using sound [of t c p] False unfolding x_def by metis
    then have "{(c, p). t \<in> set (runqueue (cpus s c) p)} = {}" by simp
    ultimately show ?thesis using nr by (simp add: x_def [symmetric] Let_def)
  qed
qed

theorem sched_no_thread_lost_witness:
  "(let x = threads demo_run 5; r = cpus demo_run (tcpu x); queues = {(c, p). 5 \<in> set (runqueue (cpus demo_run c) p)} in
    (curr r = Some 5 \<and> queues = {} \<or>
     (\<forall>c. curr (cpus demo_run c) \<noteq> Some 5) \<and> queues = {(tcpu x, prio x)} \<and>
     count_list (runqueue r (prio x)) 5 = 1 \<and> bit (rq_bitmap r) (prio x)) \<and>
    nr_running r = (\<Sum>p < NR_PRIO. length (runqueue r p)))"
  by (rule sched_no_thread_lost [OF demo_run_reach]) (simp_all add: demo_run_state)

text \<open>
  C16: The highest priority runs.  After \<^verbatim>\<open>schedule\<close> on a CPU of a reachable state that CPU has a current
  thread; if it is the idle thread, no thread is left in the CPU's queues and the previous thread could
  not go on; otherwise no queued thread has a strictly higher priority, and a previous thread that can go
  on was kept or queued.
\<close>

theorem schedule_highest:
  assumes "sched_reach n s" "me < nr_cpus_possible s" "curr (cpus s me) = Some prev"
  shows "let S = schedule me now s in \<exists>u. curr (cpus S me) = Some u \<and>
    (if idle (cpus s me) = Some u
     then (\<forall>p < NR_PRIO. runqueue (cpus S me) p = []) \<and> (tstate (threads s prev) \<noteq> TASK_RUNNING \<or> prev = u)
     else (\<forall>p t. t \<in> set (runqueue (cpus S me) p) \<longrightarrow> prio (threads S u) \<le> prio (threads S t)) \<and>
          (tstate (threads s prev) = TASK_RUNNING \<and> idle (cpus s me) \<noteq> Some prev \<longrightarrow>
             prev = u \<or> prev \<in> set (runqueue (cpus S me) (prio (threads S prev)))))"
proof -
  define S where "S = schedule me now s"
  define run where "run \<longleftrightarrow> tstate (threads s prev) = TASK_RUNNING \<and> Some prev \<noteq> idle (cpus s me)"
  have inv: "sched_inv s" by (rule sched_reach_inv [OF assms(1)])
  obtain u where u: "rescheduled me run prev u s S" "rq_ok S"
    "on_rq (threads s u) \<and> tcpu (threads s u) = me \<or> u = prev \<or> idle (cpus s me) = Some u"
    "idle (cpus s me) \<noteq> Some u \<longrightarrow> (\<forall>p < prio (threads s u). runqueue (cpus S me) p = [])"
    "idle (cpus s me) = Some u \<longrightarrow> (\<forall>p < NR_PRIO. runqueue (cpus S me) p = []) \<and> \<not> run"
    "idle (cpus s me) \<noteq> Some u \<longrightarrow> u = prev \<longrightarrow> run"
    by (rule schedule_outcome [OF inv assms(2,3) run_def S_def])
  have c: "curr (cpus S me) = Some u" using u(1) by (simp add: rescheduled_def)
  have t: "prio (threads S t) = prio (threads s t)" for t using u(1) by (simp add: rescheduled_def)
  have D: "sched_invx {} s" using inv by (simp add: sched_inv_def)
  have A: "prio (threads S u) \<le> prio (threads S t)"
    if i: "idle (cpus s me) \<noteq> Some u" and q: "t \<in> set (runqueue (cpus S me) p)" for p t
  proof -
    have "prio (threads S t) = p" using u(2) q unfolding rq_ok_def rq_sound_def by blast
    moreover have "\<not> p < prio (threads s u)" using u(4) i q by auto
    ultimately show ?thesis using t by simp
  qed
  have B: "prev \<in> set (runqueue (cpus S me) (prio (threads S prev)))" if "run" "prev \<noteq> u"
  proof -
    have "tcpu (threads s prev) = me" using sched_invD(2) [OF D assms(3)] by simp
    then have "on_rq (threads S prev)" "tcpu (threads S prev) = me" using u(1) that by (simp_all add: rescheduled_def)
    then show ?thesis using u(2) unfolding rq_ok_def rq_complete_def by blast
  qed
  show ?thesis
  proof (cases "idle (cpus s me) = Some u")
    case True
    then have "\<forall>p < NR_PRIO. runqueue (cpus S me) p = []" "\<not> run" using u(5) by simp_all
    then show ?thesis
      unfolding S_def [symmetric] Let_def using True c by (intro exI [of _ u]) (auto simp: run_def)
  next
    case False
    have "prev = u \<or> prev \<in> set (runqueue (cpus S me) (prio (threads S prev)))"
      if "tstate (threads s prev) = TASK_RUNNING" "idle (cpus s me) \<noteq> Some prev"
    proof -
      have "run" using that by (auto simp: run_def)
      then show ?thesis using B by blast
    qed
    then show ?thesis
      unfolding S_def [symmetric] Let_def using False c A [OF False] by (intro exI [of _ u]) simp
  qed
qed

theorem schedule_highest_witness:
  "let S = schedule 0 7 demo_run in \<exists>u. curr (cpus S 0) = Some u \<and>
    (runqueue (cpus S 0) 27 = [] \<or> idle (cpus demo_run 0) \<noteq> Some u)"
proof -
  have "0 < nr_cpus_possible demo_run" "curr (cpus demo_run 0) = Some 0" by (simp_all add: demo_run_state)
  from schedule_highest [OF demo_run_reach this, of 7] show ?thesis
    unfolding Let_def by (auto simp: NR_PRIO_def split: if_splits)
qed

text \<open>
  C17: Wake-ups take effect.  Waking a thread whose state matches succeeds, and then it is runnable and
  either still running or in the run queue of its CPU; if it was neither queued nor running and has a
  higher priority than what its new CPU runs, that CPU is asked to reschedule, by an interrupt when it is
  not the waking CPU.
\<close>

theorem try_to_wake_up_effective:
  assumes "sched_reach n s" "has_flag (tstate (threads s t)) m" "try_to_wake_up me t m s = (r, S)"
  shows "r \<and> tstate (threads S t) = TASK_RUNNING \<and>
    (on_cpu (threads S t) \<or> t \<in> set (runqueue (cpus S (tcpu (threads S t))) (prio (threads S t)))) \<and>
    (\<not> on_rq (threads s t) \<longrightarrow> \<not> on_cpu (threads s t) \<longrightarrow> prio (threads s t) < curr_prio (tcpu (threads S t)) s \<longrightarrow>
       need_resched (cpus S (tcpu (threads S t))) \<and>
       (tcpu (threads S t) \<noteq> me \<longrightarrow> tcpu (threads S t) \<in> set (ipis S)))"
proof -
  define s1 where "s1 = upd_thread t (\<lambda>x. x\<lparr>tstate := TASK_RUNNING\<rparr>) s"
  have inv: "sched_inv S"
    using try_to_wake_up_inv [OF sched_reach_inv [OF assms(1)], of me t m] assms(3) by simp
  then have ok: "rq_ok S" by (simp add: sched_inv_def sched_invx_def)
  have S: "r" "S = (if on_rq (threads s t) \<or> on_cpu (threads s t) then s1 else activate me t s1)"
    using assms(2,3) by (auto simp: try_to_wake_up_def s1_def Let_def split: if_splits)
  have mem: "t \<in> set (runqueue (cpus S (tcpu (threads S t))) (prio (threads S t)))" if "on_rq (threads S t)"
    using ok that unfolding rq_ok_def rq_complete_def by blast
  show ?thesis
  proof (cases "on_rq (threads s t) \<or> on_cpu (threads s t)")
    case True
    then have "S = s1" using S(2) by simp
    then show ?thesis using S(1) True mem by (auto simp: s1_def)
  next
    case False
    define c where "c = select_cpu t s1"
    define s2 where "s2 = enqueue c t False s1"
    have A: "S = (if prio (threads s2 t) < curr_prio c s2 then resched_cpu me c s2 else s2)"
      using False by (simp add: S(2) activate_def Let_def c_def s2_def)
    have f: "on_rq (threads S t)" "tcpu (threads S t) = c" "tstate (threads S t) = TASK_RUNNING"
      unfolding A resched_cpu_def smp_send_reschedule_def s2_def Let_def by (simp_all add: s1_def)
    have "curr_prio c s2 = curr_prio c s"
      using sched_reach_inv [OF assms(1)]
      by (simp add: curr_prio_def s2_def s1_def split: option.splits)
    moreover have "prio (threads s2 t) = prio (threads s t)" by (simp add: s2_def s1_def)
    ultimately have "need_resched (cpus S c) \<and> (c \<noteq> me \<longrightarrow> c \<in> set (ipis S))" if "prio (threads s t) < curr_prio c s"
      unfolding A using that by (simp add: resched_cpu_def smp_send_reschedule_def Let_def)
    then show ?thesis using S(1) f mem by auto
  qed
qed

theorem try_to_wake_up_effective_witness:
  "let (r, S) = try_to_wake_up 0 5 TASK_UNINTERRUPTIBLE demo_alloc in
    r \<and> tstate (threads S 5) = TASK_RUNNING \<and>
    (on_cpu (threads S 5) \<or> 5 \<in> set (runqueue (cpus S (tcpu (threads S 5))) (prio (threads S 5))))"
proof -
  obtain r S where rS: "try_to_wake_up 0 5 TASK_UNINTERRUPTIBLE demo_alloc = (r, S)" by fastforce
  have "has_flag (tstate (threads demo_alloc 5)) TASK_UNINTERRUPTIBLE"
    by (simp add: demo_alloc_state has_flag_def task_defs)
  from try_to_wake_up_effective [OF demo_alloc_reach this rS] show ?thesis by (simp add: rS)
qed


section \<open>Priority levels and permissions\<close>

lemma sdiv7: "- 20 \<le> k \<Longrightarrow> k \<le> 19 \<Longrightarrow> - 2 \<le> k sdiv 7 \<and> k sdiv 7 \<le> (2 :: int)"
  by (auto simp: signed_divide_int_def sgn_if)

text \<open>
  The priority levels of the policies.  Real-time priorities 1 to 99 fall onto the levels 23 down to 0,
  never reversing their order; every nice value falls onto one of the levels 25 to 29, below all
  real-time levels and above the idle policy, so the levels 24 and 30 named by the comments are unused.
\<close>

lemma compute_prio_levels:
  assumes "pol = SCHED_FIFO \<or> pol = SCHED_RR" "1 \<le> r" "r \<le> r'" "r' \<le> 99" "- 20 \<le> k" "k \<le> 19"
  shows "0 \<le> compute_prio pol r' n \<and> compute_prio pol r' n \<le> compute_prio pol r n \<and> compute_prio pol r n \<le> 23 \<and>
    25 \<le> compute_prio SCHED_OTHER 0 k \<and> compute_prio SCHED_OTHER 0 k \<le> 29 \<and>
    compute_prio SCHED_BATCH 0 k = compute_prio SCHED_OTHER 0 k \<and> compute_prio SCHED_IDLE 0 k = 31"
proof -
  have "compute_prio pol r n = 23 - (r - 1) * 23 div 98" "compute_prio pol r' n = 23 - (r' - 1) * 23 div 98"
    by (rule compute_prio_rt [OF assms(1)]; use assms in linarith)+
  moreover have "(r - 1) * 23 div 98 \<le> (r' - 1) * 23 div 98" using assms by (intro zdiv_mono1) auto
  moreover have "0 \<le> (r - 1) * 23 div 98" "(r' - 1) * 23 div 98 \<le> 23" using assms by auto
  moreover have "compute_prio SCHED_OTHER 0 k = 27 + k sdiv 7" "compute_prio SCHED_BATCH 0 k = 27 + k sdiv 7"
    "compute_prio SCHED_IDLE 0 k = 31"
    using sdiv7 [OF assms(5,6)] by (auto simp: compute_prio_def policy_defs prio_defs CLAMP_def)
  ultimately show ?thesis using sdiv7 [OF assms(5,6)] by auto
qed

text \<open>
  C18: The permission check for real-time policies can be avoided.  Without root rights asking for
  \<^verbatim>\<open>SCHED_FIFO\<close> is refused, but the same request with the reset-on-fork bit set passes the check, which compares
  the unmasked value, and the thread becomes a FIFO thread of the wanted priority.
\<close>

theorem sched_fifo_without_root:
  assumes "sched_target me pid s = Some t" "1 \<le> pr" "pr \<le> 99"
  shows "sys_sched_setscheduler me False pid 1 (Some pr) s = (Inl EPERM, s) \<and>
    (let (r, S) = sys_sched_setscheduler me False pid (1 OR 0x40000000) (Some pr) s
     in r = Inr () \<and> policy (threads S t) = SCHED_FIFO \<and> rt_priority (threads S t) = pr)"
proof -
  have m: "sint (ucast ((1 OR 0x40000000 :: u64) AND NOT 0x40000000) :: 32 word) = SCHED_FIFO"
    by (simp add: SCHED_FIFO_def)
  have "(1 OR 0x40000000 :: u64) \<noteq> 1" "(1 OR 0x40000000 :: u64) \<noteq> 2" by simp_all
  then have "sys_sched_setscheduler me False pid (1 OR 0x40000000) (Some pr) s = sched_setscheduler me t SCHED_FIFO pr s"
    using assms(1) m by (simp add: sys_sched_setscheduler_def SCHED_FIFO_def SCHED_RR_def)
  moreover have "fst (sched_setscheduler me t SCHED_FIFO pr s) = Inr () \<and>
      policy (threads (snd (sched_setscheduler me t SCHED_FIFO pr s)) t) = SCHED_FIFO \<and>
      rt_priority (threads (snd (sched_setscheduler me t SCHED_FIFO pr s)) t) = pr"
    using assms by (simp add: sched_setscheduler_def sched_args_ok_def Let_def resched_cpu_def smp_send_reschedule_def)
  moreover have "sys_sched_setscheduler me False pid 1 (Some pr) s = (Inl EPERM, s)"
    using assms(1) by (simp add: sys_sched_setscheduler_def SCHED_FIFO_def)
  ultimately show ?thesis by (simp add: case_prod_beta)
qed

theorem sched_fifo_without_root_witness:
  "let (r, S) = sys_sched_setscheduler 0 False 1 (1 OR 0x40000000) (Some 99) demo_run
   in r = Inr () \<and> policy (threads S 5) = SCHED_FIFO \<and> rt_priority (threads S 5) = 99"
proof -
  have "tid (threads demo_run 5) = 1"
    by (simp add: demo_run_def sched_add_new_def activate_def Let_def resched_cpu_def smp_send_reschedule_def demo_alloc_state)
  then have "sched_target 0 1 demo_run = Some 5"
    by (simp add: sched_target_def thread_find_def demo_run_state task_defs)
  from sched_fifo_without_root [OF this, of 99] show ?thesis by simp
qed

text \<open>
  Changing the affinity does not move the thread.  A running thread that excludes its own CPU is put
  back into the run queue of that very CPU, against its new affinity mask.
\<close>

lemma setaffinity_stays:
  assumes "sched_reach n s" "me < nr_cpus_possible s" "curr (cpus s me) = Some t" "idle (cpus s me) \<noteq> Some t"
    "tstate (threads s t) = TASK_RUNNING" "m AND online_mask s \<noteq> 0" "\<not> bit m me"
    "sys_sched_setaffinity me now 0 (Some m) s = (r, S)"
  shows "r = Inr () \<and> (curr (cpus S me) = Some t \<or> t \<in> set (runqueue (cpus S me) (prio (threads S t))))"
proof -
  define s1 where "s1 = upd_thread t (\<lambda>x. x\<lparr>timeslice := 0\<rparr>) (upd_thread t (\<lambda>x. x\<lparr>cpus_allowed := m AND online_mask s\<rparr>) s)"
  have S: "r = Inr ()" "S = schedule me now s1"
    using assms by (auto simp: sys_sched_setaffinity_def sched_target_def yield_def s1_def)
  have same: "same_sched s s1" unfolding s1_def by (rule same_sched_trans; rule same_upd_thread; simp)
  have inv: "sched_inv s1" by (rule same_inv [OF same sched_reach_inv [OF assms(1)]])
  have e: "me < nr_cpus_possible s1" "curr (cpus s1 me) = Some t" using assms(2,3) by (simp_all add: s1_def)
  have run: "True \<longleftrightarrow> tstate (threads s1 t) = TASK_RUNNING \<and> Some t \<noteq> idle (cpus s1 me)"
    using assms(4,5) by (simp add: s1_def)
  obtain u where u: "rescheduled me True t u s1 S" "rq_ok S"
    by (rule schedule_outcome [OF inv e run S(2)])
  have "t \<in> set (runqueue (cpus S me) (prio (threads S t)))" if "u \<noteq> t"
  proof -
    have "tcpu (threads s1 t) = me" using sched_invD(2) [of "{}" s1 me t] inv e(2) by (simp add: sched_inv_def)
    then have "on_rq (threads S t)" "tcpu (threads S t) = me" using u(1) that by (simp_all add: rescheduled_def)
    then show ?thesis using u(2) unfolding rq_ok_def rq_complete_def by blast
  qed
  moreover have "curr (cpus S me) = Some u" using u(1) by (simp add: rescheduled_def)
  ultimately show ?thesis using S(1) by (cases "u = t") simp_all
qed

end
