(* ===== verification/Olux_Wait.thy ===== *)
theory Olux_Wait
  imports Olux_Sched
begin

text \<open>
  Wait queues, completions and sleeping mutexes (kernel/wait.c).  A queue is the list of the waiters
  linked into it, oldest first.  The waiting macros of include/olux/wait.h are loops around
  \<^verbatim>\<open>schedule()\<close>; one round of such a loop, up to the sleep, is one operation of the model.
\<close>

section \<open>Wait queues\<close>

type_synonym wref = nat

record waiter =
  wthread :: tref
  wwq :: "nat option"

record wait_state =
  wsched :: sched
  waiters :: "wref \<Rightarrow> waiter"
  wqs :: "nat \<Rightarrow> wref list"

definition SLEEPING :: u64 where
  "SLEEPING = TASK_INTERRUPTIBLE OR TASK_UNINTERRUPTIBLE"

definition current :: "nat \<Rightarrow> wait_state \<Rightarrow> tref" where
  "current me s = the (curr (cpus (wsched s) me))"

definition set_state :: "tref \<Rightarrow> u64 \<Rightarrow> wait_state \<Rightarrow> wait_state" where
  "set_state t st s = s\<lparr>wsched := upd_thread t (\<lambda>x. x\<lparr>tstate := st\<rparr>) (wsched s)\<rparr>"

definition wq_init :: "nat \<Rightarrow> wait_state \<Rightarrow> wait_state" where
  "wq_init q s = s\<lparr>wqs := (wqs s)(q := [])\<rparr>"

definition prepare_to_wait :: "nat \<Rightarrow> nat \<Rightarrow> wref \<Rightarrow> u64 \<Rightarrow> wait_state \<Rightarrow> wait_state" where
  "prepare_to_wait me q w st s =
     (let s1 = (if wwq (waiters s w) \<noteq> Some q \<or> w \<notin> set (wqs s q)
                then s\<lparr>waiters := (waiters s)(w := \<lparr>wthread = current me s, wwq = Some q\<rparr>),
                       wqs := (wqs s)(q := wqs s q @ [w])\<rparr>
                else s)
      in set_state (current me s1) st s1)"

definition finish_wait :: "nat \<Rightarrow> nat \<Rightarrow> wref \<Rightarrow> wait_state \<Rightarrow> wait_state" where
  "finish_wait me q w s =
     (let s1 = set_state (current me s) TASK_RUNNING s;
          s2 = (if wwq (waiters s1 w) = Some q \<and> w \<in> set (wqs s1 q)
                then s1\<lparr>wqs := (wqs s1)(q := remove1 w (wqs s1 q))\<rparr> else s1)
      in s2\<lparr>waiters := (waiters s2)(w := (waiters s2 w)\<lparr>wwq := None\<rparr>)\<rparr>)"

text \<open>Waking every thread of a list, and waking until one wake-up succeeds.\<close>

fun wake_list :: "('t \<Rightarrow> 's \<Rightarrow> bool \<times> 's) \<Rightarrow> 't list \<Rightarrow> 's \<Rightarrow> 's" where
  "wake_list wake [] s = s"
| "wake_list wake (t # ts) s = wake_list wake ts (snd (wake t s))"

fun wake_first :: "('t \<Rightarrow> 's \<Rightarrow> bool \<times> 's) \<Rightarrow> 't list \<Rightarrow> 's \<Rightarrow> 's" where
  "wake_first wake [] s = s"
| "wake_first wake (t # ts) s = (case wake t s of (True, s') \<Rightarrow> s' | (False, s') \<Rightarrow> wake_first wake ts s')"

definition queue_threads :: "nat \<Rightarrow> wait_state \<Rightarrow> tref list" where
  "queue_threads q s = map (\<lambda>w. wthread (waiters s w)) (wqs s q)"

definition wake_up :: "nat \<Rightarrow> nat \<Rightarrow> wait_state \<Rightarrow> wait_state" where
  "wake_up me q s =
     s\<lparr>wsched := wake_list (\<lambda>t. try_to_wake_up me t SLEEPING) (queue_threads q s) (wsched s)\<rparr>"

definition wake_up_one :: "nat \<Rightarrow> nat \<Rightarrow> wait_state \<Rightarrow> wait_state" where
  "wake_up_one me q s =
     s\<lparr>wsched := wake_first (\<lambda>t. try_to_wake_up me t SLEEPING) (queue_threads q s) (wsched s)\<rparr>"

definition wq_has_waiters :: "nat \<Rightarrow> wait_state \<Rightarrow> bool" where
  "wq_has_waiters q s \<longleftrightarrow> wqs s q \<noteq> []"

text \<open>
  One round of \<^verbatim>\<open>wait_event\<close> and \<^verbatim>\<open>wait_event_interruptible\<close>: the condition is tested with the waiter queued
  and may change the state (\<open>cond\<close> returns the new state).  \<open>Asleep\<close>: the thread called \<^verbatim>\<open>schedule()\<close> and the next
  round starts when it runs again.
\<close>

datatype wait_outcome = Ready | Interrupted | Asleep

definition wait_event_round ::
  "nat \<Rightarrow> nat \<Rightarrow> wref \<Rightarrow> u64 \<Rightarrow> (wait_state \<Rightarrow> bool \<times> wait_state) \<Rightarrow> wait_state \<Rightarrow> wait_outcome \<times> wait_state" where
  "wait_event_round me q w now cond s =
     (case cond (prepare_to_wait me q w TASK_UNINTERRUPTIBLE s) of
        (True, s1) \<Rightarrow> (Ready, finish_wait me q w s1)
      | (False, s1) \<Rightarrow> (Asleep, s1\<lparr>wsched := schedule me now (wsched s1)\<rparr>))"

definition wait_event_interruptible_round ::
  "nat \<Rightarrow> nat \<Rightarrow> wref \<Rightarrow> u64 \<Rightarrow> bool \<Rightarrow> (wait_state \<Rightarrow> bool \<times> wait_state) \<Rightarrow> wait_state \<Rightarrow> wait_outcome \<times> wait_state" where
  "wait_event_interruptible_round me q w now signal_pending cond s =
     (case cond (prepare_to_wait me q w TASK_INTERRUPTIBLE s) of
        (True, s1) \<Rightarrow> (Ready, finish_wait me q w s1)
      | (False, s1) \<Rightarrow>
          if signal_pending then (Interrupted, finish_wait me q w s1)
          else (Asleep, s1\<lparr>wsched := schedule me now (wsched s1)\<rparr>))"


section \<open>Completions\<close>

record completion =
  cwq :: nat
  cdone :: u32

definition init_completion :: "nat \<Rightarrow> wait_state \<Rightarrow> completion \<times> wait_state" where
  "init_completion q s = (\<lparr>cwq = q, cdone = 0\<rparr>, wq_init q s)"

definition complete :: "nat \<Rightarrow> completion \<Rightarrow> wait_state \<Rightarrow> completion \<times> wait_state" where
  "complete me c s = (c\<lparr>cdone := cdone c + 1\<rparr>, wake_up_one me (cwq c) s)"

definition complete_all :: "nat \<Rightarrow> completion \<Rightarrow> wait_state \<Rightarrow> completion \<times> wait_state" where
  "complete_all me c s = (c\<lparr>cdone := push_bit 30 1\<rparr>, wake_up me (cwq c) s)"

definition try_consume :: "completion \<Rightarrow> bool \<times> completion" where
  "try_consume c =
     (let ok = 0 < cdone c
      in (ok, if ok \<and> cdone c < push_bit 30 1 then c\<lparr>cdone := cdone c - 1\<rparr> else c))"

definition wait_for_completion_round ::
  "nat \<Rightarrow> wref \<Rightarrow> u64 \<Rightarrow> completion \<Rightarrow> wait_state \<Rightarrow> wait_outcome \<times> completion \<times> wait_state" where
  "wait_for_completion_round me w now c s =
     (let s1 = prepare_to_wait me (cwq c) w TASK_UNINTERRUPTIBLE s in
      case try_consume c of
        (True, c1) \<Rightarrow> (Ready, c1, finish_wait me (cwq c) w s1)
      | (False, c1) \<Rightarrow> (Asleep, c1, s1\<lparr>wsched := schedule me now (wsched s1)\<rparr>))"


section \<open>Mutexes\<close>

record mutex =
  mowner :: "tref option"
  mwq :: nat

definition mutex_init :: "nat \<Rightarrow> wait_state \<Rightarrow> mutex \<times> wait_state" where
  "mutex_init q s = (\<lparr>mowner = None, mwq = q\<rparr>, wq_init q s)"

definition mutex_try :: "tref \<Rightarrow> mutex \<Rightarrow> bool \<times> mutex" where
  "mutex_try t m = (if mowner m = None then (True, m\<lparr>mowner := Some t\<rparr>) else (False, m))"

text \<open>The two halves of \<^verbatim>\<open>mutex_unlock\<close>: the release store, and the wake-up of one waiter.\<close>

definition mutex_release :: "mutex \<Rightarrow> mutex" where
  "mutex_release m = m\<lparr>mowner := None\<rparr>"

definition mutex_unlock :: "nat \<Rightarrow> mutex \<Rightarrow> wait_state \<Rightarrow> mutex \<times> wait_state" where
  "mutex_unlock me m s = (mutex_release m, wake_up_one me (mwq m) s)"


section \<open>The contract of a wake-up\<close>

text \<open>
  What the wait queues need of \<^verbatim>\<open>try_to_wake_up\<close>: it reports whether the thread was in a state of the mask,
  then the thread is runnable, and it changes no other thread's state.
\<close>

locale waker =
  fixes st :: "'s \<Rightarrow> 't \<Rightarrow> u64" and wake :: "'t \<Rightarrow> 's \<Rightarrow> bool \<times> 's" and m :: u64
  assumes wake_miss: "\<not> has_flag (st s t) m \<Longrightarrow> wake t s = (False, s)"
    and wake_hit: "has_flag (st s t) m \<Longrightarrow> fst (wake t s)"
    and wake_runs: "has_flag (st s t) m \<Longrightarrow> st (snd (wake t s)) t = 0"
    and wake_other: "u \<noteq> t \<Longrightarrow> st (snd (wake t s)) u = st s u"
begin

lemma wake_state:
  "st (snd (wake t s)) u = (if u = t \<and> has_flag (st s t) m then 0 else st s u)"
  using wake_miss [of s t] wake_runs [of s t] wake_other [of u t s] by (cases "u = t"; cases "has_flag (st s t) m") auto

lemma wake_list_state:
  "st (wake_list wake ts s) u = (if u \<in> set ts \<and> has_flag (st s u) m then 0 else st s u)"
proof (induction ts arbitrary: s)
  case (Cons t ts)
  show ?case by (auto simp: Cons wake_state)
qed simp

lemma wake_list_wakes: "t \<in> set ts \<Longrightarrow> \<not> has_flag (st (wake_list wake ts s) t) m"
  by (simp add: wake_list_state)

text \<open>Exactly the first sleeping thread of the list is woken.\<close>

lemma wake_first_state:
  "st (wake_first wake ts s) u =
     (if find (\<lambda>t. has_flag (st s t) m) ts = Some u then 0 else st s u)"
proof (induction ts arbitrary: s)
  case (Cons t ts)
  show ?case
  proof (cases "has_flag (st s t) m")
    case True
    then obtain s' where s': "wake t s = (True, s')" using wake_hit [OF True] by (cases "wake t s") auto
    then show ?thesis using True wake_state [of t s u] by auto
  next
    case False
    then show ?thesis using wake_miss [OF False] Cons by simp
  qed
qed simp

end

lemma resched_cpu_threads: "threads (resched_cpu me c s) = threads s"
  by (simp add: resched_cpu_def smp_send_reschedule_def Let_def upd_cpu_def)

lemma activate_tstate: "tstate (threads (activate me t s) u) = tstate (threads s u)"
  by (simp add: activate_def Let_def resched_cpu_threads)

interpretation tw: waker "\<lambda>s t. tstate (threads s t)" "\<lambda>t. try_to_wake_up me t m" m for me m
  by unfold_locales (auto simp: try_to_wake_up_def Let_def activate_tstate TASK_RUNNING_def)


section \<open>The mutex protocol\<close>

text \<open>
  Threads on all CPUs lock and unlock one mutex; every atomic access and every sleep is a step of its
  own.  The waiter of thread \<open>t\<close> lives on its stack and is named \<open>t\<close>.  The states follow \<^verbatim>\<open>mutex_lock\<close>: about to
  queue (out or retrying), queued and about to try, got it and not yet unqueued, about to sleep, asleep in
  \<^verbatim>\<open>schedule()\<close>, holding; and \<^verbatim>\<open>mutex_unlock\<close> between its release and its wake-up.
\<close>

datatype mutex_pc = MOut | MTry | MGot | MSleep | MAsleep | MRetry | MHold | MWake

record mutex_state =
  mws :: wait_state
  mmx :: mutex
  mpc :: "tref \<Rightarrow> mutex_pc"

inductive mutex_step :: "mutex_state \<Rightarrow> mutex_state \<Rightarrow> bool" where
  Prepare: "current c (mws s) = t \<Longrightarrow> mpc s t = MOut \<or> mpc s t = MRetry \<Longrightarrow>
    mutex_step s (s\<lparr>mws := prepare_to_wait c (mwq (mmx s)) t TASK_UNINTERRUPTIBLE (mws s), mpc := (mpc s)(t := MTry)\<rparr>)"
| Try_got: "current c (mws s) = t \<Longrightarrow> mpc s t = MTry \<Longrightarrow> mutex_try t (mmx s) = (True, m') \<Longrightarrow>
    mutex_step s (s\<lparr>mmx := m', mpc := (mpc s)(t := MGot)\<rparr>)"
| Try_failed: "current c (mws s) = t \<Longrightarrow> mpc s t = MTry \<Longrightarrow> mutex_try t (mmx s) = (False, m') \<Longrightarrow>
    mutex_step s (s\<lparr>mmx := m', mpc := (mpc s)(t := MSleep)\<rparr>)"
| Finish: "current c (mws s) = t \<Longrightarrow> mpc s t = MGot \<Longrightarrow>
    mutex_step s (s\<lparr>mws := finish_wait c (mwq (mmx s)) t (mws s), mpc := (mpc s)(t := MHold)\<rparr>)"
| Sleep: "current c (mws s) = t \<Longrightarrow> mpc s t = MSleep \<Longrightarrow>
    mutex_step s (s\<lparr>mws := (mws s)\<lparr>wsched := schedule c now (wsched (mws s))\<rparr>, mpc := (mpc s)(t := MAsleep)\<rparr>)"
| Resume: "current c (mws s) = t \<Longrightarrow> mpc s t = MAsleep \<Longrightarrow> mutex_step s (s\<lparr>mpc := (mpc s)(t := MRetry)\<rparr>)"
| Release: "current c (mws s) = t \<Longrightarrow> mpc s t = MHold \<Longrightarrow>
    mutex_step s (s\<lparr>mmx := mutex_release (mmx s), mpc := (mpc s)(t := MWake)\<rparr>)"
| Wake_one: "current c (mws s) = t \<Longrightarrow> mpc s t = MWake \<Longrightarrow>
    mutex_step s (s\<lparr>mws := wake_up_one c (mwq (mmx s)) (mws s), mpc := (mpc s)(t := MOut)\<rparr>)"
| Switch: "mutex_step s (s\<lparr>mws := (mws s)\<lparr>wsched := schedule c now (wsched (mws s))\<rparr>\<rparr>)"

inductive mutex_reach :: "mutex_state \<Rightarrow> bool" where
  Init: "mutex_init q ws = (m, ws') \<Longrightarrow> mutex_reach \<lparr>mws = ws', mmx = m, mpc = (\<lambda>_. MOut)\<rparr>"
| Step: "mutex_reach s \<Longrightarrow> mutex_step s s' \<Longrightarrow> mutex_reach s'"

definition asleep :: "mutex_state \<Rightarrow> tref \<Rightarrow> bool" where
  "asleep s t \<longleftrightarrow> has_flag (tstate (threads (wsched (mws s)) t)) SLEEPING"

definition mutex_owner_ok :: "mutex_state \<Rightarrow> bool" where
  "mutex_owner_ok s \<longleftrightarrow> (\<forall>t. mowner (mmx s) = Some t \<longleftrightarrow> mpc s t \<in> {MGot, MHold})"

definition mutex_queue_ok :: "mutex_state \<Rightarrow> bool" where
  "mutex_queue_ok s \<longleftrightarrow> distinct (wqs (mws s) (mwq (mmx s))) \<and>
     (\<forall>t. t \<in> set (wqs (mws s) (mwq (mmx s))) \<longleftrightarrow> mpc s t \<in> {MTry, MGot, MSleep, MAsleep, MRetry}) \<and>
     (\<forall>t \<in> set (wqs (mws s) (mwq (mmx s))). waiters (mws s) t = \<lparr>wthread = t, wwq = Some (mwq (mmx s))\<rparr>)"

definition mutex_live :: "mutex_state \<Rightarrow> bool" where
  "mutex_live s \<longleftrightarrow> (mowner (mmx s) = None \<longrightarrow> (\<exists>w. mpc s w \<in> {MSleep, MAsleep} \<and> asleep s w) \<longrightarrow>
     (\<exists>u. mpc s u \<in> {MWake, MTry, MRetry} \<or> mpc s u \<in> {MSleep, MAsleep} \<and> \<not> asleep s u))"

definition mutex_inv :: "mutex_state \<Rightarrow> bool" where
  "mutex_inv s \<longleftrightarrow> mutex_owner_ok s \<and> mutex_queue_ok s \<and> mutex_live s"

lemma schedule_tstate: "tstate (threads (schedule me now s) t) = tstate (threads s t)"
proof -
  have sw: "tstate (threads (switch_to me now p n s') t) = tstate (threads s' t)" for p n s'
    by (simp add: switch_to_def switch_regs_def switch_mm_def finish_switch_fields Let_def)
  have pk: "tstate (threads (snd (pick_next me s')) t) = tstate (threads s' t)" for s'
    by (simp add: pick_next_def Let_def)
  define s3 where "s3 = requeue_prev me (the (curr (cpus s me)))
    (upd_cpu me (\<lambda>r. r\<lparr>need_resched := False\<rparr>) (drop_bkl (the (curr (cpus s me))) s))"
  have "tstate (threads (schedule me now s) t) = tstate (threads s3 t)"
    unfolding schedule_def Let_def s3_def [symmetric] using pk [of s3] by (auto simp: sw split: prod.splits)
  also have "\<dots> = tstate (threads s t)" by (simp add: s3_def requeue_prev_fields drop_bkl_def)
  finally show ?thesis .
qed

lemma mutex_switch_inv:
  assumes "mutex_inv s"
  shows "mutex_inv (s\<lparr>mws := (mws s)\<lparr>wsched := schedule c now (wsched (mws s))\<rparr>\<rparr>)"
  using assms by (simp add: mutex_inv_def mutex_owner_ok_def mutex_queue_ok_def mutex_live_def asleep_def schedule_tstate)

text \<open>A step to a state that will try, or that is about to wake somebody, keeps the liveness clause.\<close>

lemma mutex_live_active: "mpc s u \<in> {MWake, MTry, MRetry} \<Longrightarrow> mutex_live s"
  by (auto simp: mutex_live_def)

lemma mutex_live_owned: "mowner (mmx s) = Some t \<Longrightarrow> mutex_live s"
  by (simp add: mutex_live_def)

lemma mutex_prepare_inv:
  assumes inv: "mutex_inv s" and t: "current c (mws s) = t" "mpc s t = MOut \<or> mpc s t = MRetry"
  shows "mutex_inv (s\<lparr>mws := prepare_to_wait c (mwq (mmx s)) t TASK_UNINTERRUPTIBLE (mws s), mpc := (mpc s)(t := MTry)\<rparr>)"
    (is "mutex_inv ?s")
proof -
  have q: "mutex_queue_ok s" "mutex_owner_ok s" using inv by (simp_all add: mutex_inv_def)
  have "mutex_owner_ok ?s" using q(2) t(2) by (auto simp: mutex_owner_ok_def)
  moreover have "mutex_queue_ok ?s"
  proof (cases "mpc s t = MOut")
    case True
    then have n: "t \<notin> set (wqs (mws s) (mwq (mmx s)))" using q(1) by (auto simp: mutex_queue_ok_def)
    then have "wqs (mws ?s) (mwq (mmx ?s)) = wqs (mws s) (mwq (mmx s)) @ [t]"
      "waiters (mws ?s) = (waiters (mws s))(t := \<lparr>wthread = t, wwq = Some (mwq (mmx s))\<rparr>)"
      using t(1) by (simp_all add: prepare_to_wait_def set_state_def Let_def)
    then show ?thesis using q(1) n unfolding mutex_queue_ok_def by auto
  next
    case False
    then have r: "mpc s t = MRetry" using t(2) by simp
    then have m: "t \<in> set (wqs (mws s) (mwq (mmx s)))" using q(1) by (auto simp: mutex_queue_ok_def)
    then have "wwq (waiters (mws s) t) = Some (mwq (mmx s))" using q(1) by (auto simp: mutex_queue_ok_def)
    then have "wqs (mws ?s) (mwq (mmx ?s)) = wqs (mws s) (mwq (mmx s))" "waiters (mws ?s) = waiters (mws s)"
      using m by (simp_all add: prepare_to_wait_def set_state_def Let_def)
    then show ?thesis using q(1) r m unfolding mutex_queue_ok_def by auto
  qed
  moreover have "mutex_live ?s" by (rule mutex_live_active [of _ t]) simp
  ultimately show ?thesis by (simp add: mutex_inv_def)
qed

lemma mutex_try_inv:
  assumes inv: "mutex_inv s" and t: "mpc s t = MTry" and tr: "mutex_try t (mmx s) = (ok, m')"
  shows "mutex_inv (s\<lparr>mmx := m', mpc := (mpc s)(t := (if ok then MGot else MSleep))\<rparr>)" (is "mutex_inv ?s")
proof -
  have q: "mutex_queue_ok s" "mutex_owner_ok s" using inv by (simp_all add: mutex_inv_def)
  have wq: "mwq m' = mwq (mmx s)" using tr by (auto simp: mutex_try_def split: if_splits)
  have "mutex_queue_ok ?s" using q(1) t unfolding mutex_queue_ok_def by (auto simp: wq)
  moreover have "mutex_owner_ok ?s \<and> (\<exists>u. mowner (mmx ?s) = Some u)"
  proof (cases "mowner (mmx s)")
    case None
    then have "mowner m' = Some t" "ok" using tr by (auto simp: mutex_try_def)
    moreover have "mpc s u \<notin> {MGot, MHold}" for u using q(2) None by (auto simp: mutex_owner_ok_def)
    ultimately show ?thesis by (auto simp: mutex_owner_ok_def)
  next
    case (Some v)
    then have "m' = mmx s" "\<not> ok" using tr by (auto simp: mutex_try_def)
    then show ?thesis using q(2) Some t by (auto simp: mutex_owner_ok_def)
  qed
  ultimately show ?thesis using mutex_live_owned by (auto simp: mutex_inv_def)
qed

lemma mutex_finish_inv:
  assumes inv: "mutex_inv s" and t: "current c (mws s) = t" "mpc s t = MGot"
  shows "mutex_inv (s\<lparr>mws := finish_wait c (mwq (mmx s)) t (mws s), mpc := (mpc s)(t := MHold)\<rparr>)" (is "mutex_inv ?s")
proof -
  have q: "mutex_queue_ok s" "mutex_owner_ok s" using inv by (simp_all add: mutex_inv_def)
  have m: "t \<in> set (wqs (mws s) (mwq (mmx s)))" using q(1) t by (auto simp: mutex_queue_ok_def)
  then have w: "waiters (mws s) t = \<lparr>wthread = t, wwq = Some (mwq (mmx s))\<rparr>" using q(1) by (auto simp: mutex_queue_ok_def)
  have "wqs (mws ?s) (mwq (mmx ?s)) = remove1 t (wqs (mws s) (mwq (mmx s)))"
    "\<And>u. u \<noteq> t \<Longrightarrow> waiters (mws ?s) u = waiters (mws s) u"
    using m w by (simp_all add: finish_wait_def set_state_def Let_def)
  then have "mutex_queue_ok ?s" using q(1) t(2) unfolding mutex_queue_ok_def by auto
  moreover have "mutex_owner_ok ?s" using q(2) t(2) by (auto simp: mutex_owner_ok_def)
  moreover have "mowner (mmx ?s) = Some t" using q(2) t(2) by (auto simp: mutex_owner_ok_def)
  ultimately show ?thesis using mutex_live_owned by (auto simp: mutex_inv_def)
qed

lemma mutex_release_inv:
  assumes inv: "mutex_inv s" and t: "mpc s t = MHold"
  shows "mutex_inv (s\<lparr>mmx := mutex_release (mmx s), mpc := (mpc s)(t := MWake)\<rparr>)" (is "mutex_inv ?s")
proof -
  have q: "mutex_queue_ok s" "mutex_owner_ok s" using inv by (simp_all add: mutex_inv_def)
  have o: "mowner (mmx s) = Some t" using q(2) t by (auto simp: mutex_owner_ok_def)
  then have "mpc s u \<notin> {MGot, MHold}" if "u \<noteq> t" for u
    using q(2) that by (metis mutex_owner_ok_def option.inject)
  then have "mutex_owner_ok ?s" by (auto simp: mutex_owner_ok_def mutex_release_def)
  moreover have "mutex_queue_ok ?s" using q(1) t unfolding mutex_queue_ok_def by (auto simp: mutex_release_def)
  moreover have "mutex_live ?s" by (rule mutex_live_active [of _ t]) simp
  ultimately show ?thesis by (simp add: mutex_inv_def)
qed

lemma mutex_wake_inv:
  assumes inv: "mutex_inv s" and t: "mpc s t = MWake"
  shows "mutex_inv (s\<lparr>mws := wake_up_one c (mwq (mmx s)) (mws s), mpc := (mpc s)(t := MOut)\<rparr>)" (is "mutex_inv ?s")
proof -
  have q: "mutex_queue_ok s" "mutex_owner_ok s" using inv by (simp_all add: mutex_inv_def)
  define Q where "Q = wqs (mws s) (mwq (mmx s))"
  have f: "wqs (mws ?s) = wqs (mws s)" "waiters (mws ?s) = waiters (mws s)" by (simp_all add: wake_up_one_def)
  have 1: "mutex_queue_ok ?s" using q(1) t unfolding mutex_queue_ok_def f by auto
  have 2: "mutex_owner_ok ?s" using q(2) t by (auto simp: mutex_owner_ok_def)
  have qt: "queue_threads (mwq (mmx s)) (mws s) = Q"
    using q(1) by (auto simp: queue_threads_def Q_def mutex_queue_ok_def intro: map_idI)
  have st: "tstate (threads (wsched (mws ?s)) u) =
      (if find (asleep s) Q = Some u then 0 else tstate (threads (wsched (mws s)) u))" for u
    by (simp add: wake_up_one_def qt tw.wake_first_state asleep_def [abs_def])
  have 3: "mutex_live ?s"
    unfolding mutex_live_def
  proof (intro impI)
    assume o: "mowner (mmx ?s) = None" and "\<exists>w. mpc ?s w \<in> {MSleep, MAsleep} \<and> asleep ?s w"
    then obtain w where w: "mpc ?s w \<in> {MSleep, MAsleep}" "asleep ?s w" by blast
    have "asleep s w" using w(2) st [of w] by (auto simp: asleep_def split: if_splits)
    moreover have "w \<in> set Q" using w(1) q(1) by (auto simp: mutex_queue_ok_def Q_def split: if_splits)
    ultimately obtain u where u: "find (asleep s) Q = Some u" by (cases "find (asleep s) Q") (auto simp: find_None_iff)
    then have "u \<in> set Q" by (auto simp: find_Some_iff)
    then have "mpc s u \<in> {MTry, MGot, MSleep, MAsleep, MRetry}" using q(1) by (auto simp: mutex_queue_ok_def Q_def)
    moreover have "mpc s u \<noteq> MGot" using q(2) o by (auto simp: mutex_owner_ok_def)
    moreover have "\<not> asleep ?s u" using st [of u] u by (simp add: asleep_def)
    moreover have "u \<noteq> t" using calculation(1) t by auto
    ultimately have "mpc ?s u \<in> {MTry, MRetry} \<or> mpc ?s u \<in> {MSleep, MAsleep} \<and> \<not> asleep ?s u" by auto
    then show "\<exists>u. mpc ?s u \<in> {MWake, MTry, MRetry} \<or> mpc ?s u \<in> {MSleep, MAsleep} \<and> \<not> asleep ?s u" by blast
  qed
  show ?thesis using 1 2 3 by (simp add: mutex_inv_def)
qed

lemma mutex_pc_inv:
  assumes inv: "mutex_inv s" and t: "mpc s t = p" "(p, p') \<in> {(MSleep, MAsleep), (MAsleep, MRetry)}"
  shows "mutex_inv (s\<lparr>mpc := (mpc s)(t := p')\<rparr>)" (is "mutex_inv ?s")
proof -
  have "mutex_queue_ok ?s" "mutex_owner_ok ?s"
    using inv t by (auto simp: mutex_inv_def mutex_queue_ok_def mutex_owner_ok_def)
  moreover have "mutex_live ?s"
  proof (cases "p' = MRetry")
    case True
    then show ?thesis by (intro mutex_live_active [of _ t]) simp
  next
    case False
    then have p: "p = MSleep" "p' = MAsleep" using t by auto
    have "mpc ?s u \<in> {MSleep, MAsleep} \<longleftrightarrow> mpc s u \<in> {MSleep, MAsleep}"
      "mpc ?s u \<in> {MWake, MTry, MRetry} \<longleftrightarrow> mpc s u \<in> {MWake, MTry, MRetry}" for u using p t by auto
    moreover have "asleep ?s = asleep s" by (simp add: asleep_def [abs_def])
    ultimately show ?thesis using inv unfolding mutex_inv_def mutex_live_def by simp
  qed
  ultimately show ?thesis by (simp add: mutex_inv_def)
qed

lemma mutex_reach_inv: "mutex_reach s \<Longrightarrow> mutex_inv s"
proof (induction rule: mutex_reach.induct)
  case (Init q ws m ws')
  then show ?case
    by (auto simp: mutex_init_def wq_init_def mutex_inv_def mutex_owner_ok_def mutex_queue_ok_def mutex_live_def)
next
  case (Step s s')
  from Step(2) show ?case
  proof cases
    case (Sleep c t now)
    from mutex_pc_inv [OF mutex_switch_inv [OF Step(3), of c now], where t = t and p = MSleep and p' = MAsleep] show ?thesis
      unfolding Sleep(1) using Sleep(3) by simp
  next
    case (Try_got c t m')
    then show ?thesis using mutex_try_inv [OF Step(3), of t True m'] by simp
  next
    case (Try_failed c t m')
    then show ?thesis using mutex_try_inv [OF Step(3), of t False m'] by simp
  next
    case (Resume c t)
    then show ?thesis using mutex_pc_inv [OF Step(3), of t MAsleep MRetry] by simp
  qed (use Step(3) mutex_prepare_inv mutex_finish_inv mutex_release_inv mutex_wake_inv mutex_switch_inv in blast)+
qed

text \<open>
  C20: Mutexes exclude and lose no wake-up.  In every reachable state at most one thread holds the mutex, and
  it is the recorded owner; and whenever the mutex is free while some thread sleeps for it, another thread
  is about to wake a waiter, about to try again, or has been woken and not tried yet.
\<close>

theorem mutex_correct:
  assumes "mutex_reach s"
  shows "(mpc s t \<in> {MGot, MHold} \<longrightarrow> mowner (mmx s) = Some t) \<and>
    (mpc s t \<in> {MGot, MHold} \<longrightarrow> mpc s u \<in> {MGot, MHold} \<longrightarrow> t = u) \<and>
    (mowner (mmx s) = None \<longrightarrow> mpc s w \<in> {MSleep, MAsleep} \<longrightarrow> asleep s w \<longrightarrow>
       (\<exists>v. mpc s v \<in> {MWake, MTry, MRetry} \<or> mpc s v \<in> {MSleep, MAsleep} \<and> \<not> asleep s v))"
proof -
  have "mutex_owner_ok s" "mutex_live s" using mutex_reach_inv [OF assms] by (simp_all add: mutex_inv_def)
  then show ?thesis unfolding mutex_owner_ok_def mutex_live_def by (metis option.inject)
qed

text \<open>Thread 0 on CPU 0 has taken a fresh mutex.\<close>

definition lone_wait :: wait_state where
  "lone_wait = \<lparr>wsched = demo_boot, waiters = (\<lambda>_. \<lparr>wthread = 0, wwq = None\<rparr>), wqs = (\<lambda>_. [])\<rparr>"

definition lone_mutex :: mutex_state where
  "lone_mutex = \<lparr>mws = prepare_to_wait 0 3 0 TASK_UNINTERRUPTIBLE (wq_init 3 lone_wait),
     mmx = \<lparr>mowner = Some 0, mwq = 3\<rparr>, mpc = (\<lambda>_. MOut)(0 := MGot)\<rparr>"

lemma lone_mutex_reach: "mutex_reach lone_mutex"
proof -
  define s0 :: mutex_state where "s0 = \<lparr>mws = wq_init 3 lone_wait, mmx = \<lparr>mowner = None, mwq = 3\<rparr>, mpc = (\<lambda>_. MOut)\<rparr>"
  define s1 where "s1 = s0\<lparr>mws := prepare_to_wait 0 3 0 TASK_UNINTERRUPTIBLE (mws s0), mpc := (mpc s0)(0 := MTry)\<rparr>"
  have c: "current 0 (mws s0) = 0" "current 0 (mws s1) = 0"
    by (simp_all add: s0_def s1_def lone_wait_def wq_init_def current_def demo_boot_state prepare_to_wait_def set_state_def Let_def)
  have "mutex_reach s0" unfolding s0_def by (rule mutex_reach.Init [of 3 lone_wait]) (simp add: mutex_init_def)
  moreover have "mutex_step s0 s1"
    using mutex_step.Prepare [of 0 s0 0] c(1) by (simp add: s1_def s0_def)
  moreover have "mutex_step s1 lone_mutex"
    using mutex_step.Try_got [of 0 s1 0 "\<lparr>mowner = Some 0, mwq = 3\<rparr>"] c(2)
    by (simp add: s1_def s0_def lone_mutex_def mutex_try_def)
  ultimately show ?thesis by (blast intro: mutex_reach.Step)
qed

theorem mutex_correct_witness:
  "mpc lone_mutex 0 = MGot \<and> mowner (mmx lone_mutex) = Some 0 \<and> mpc lone_mutex 1 \<notin> {MGot, MHold}"
proof -
  have "mpc lone_mutex 0 = MGot" by (simp add: lone_mutex_def)
  then show ?thesis using mutex_correct [OF lone_mutex_reach, of 0 1] by auto
qed

end
