(* ===== verification/Olux_Time.thy ===== *)
theory Olux_Time
  imports Olux_Wait
begin

text \<open>
  Timekeeping and one-shot timers (kernel/time.c) and the sleeping calls of kernel/sched.c built on them.
  Each CPU has a list of pending timers, earliest first, and a hardware compare register.  The monotonic
  clock is the argument \<open>now\<close> of the operations that read it; a timer's callback is a parameter of the interrupt
  handler.  The clock discipline works on 64-bit signed quantities far from overflow, modelled as integers.
\<close>

section \<open>State\<close>

type_synonym kref = nat

record ktimer =
  expires :: u64
  kcpu :: "nat option"
  kpending :: bool

record cpu_timers =
  pendq :: "kref list"
  next_tick :: u64
  programmed :: u64

record discipline =
  realtime_offset :: int
  disc_last :: u64
  slew_left_ns :: int
  freq_ppb :: int
  freq_rem :: int
  slew_rem :: int

record time_state =
  timers :: "kref \<Rightarrow> ktimer"
  cts :: "nat \<Rightarrow> cpu_timers"
  jiffies :: u64
  disc :: discipline
  tsched :: sched


section \<open>The wall clock\<close>

definition MAX_SLEW_PPM :: int where "MAX_SLEW_PPM = 500"

text \<open>The frequency part and the slewing part of \<^verbatim>\<open>fold\<close>; C division truncates.\<close>

definition fold_freq :: "int \<Rightarrow> discipline \<Rightarrow> discipline" where
  "fold_freq elapsed d =
     (if freq_ppb d = 0 then d
      else if elapsed < 1000000000000
      then let r = freq_rem d + elapsed * freq_ppb d
           in d\<lparr>realtime_offset := realtime_offset d + r sdiv 1000000000, freq_rem := r smod 1000000000\<rparr>
      else d\<lparr>realtime_offset := realtime_offset d + ((elapsed sdiv 1000) * freq_ppb d) sdiv 1000000\<rparr>)"

definition fold_slew :: "int \<Rightarrow> discipline \<Rightarrow> discipline" where
  "fold_slew elapsed d =
     (if slew_left_ns d = 0 then d\<lparr>slew_rem := 0\<rparr>
      else let short = elapsed < 1000000000000;
               r = slew_rem d + elapsed * MAX_SLEW_PPM;
               mx = (if short then r sdiv 1000000 else (elapsed sdiv 1000000) * MAX_SLEW_PPM);
               rem = (if short then r smod 1000000 else slew_rem d);
               step = (if 0 < slew_left_ns d then min (slew_left_ns d) mx else max (slew_left_ns d) (- mx))
           in d\<lparr>slew_rem := rem, realtime_offset := realtime_offset d + step, slew_left_ns := slew_left_ns d - step\<rparr>)"

definition fold_clock :: "u64 \<Rightarrow> discipline \<Rightarrow> discipline" where
  "fold_clock now d =
     (let last = (if disc_last d = 0 then now else disc_last d);
          elapsed = sint (now - last);
          d1 = d\<lparr>disc_last := now\<rparr>
      in if elapsed \<le> 0 then d1 else fold_slew elapsed (fold_freq elapsed d1))"

definition ktime_realtime_ns :: "u64 \<Rightarrow> discipline \<Rightarrow> u64 \<times> discipline" where
  "ktime_realtime_ns now d = (let d1 = fold_clock now d in (now + word_of_int (realtime_offset d1), d1))"

definition set_realtime_ns :: "u64 \<Rightarrow> u64 \<Rightarrow> discipline \<Rightarrow> discipline" where
  "set_realtime_ns now ns d =
     (fold_clock now d)\<lparr>realtime_offset := sint ns - sint now, slew_left_ns := 0\<rparr>"

definition realtime_adjust ::
  "u64 \<Rightarrow> int option \<Rightarrow> int option \<Rightarrow> int option \<Rightarrow> discipline \<Rightarrow> (int \<times> int) \<times> discipline" where
  "realtime_adjust now step slew freq d =
     (let d1 = fold_clock now d;
          d2 = (case step of None \<Rightarrow> d1 | Some x \<Rightarrow> d1\<lparr>realtime_offset := realtime_offset d1 + x\<rparr>);
          d3 = (case slew of None \<Rightarrow> d2 | Some x \<Rightarrow> d2\<lparr>slew_left_ns := x\<rparr>);
          d4 = (case freq of None \<Rightarrow> d3 | Some x \<Rightarrow> d3\<lparr>freq_ppb := x\<rparr>)
      in ((slew_left_ns d4, freq_ppb d4), d4))"


section \<open>Timers\<close>

definition upd_ct :: "nat \<Rightarrow> (cpu_timers \<Rightarrow> cpu_timers) \<Rightarrow> time_state \<Rightarrow> time_state" where
  "upd_ct c f s = s\<lparr>cts := (cts s)(c := f (cts s c))\<rparr>"

definition upd_timer :: "kref \<Rightarrow> (ktimer \<Rightarrow> ktimer) \<Rightarrow> time_state \<Rightarrow> time_state" where
  "upd_timer k f s = s\<lparr>timers := (timers s)(k := f (timers s k))\<rparr>"

definition reprogram :: "nat \<Rightarrow> time_state \<Rightarrow> time_state" where
  "reprogram c s =
     (let ct = cts s c;
          next = (case pendq ct of [] \<Rightarrow> next_tick ct
                  | k # _ \<Rightarrow> if expires (timers s k) < next_tick ct then expires (timers s k) else next_tick ct)
      in upd_ct c (\<lambda>x. x\<lparr>programmed := next\<rparr>) s)"

definition ktimer_init :: "kref \<Rightarrow> time_state \<Rightarrow> time_state" where
  "ktimer_init k s = upd_timer k (\<lambda>t. t\<lparr>kpending := False, kcpu := None\<rparr>) s"

definition ktimer_cancel :: "kref \<Rightarrow> time_state \<Rightarrow> bool \<times> time_state" where
  "ktimer_cancel k s =
     (case kcpu (timers s k) of
        None \<Rightarrow> (False, s)
      | Some c \<Rightarrow>
          let was = kpending (timers s k);
              s1 = (if was then upd_timer k (\<lambda>t. t\<lparr>kpending := False\<rparr>) (upd_ct c (\<lambda>x. x\<lparr>pendq := remove1 k (pendq x)\<rparr>) s) else s)
          in (was, upd_timer k (\<lambda>t. t\<lparr>kcpu := None\<rparr>) s1))"

text \<open>The search loop stops at the first timer that expires later and links the new one before it.\<close>

fun insert_timer :: "(kref \<Rightarrow> u64) \<Rightarrow> kref \<Rightarrow> kref list \<Rightarrow> kref list" where
  "insert_timer ex k [] = [k]"
| "insert_timer ex k (x # xs) = (if ex k < ex x then k # x # xs else x # insert_timer ex k xs)"

definition ktimer_start :: "nat \<Rightarrow> kref \<Rightarrow> u64 \<Rightarrow> time_state \<Rightarrow> time_state" where
  "ktimer_start me k e s =
     (let s1 = snd (ktimer_cancel k s);
          s2 = upd_timer k (\<lambda>t. t\<lparr>expires := e, kcpu := Some me, kpending := True\<rparr>) s1;
          s3 = upd_ct me (\<lambda>x. x\<lparr>pendq := insert_timer (\<lambda>j. expires (timers s2 j)) k (pendq x)\<rparr>) s2
      in if hd (pendq (cts s3 me)) = k then reprogram me s3 else s3)"

text \<open>
  The loop over expired timers.  A callback runs without the lock and may start timers again, even ones
  already due, so the loop need not end; then its value is \<open>None\<close>.
\<close>

partial_function (option) fire_expired ::
  "(kref \<Rightarrow> time_state \<Rightarrow> time_state) \<Rightarrow> nat \<Rightarrow> u64 \<Rightarrow> time_state \<Rightarrow> time_state option" where
  "fire_expired fn me now s =
     (case pendq (cts s me) of
        [] \<Rightarrow> Some s
      | k # ks \<Rightarrow>
          if now < expires (timers s k) then Some s
          else fire_expired fn me now
                 (fn k (upd_timer k (\<lambda>t. t\<lparr>kpending := False\<rparr>) (upd_ct me (\<lambda>x. x\<lparr>pendq := ks\<rparr>) s))))"

definition tick_due :: "nat \<Rightarrow> u64 \<Rightarrow> time_state \<Rightarrow> bool" where
  "tick_due me now s \<longleftrightarrow> next_tick (cts s me) \<le> now"

definition advance_tick :: "nat \<Rightarrow> u64 \<Rightarrow> time_state \<Rightarrow> time_state" where
  "advance_tick me now s =
     (if tick_due me now s
      then upd_ct me (\<lambda>x. let missed = (now - next_tick x) div TICK_NSEC
                          in x\<lparr>next_tick := next_tick x + (missed + 1) * TICK_NSEC\<rparr>) s
      else s)"

definition timer_interrupt ::
  "(kref \<Rightarrow> time_state \<Rightarrow> time_state) \<Rightarrow> nat \<Rightarrow> u64 \<Rightarrow> bool \<Rightarrow> time_state \<Rightarrow> time_state option" where
  "timer_interrupt fn me now user s =
     (let tick = tick_due me now s in
      case fire_expired fn me now (advance_tick me now s) of
        None \<Rightarrow> None
      | Some s1 \<Rightarrow>
          let s2 = reprogram me s1;
              s3 = (if tick then (if me = 0 then s2\<lparr>jiffies := jiffies s2 + 1\<rparr> else s2) else s2)
          in Some (if tick then s3\<lparr>tsched := scheduler_tick me user (tsched s3)\<rparr> else s3))"

definition time_cpu_init :: "nat \<Rightarrow> u64 \<Rightarrow> bool \<Rightarrow> time_state \<Rightarrow> time_state kres" where
  "time_cpu_init me now clock s =
     (let s1 = upd_ct me (\<lambda>x. x\<lparr>pendq := []\<rparr>) s in
      if \<not> clock then Inl ''no clocksource registered''
      else Inr (reprogram me (upd_ct me (\<lambda>x. x\<lparr>next_tick := now + TICK_NSEC\<rparr>) s1)))"


section \<open>Sleeping\<close>

text \<open>The timer of a thread's \<^verbatim>\<open>sleep_timer\<close> is named like the thread; its callback wakes it.\<close>

definition sleep_timer_fn :: "nat \<Rightarrow> kref \<Rightarrow> time_state \<Rightarrow> time_state" where
  "sleep_timer_fn me k s =
     s\<lparr>tsched := snd (try_to_wake_up me k (TASK_INTERRUPTIBLE OR TASK_UNINTERRUPTIBLE) (tsched s))\<rparr>"

text \<open>\<^verbatim>\<open>schedule_timeout\<close> up to the switch, and what it does when the thread runs again.\<close>

definition schedule_timeout_begin :: "nat \<Rightarrow> tref \<Rightarrow> u64 \<Rightarrow> u64 \<Rightarrow> time_state \<Rightarrow> u64 \<times> time_state" where
  "schedule_timeout_begin me t ns now s =
     (let end' = now + ns;
          s1 = ktimer_start me t end' (ktimer_init t s)
      in (end', s1\<lparr>tsched := schedule me now (tsched s1)\<rparr>))"

definition schedule_timeout_end :: "tref \<Rightarrow> u64 \<Rightarrow> u64 \<Rightarrow> time_state \<Rightarrow> u64 \<times> time_state" where
  "schedule_timeout_end t end' now s =
     (let s1 = snd (ktimer_cancel t s) in (if end' \<le> now then 0 else end' - now, s1))"

definition sleep_ns_begin :: "nat \<Rightarrow> tref \<Rightarrow> u64 \<Rightarrow> u64 \<Rightarrow> time_state \<Rightarrow> u64 \<times> time_state" where
  "sleep_ns_begin me t ns now s =
     schedule_timeout_begin me t ns now (s\<lparr>tsched := upd_thread t (\<lambda>x. x\<lparr>tstate := TASK_UNINTERRUPTIBLE\<rparr>) (tsched s)\<rparr>)"

definition msleep_begin :: "nat \<Rightarrow> tref \<Rightarrow> u64 \<Rightarrow> u64 \<Rightarrow> time_state \<Rightarrow> u64 \<times> time_state" where
  "msleep_begin me t ms now s = sleep_ns_begin me t (ms * 1000000) now s"


section \<open>The slewing clock\<close>

text \<open>
  Slewing neither overshoots nor loses time.  While a clock offset is slewed in, reading the clock
  moves a part of it, never more than remains and never against its sign, from the outstanding correction
  into the clock offset; their sum only changes by the frequency correction, and the part moved is at most
  500 parts per million of the elapsed time plus the carried remainder.
\<close>

lemma fold_slew_conserves:
  assumes "0 \<le> elapsed" "0 \<le> slew_rem d"
  shows "let d' = fold_slew elapsed d; step = slew_left_ns d - slew_left_ns d' in
    realtime_offset d' + slew_left_ns d' = realtime_offset d + slew_left_ns d \<and>
    (0 \<le> slew_left_ns d \<longrightarrow> 0 \<le> step \<and> step \<le> slew_left_ns d) \<and>
    (slew_left_ns d \<le> 0 \<longrightarrow> step \<le> 0 \<and> slew_left_ns d \<le> step) \<and>
    \<bar>step\<bar> * 1000000 \<le> elapsed * MAX_SLEW_PPM + slew_rem d \<and> 0 \<le> slew_rem d'"
proof (cases "slew_left_ns d = 0")
  case True
  then show ?thesis using assms by (simp add: fold_slew_def MAX_SLEW_PPM_def)
next
  case False
  define r where "r = slew_rem d + elapsed * MAX_SLEW_PPM"
  define mx where "mx = (if elapsed < 1000000000000 then r sdiv 1000000 else (elapsed sdiv 1000000) * MAX_SLEW_PPM)"
  define rem where "rem = (if elapsed < 1000000000000 then r smod 1000000 else slew_rem d)"
  define step where "step = (if 0 < slew_left_ns d then min (slew_left_ns d) mx else max (slew_left_ns d) (- mx))"
  have f: "fold_slew elapsed d = d\<lparr>slew_rem := rem, realtime_offset := realtime_offset d + step, slew_left_ns := slew_left_ns d - step\<rparr>"
    using False by (simp add: fold_slew_def Let_def r_def mx_def rem_def step_def)
  have r: "0 \<le> r" using assms by (simp add: r_def MAX_SLEW_PPM_def)
  then have rd: "r sdiv 1000000 = r div 1000000" "r smod 1000000 = r mod 1000000"
    by (auto simp: sdiv_int_nonneg signed_modulo_int_def sgn_if minus_div_mult_eq_mod)
  have ed: "elapsed sdiv 1000000 = elapsed div 1000000" using assms(1) by (simp add: sdiv_int_nonneg)
  have "0 \<le> mx" using assms(1) r by (simp add: mx_def rd ed MAX_SLEW_PPM_def pos_imp_zdiv_nonneg_iff)
  moreover have "mx * 1000000 \<le> elapsed * MAX_SLEW_PPM + slew_rem d"
  proof (cases "elapsed < 1000000000000")
    case True
    have "r div 1000000 * 1000000 \<le> r" using div_mult_mod_eq [of r 1000000] by (simp add: minus_mod_eq_div_mult [symmetric])
    then show ?thesis using True by (simp add: mx_def rd) (simp add: r_def)
  next
    case False
    have "elapsed div 1000000 * 1000000 \<le> elapsed" by (simp add: minus_mod_eq_div_mult [symmetric])
    then show ?thesis using False assms by (simp add: mx_def ed MAX_SLEW_PPM_def)
  qed
  moreover have "0 \<le> rem" using assms(2) by (simp add: rem_def rd)
  ultimately show ?thesis unfolding f Let_def step_def by (auto simp: abs_if min_def max_def)
qed

section \<open>The timer queues\<close>

definition ex :: "time_state \<Rightarrow> kref \<Rightarrow> u64" where
  "ex s k = expires (timers s k)"

text \<open>
  A queue holds the pending timers of its CPU once each, earliest first, and the hardware fires no later
  than the first of them.
\<close>

definition timer_inv :: "time_state \<Rightarrow> bool" where
  "timer_inv s \<longleftrightarrow> (\<forall>c. distinct (pendq (cts s c)) \<and> sorted (map (ex s) (pendq (cts s c))) \<and>
      (\<forall>k. k \<in> set (pendq (cts s c)) \<longleftrightarrow> kpending (timers s k) \<and> kcpu (timers s k) = Some c) \<and>
      (pendq (cts s c) \<noteq> [] \<longrightarrow> programmed (cts s c) \<le> ex s (hd (pendq (cts s c))))) \<and>
    (\<forall>k. kpending (timers s k) \<longrightarrow> kcpu (timers s k) \<noteq> None)"

lemma timer_upd_simps [simp]:
  "timers (upd_ct c f s) = timers s" "cts (upd_timer k g s) = cts s"
  "cts (upd_ct c f s) d = (if d = c then f (cts s c) else cts s d)"
  "timers (upd_timer k g s) j = (if j = k then g (timers s k) else timers s j)"
  "tsched (upd_ct c f s) = tsched s" "tsched (upd_timer k g s) = tsched s"
  by (simp_all add: upd_ct_def upd_timer_def)

lemma insert_timer_set: "set (insert_timer e k xs) = insert k (set xs)"
  by (induction xs) auto

lemma insert_timer_distinct: "distinct (insert_timer e k xs) \<longleftrightarrow> distinct (k # xs)"
  by (induction xs) (auto simp: insert_timer_set)

lemma insert_timer_sorted: "sorted (map e xs) \<Longrightarrow> sorted (map e (insert_timer e k xs))"
  by (induction xs) (auto simp: insert_timer_set)

lemma insert_timer_hd: "hd (insert_timer e k xs) \<noteq> k \<Longrightarrow> xs \<noteq> [] \<and> hd (insert_timer e k xs) = hd xs"
  by (cases xs) (auto split: if_splits)

text \<open>Timers due at the same time stay in the order they were started.\<close>

lemma insert_timer_stable:
  "sorted (map e xs) \<Longrightarrow> k \<notin> set xs \<Longrightarrow>
   insert_timer e k xs = filter (\<lambda>j. e j \<le> e k) xs @ k # filter (\<lambda>j. e k < e j) xs"
proof (induction xs)
  case (Cons x xs)
  show ?case
  proof (cases "e k < e x")
    case True
    then have "e k < e j" if "j \<in> set xs" for j using Cons.prems(1) that by auto
    then have "filter (\<lambda>j. e j \<le> e k) xs = []" "filter (\<lambda>j. e k < e j) xs = xs"
      by (auto simp: filter_empty_conv filter_id_conv not_le)
    then show ?thesis using True by auto
  next
    case False
    then show ?thesis using Cons by auto
  qed
qed simp

lemma cancel_fields:
  assumes inv: "timer_inv s"
  shows "pendq (cts (snd (ktimer_cancel k s)) c) = remove1 k (pendq (cts s c))"
    "programmed (cts (snd (ktimer_cancel k s)) c) = programmed (cts s c)"
    "next_tick (cts (snd (ktimer_cancel k s)) c) = next_tick (cts s c)"
    "j \<noteq> k \<Longrightarrow> timers (snd (ktimer_cancel k s)) j = timers s j"
    "expires (timers (snd (ktimer_cancel k s)) j) = expires (timers s j)"
    "\<not> kpending (timers (snd (ktimer_cancel k s)) k)"
    "fst (ktimer_cancel k s) \<longleftrightarrow> kpending (timers s k)"
proof -
  have mem: "k \<in> set (pendq (cts s d)) \<longleftrightarrow> kpending (timers s k) \<and> kcpu (timers s k) = Some d" for d
    using inv unfolding timer_inv_def by blast
  have cpu: "kpending (timers s k) \<Longrightarrow> kcpu (timers s k) \<noteq> None" using inv unfolding timer_inv_def by blast
  have rem: "remove1 k (pendq (cts s d)) = pendq (cts s d)" if "\<not> (kpending (timers s k) \<and> kcpu (timers s k) = Some d)" for d
    using mem [of d] that by (simp add: remove1_idem)
  show "pendq (cts (snd (ktimer_cancel k s)) c) = remove1 k (pendq (cts s c))"
    "programmed (cts (snd (ktimer_cancel k s)) c) = programmed (cts s c)"
    "next_tick (cts (snd (ktimer_cancel k s)) c) = next_tick (cts s c)"
    "j \<noteq> k \<Longrightarrow> timers (snd (ktimer_cancel k s)) j = timers s j"
    "expires (timers (snd (ktimer_cancel k s)) j) = expires (timers s j)"
    "\<not> kpending (timers (snd (ktimer_cancel k s)) k)"
    "fst (ktimer_cancel k s) \<longleftrightarrow> kpending (timers s k)"
    using rem [of c] cpu by (auto simp: ktimer_cancel_def Let_def split: option.splits)
qed

lemma hd_remove1_sorted:
  "sorted (map e xs) \<Longrightarrow> remove1 k xs \<noteq> [] \<Longrightarrow> e (hd xs) \<le> e (hd (remove1 k xs))"
  by (cases xs; cases "tl xs") auto

lemma cancel_inv:
  assumes inv: "timer_inv s"
  shows "timer_inv (snd (ktimer_cancel k s))"
proof -
  let ?s = "snd (ktimer_cancel k s)"
  note F = cancel_fields [OF inv, where k = k]
  have e: "ex ?s = ex s" by (rule ext) (simp add: ex_def F(5))
  have K: "kcpu (timers ?s k) = None"
    by (auto simp: ktimer_cancel_def Let_def split: option.splits)
  have I: "distinct (pendq (cts s c))" "sorted (map (ex s) (pendq (cts s c)))"
      "\<And>j. j \<in> set (pendq (cts s c)) \<longleftrightarrow> kpending (timers s j) \<and> kcpu (timers s j) = Some c"
      "pendq (cts s c) \<noteq> [] \<Longrightarrow> programmed (cts s c) \<le> ex s (hd (pendq (cts s c)))" for c
    using inv unfolding timer_inv_def by blast+
  have "programmed (cts ?s c) \<le> ex ?s (hd (pendq (cts ?s c)))" if "pendq (cts ?s c) \<noteq> []" for c
  proof -
    have r: "remove1 k (pendq (cts s c)) \<noteq> []" using that by (simp add: F(1))
    then have "pendq (cts s c) \<noteq> []" by auto
    then have "programmed (cts s c) \<le> ex s (hd (pendq (cts s c)))" by (rule I(4))
    also have "\<dots> \<le> ex s (hd (remove1 k (pendq (cts s c))))" by (rule hd_remove1_sorted [OF I(2) r])
    finally show ?thesis by (simp add: F(1,2) e)
  qed
  moreover have "sorted (map (ex ?s) (pendq (cts ?s c)))" for c
    using I(2) by (simp add: F(1) e sorted_map_remove1)
  moreover have "distinct (pendq (cts ?s c))" for c using I(1) by (simp add: F(1))
  moreover have "j \<in> set (pendq (cts ?s c)) \<longleftrightarrow> kpending (timers ?s j) \<and> kcpu (timers ?s j) = Some c" for c j
    using I(1) [of c] K F(4) [of j] F(6) by (cases "j = k") (simp_all add: F(1) I(3))
  moreover have "kpending (timers ?s j) \<longrightarrow> kcpu (timers ?s j) \<noteq> None" for j
    using inv F(4,6) unfolding timer_inv_def by (cases "j = k") simp_all
  ultimately show ?thesis unfolding timer_inv_def by blast
qed

lemma reprogram_fields [simp]:
  "timers (reprogram c s) = timers s" "pendq (cts (reprogram c s) d) = pendq (cts s d)"
  "next_tick (cts (reprogram c s) d) = next_tick (cts s d)" "tsched (reprogram c s) = tsched s"
  "d \<noteq> c \<Longrightarrow> programmed (cts (reprogram c s) d) = programmed (cts s d)"
  by (simp_all add: reprogram_def Let_def)

lemma reprogram_hd: "pendq (cts s c) \<noteq> [] \<Longrightarrow> programmed (cts (reprogram c s) c) \<le> ex s (hd (pendq (cts s c)))"
  by (cases "pendq (cts s c)") (auto simp: reprogram_def Let_def ex_def not_less)

lemma ktimer_start_fields:
  assumes inv: "timer_inv s" and S: "S = ktimer_start me k e s"
  shows "pendq (cts S c) = (if c = me then insert_timer (\<lambda>j. if j = k then e else ex s j) k (remove1 k (pendq (cts s c)))
           else remove1 k (pendq (cts s c)))"
    "ex S j = (if j = k then e else ex s j)"
    "kpending (timers S j) = (j = k \<or> kpending (timers s j))"
    "kcpu (timers S j) = (if j = k then Some me else kcpu (timers s j))"
    "c \<noteq> me \<or> hd (pendq (cts S me)) \<noteq> k \<Longrightarrow> programmed (cts S c) = programmed (cts s c)"
    "hd (pendq (cts S me)) = k \<Longrightarrow> programmed (cts S me) \<le> e"
proof -
  define s1 where "s1 = snd (ktimer_cancel k s)"
  note F = cancel_fields [OF inv, where k = k, folded s1_def]
  define s2 where "s2 = upd_timer k (\<lambda>t. t\<lparr>expires := e, kcpu := Some me, kpending := True\<rparr>) s1"
  define s3 where "s3 = upd_ct me (\<lambda>x. x\<lparr>pendq := insert_timer (\<lambda>j. expires (timers s2 j)) k (pendq x)\<rparr>) s2"
  have S3: "S = (if hd (pendq (cts s3 me)) = k then reprogram me s3 else s3)"
    by (simp add: S ktimer_start_def Let_def s1_def s2_def s3_def)
  have e2: "(\<lambda>j. expires (timers s2 j)) = (\<lambda>j. if j = k then e else ex s j)"
    by (rule ext) (simp add: s2_def ex_def F(5))
  have p3: "pendq (cts s3 c) = (if c = me then insert_timer (\<lambda>j. if j = k then e else ex s j) k (remove1 k (pendq (cts s c)))
      else remove1 k (pendq (cts s c)))" for c
    using e2 by (simp add: s3_def) (simp add: s2_def F(1))
  have t3: "timers S = timers s2" by (simp add: S3 s3_def)
  have pS: "pendq (cts S c) = pendq (cts s3 c)" for c by (simp add: S3)
  show "pendq (cts S c) = (if c = me then insert_timer (\<lambda>j. if j = k then e else ex s j) k (remove1 k (pendq (cts s c)))
      else remove1 k (pendq (cts s c)))" by (simp add: pS p3)
  show "ex S j = (if j = k then e else ex s j)" using fun_cong [OF e2, of j] by (simp add: ex_def t3)
  show "kpending (timers S j) = (j = k \<or> kpending (timers s j))" using F(4) [of j] by (simp add: t3 s2_def)
  show "kcpu (timers S j) = (if j = k then Some me else kcpu (timers s j))" using F(4) [of j] by (simp add: t3 s2_def)
  have prog3: "programmed (cts s3 c) = programmed (cts s c)" for c by (simp add: s3_def s2_def F(2))
  show "programmed (cts S c) = programmed (cts s c)" if "c \<noteq> me \<or> hd (pendq (cts S me)) \<noteq> k"
    using that pS [of me] prog3 by (auto simp: S3)
  show "programmed (cts S me) \<le> e" if h: "hd (pendq (cts S me)) = k"
  proof -
    have "pendq (cts s3 me) \<noteq> []" using insert_timer_set [of _ k] p3 [of me] by (metis empty_iff insert_iff list.set(1))
    moreover have "ex s3 (hd (pendq (cts s3 me))) = e" using h pS [of me] by (simp add: ex_def s3_def s2_def)
    ultimately show ?thesis using reprogram_hd [of s3 me] h pS [of me] by (simp add: S3)
  qed
qed

lemma ktimer_start_inv:
  assumes inv: "timer_inv s"
  shows "timer_inv (ktimer_start me k e s)"
proof -
  define S where "S = ktimer_start me k e s"
  note F = ktimer_start_fields [OF inv S_def]
  have I: "distinct (pendq (cts s c))" "sorted (map (ex s) (pendq (cts s c)))"
      "\<And>j. j \<in> set (pendq (cts s c)) \<longleftrightarrow> kpending (timers s j) \<and> kcpu (timers s j) = Some c"
      "pendq (cts s c) \<noteq> [] \<Longrightarrow> programmed (cts s c) \<le> ex s (hd (pendq (cts s c)))" for c
    using inv unfolding timer_inv_def by blast+
  have nk: "k \<notin> set (remove1 k (pendq (cts s c)))" for c using I(1) by simp
  have me: "map (ex S) (remove1 k (pendq (cts s c))) = map (ex s) (remove1 k (pendq (cts s c)))" for c
    using nk [of c] by (intro map_cong) (auto simp: F(2))
  have exS: "(\<lambda>j. if j = k then e else ex s j) = ex S" by (rule ext) (simp add: F(2))
  have sr: "sorted (map (ex S) (remove1 k (pendq (cts s c))))" for c
    unfolding me using I(2) by (rule sorted_map_remove1)
  have "sorted (map (ex S) (pendq (cts S c)))" for c
    using sr [of c] insert_timer_sorted [OF sr] unfolding F(1) exS by simp
  moreover have "distinct (pendq (cts S c))" for c
    using nk I(1) by (simp add: F(1) insert_timer_distinct)
  moreover have "j \<in> set (pendq (cts S c)) \<longleftrightarrow> kpending (timers S j) \<and> kcpu (timers S j) = Some c" for c j
    using nk [of c] I(1) [of c] by (cases "j = k") (auto simp: F(1,3,4) insert_timer_set I(3))
  moreover have "kpending (timers S j) \<longrightarrow> kcpu (timers S j) \<noteq> None" for j
    using inv unfolding timer_inv_def by (simp add: F(3,4))
  moreover have "programmed (cts S c) \<le> ex S (hd (pendq (cts S c)))" if ne: "pendq (cts S c) \<noteq> []" for c
  proof (cases "c = me \<and> hd (pendq (cts S me)) = k")
    case True
    then show ?thesis using F(6) by (simp add: F(2))
  next
    case False
    then have pr: "programmed (cts S c) = programmed (cts s c)" using F(5) by blast
    have h: "remove1 k (pendq (cts s c)) \<noteq> [] \<and> hd (pendq (cts S c)) = hd (remove1 k (pendq (cts s c)))"
      using False ne insert_timer_hd [of "ex S" k "remove1 k (pendq (cts s me))"] unfolding F(1) exS by (auto split: if_splits)
    then have ne': "pendq (cts s c) \<noteq> []" by auto
    have "hd (remove1 k (pendq (cts s c))) \<noteq> k" using nk [of c] h by (metis hd_in_set)
    then have "ex S (hd (pendq (cts S c))) = ex s (hd (remove1 k (pendq (cts s c))))" using h by (simp add: F(2))
    moreover have "ex s (hd (pendq (cts s c))) \<le> ex s (hd (remove1 k (pendq (cts s c))))"
      using hd_remove1_sorted [OF I(2)] h by blast
    ultimately show ?thesis using I(4) [OF ne'] pr by simp
  qed
  ultimately show ?thesis unfolding timer_inv_def S_def [symmetric] by blast
qed


section \<open>The timer interrupt\<close>

lemma sleep_fn_fields [simp]:
  "timers (sleep_timer_fn me k s) = timers s" "cts (sleep_timer_fn me k s) = cts s"
  "tsched (sleep_timer_fn me k s) = snd (try_to_wake_up me k SLEEPING (tsched s))"
  by (simp_all add: sleep_timer_fn_def SLEEPING_def)

lemma fire_expired_sleep:
  assumes "sorted (map (ex s) (pendq (cts s me)))"
  shows "\<exists>s'. fire_expired (sleep_timer_fn me) me now s = Some s' \<and>
    cts s' = (cts s)(me := (cts s me)\<lparr>pendq := filter (\<lambda>k. now < ex s k) (pendq (cts s me))\<rparr>) \<and>
    timers s' = (\<lambda>k. if k \<in> set (pendq (cts s me)) \<and> ex s k \<le> now then (timers s k)\<lparr>kpending := False\<rparr> else timers s k) \<and>
    tsched s' = wake_list (\<lambda>t. try_to_wake_up me t SLEEPING) (filter (\<lambda>k. ex s k \<le> now) (pendq (cts s me))) (tsched s)"
  using assms
proof (induction "pendq (cts s me)" arbitrary: s)
  case Nil
  have "(cts s)(me := (cts s me)\<lparr>pendq := []\<rparr>) = cts s" by (rule ext) (use Nil in simp)
  then show ?case using Nil(1) [symmetric] by (subst fire_expired.simps) simp
next
  case (Cons k ks)
  have p: "pendq (cts s me) = k # ks" using Cons(2) by simp
  show ?case
  proof (cases "now < ex s k")
    case True
    have all: "now < ex s j" if "j \<in> set ks" for j using Cons(3) that True unfolding p by (auto dest: less_le_trans)
    have f: "filter (\<lambda>k. now < ex s k) (k # ks) = k # ks" "filter (\<lambda>k. ex s k \<le> now) (k # ks) = []"
      using True all by (auto simp: filter_id_conv filter_empty_conv not_le)
    have c: "(cts s)(me := (cts s me)\<lparr>pendq := k # ks\<rparr>) = cts s" by (rule ext) (use p in simp)
    have t: "(\<lambda>j. if j \<in> set (k # ks) \<and> ex s j \<le> now then (timers s j)\<lparr>kpending := False\<rparr> else timers s j) = timers s"
      by (rule ext) (use True all in \<open>force dest: leD\<close>)
    have "fire_expired (sleep_timer_fn me) me now s = Some s"
      using True p by (subst fire_expired.simps) (simp add: ex_def)
    then show ?thesis unfolding p f c t by simp
  next
    case False
    define s1 where "s1 = upd_timer k (\<lambda>t. t\<lparr>kpending := False\<rparr>) (upd_ct me (\<lambda>x. x\<lparr>pendq := ks\<rparr>) s)"
    define s2 where "s2 = sleep_timer_fn me k s1"
    have step: "fire_expired (sleep_timer_fn me) me now s = fire_expired (sleep_timer_fn me) me now s2"
      using False p by (subst fire_expired.simps) (simp add: ex_def s1_def s2_def)
    have q: "pendq (cts s2 me) = ks" by (simp add: s2_def s1_def)
    have e: "ex s2 = ex s" by (rule ext) (simp add: ex_def s2_def s1_def)
    have "sorted (map (ex s2) (pendq (cts s2 me)))" using Cons(3) by (simp add: q e p)
    from Cons(1) [OF q [symmetric] this] obtain s' where s':
      "fire_expired (sleep_timer_fn me) me now s2 = Some s'"
      "cts s' = (cts s2)(me := (cts s2 me)\<lparr>pendq := filter (\<lambda>k. now < ex s k) ks\<rparr>)"
      "timers s' = (\<lambda>j. if j \<in> set ks \<and> ex s j \<le> now then (timers s2 j)\<lparr>kpending := False\<rparr> else timers s2 j)"
      "tsched s' = wake_list (\<lambda>t. try_to_wake_up me t SLEEPING) (filter (\<lambda>k. ex s k \<le> now) ks) (tsched s2)"
      unfolding q e by blast
    have "cts s' = (cts s)(me := (cts s me)\<lparr>pendq := filter (\<lambda>k. now < ex s k) (k # ks)\<rparr>)"
      unfolding s'(2) by (rule ext) (use False in \<open>simp add: s2_def s1_def\<close>)
    moreover have "timers s' = (\<lambda>j. if j \<in> set (k # ks) \<and> ex s j \<le> now then (timers s j)\<lparr>kpending := False\<rparr> else timers s j)"
      unfolding s'(3) by (rule ext) (use False in \<open>simp add: s2_def s1_def\<close>)
    moreover have "tsched s' = wake_list (\<lambda>t. try_to_wake_up me t SLEEPING) (filter (\<lambda>k. ex s k \<le> now) (k # ks)) (tsched s)"
      unfolding s'(4) using False by (simp add: s2_def s1_def)
    ultimately show ?thesis using s'(1) step unfolding p by auto
  qed
qed

lemma advance_tick_word:
  fixes nt now :: u64
  assumes "nt \<le> now" "unat now + 2 * 4000000 < 2 ^ 64"
  shows "now < nt + ((now - nt) div TICK_NSEC + 1) * TICK_NSEC \<and> nt + ((now - nt) div TICK_NSEC + 1) * TICK_NSEC \<le> now + TICK_NSEC"
proof -
  define d where "d = unat now - unat nt"
  have le: "unat nt \<le> unat now" using assms(1) by (simp add: word_le_nat_alt)
  have T: "unat TICK_NSEC = 4000000" by (simp add: TICK_NSEC_def)
  have "unat (now - nt) = d" using le by (simp add: unat_sub_nowrap d_def)
  then have q: "unat ((now - nt) div TICK_NSEC) = d div 4000000" by (simp add: unat_div T)
  have d: "d \<le> unat now" by (simp add: d_def)
  have m: "d < (d div 4000000 + 1) * 4000000" "(d div 4000000 + 1) * 4000000 \<le> d + 4000000"
    using div_mult_mod_eq [of d 4000000] by auto
  have "unat ((now - nt) div TICK_NSEC + 1) = d div 4000000 + 1"
    using q d assms(2) by (subst unat_add_nowrap) auto
  then have "unat (((now - nt) div TICK_NSEC + 1) * TICK_NSEC) = (d div 4000000 + 1) * 4000000"
    using m(2) d assms(2) T by (simp add: unat_mult_lem [THEN iffD1])
  moreover have "unat nt + (d div 4000000 + 1) * 4000000 < 2 ^ 64" using m(2) le assms(2) by (simp add: d_def)
  ultimately have "unat (nt + ((now - nt) div TICK_NSEC + 1) * TICK_NSEC) = unat nt + (d div 4000000 + 1) * 4000000"
    by (subst u64_add) simp_all
  moreover have "unat (now + TICK_NSEC) = unat now + 4000000" using assms(2) T by (subst u64_add) simp_all
  moreover have "unat nt + d = unat now" using le by (simp add: d_def)
  ultimately show ?thesis using m unfolding word_less_nat_alt word_le_nat_alt by linarith
qed

text \<open>
  C21: The timer interrupt fires what is due.  With the sleep timers of threads pending, the handler
  returns; it removes exactly the timers that have expired and wakes their threads, keeps the queues in
  order, moves an overdue tick to within one period after now, and programs the hardware for a time that
  is still to come and no later than the next tick or timer.
\<close>

theorem timer_interrupt_fires:
  assumes inv: "timer_inv s" and now: "unat now + 2 * 4000000 < 2 ^ 64"
  shows "\<exists>S. timer_interrupt (sleep_timer_fn me) me now user s = Some S \<and>
    pendq (cts S me) = filter (\<lambda>k. now < ex s k) (pendq (cts s me)) \<and>
    (\<forall>k \<in> set (pendq (cts s me)). ex s k \<le> now \<longrightarrow> \<not> has_flag (tstate (threads (tsched S) k)) SLEEPING) \<and>
    timer_inv S \<and> now < programmed (cts S me) \<and> programmed (cts S me) \<le> next_tick (cts S me) \<and>
    (tick_due me now s \<longrightarrow> next_tick (cts S me) \<le> now + TICK_NSEC)"
proof -
  define s0 where "s0 = advance_tick me now s"
  define nt where "nt = next_tick (cts s0 me)"
  have nt: "now < nt" "tick_due me now s \<longrightarrow> nt \<le> now + TICK_NSEC"
    using advance_tick_word [of "next_tick (cts s me)" now] now
    by (auto simp: nt_def s0_def advance_tick_def tick_due_def Let_def)
  have f0: "timers s0 = timers s" "pendq (cts s0 c) = pendq (cts s c)" "programmed (cts s0 c) = programmed (cts s c)"
    "tsched s0 = tsched s" for c
    by (simp_all add: s0_def advance_tick_def Let_def)
  have e0: "ex s0 = ex s" by (rule ext) (simp add: ex_def f0)
  have I: "distinct (pendq (cts s c))" "sorted (map (ex s) (pendq (cts s c)))"
      "\<And>j. j \<in> set (pendq (cts s c)) \<longleftrightarrow> kpending (timers s j) \<and> kcpu (timers s j) = Some c"
      "pendq (cts s c) \<noteq> [] \<Longrightarrow> programmed (cts s c) \<le> ex s (hd (pendq (cts s c)))" for c
    using inv unfolding timer_inv_def by blast+
  have "sorted (map (ex s0) (pendq (cts s0 me)))" by (simp add: e0 f0 I)
  then obtain s1 where s1: "fire_expired (sleep_timer_fn me) me now s0 = Some s1"
    "cts s1 = (cts s0)(me := (cts s0 me)\<lparr>pendq := filter (\<lambda>k. now < ex s k) (pendq (cts s me))\<rparr>)"
    "timers s1 = (\<lambda>k. if k \<in> set (pendq (cts s me)) \<and> ex s k \<le> now then (timers s k)\<lparr>kpending := False\<rparr> else timers s k)"
    "tsched s1 = wake_list (\<lambda>t. try_to_wake_up me t SLEEPING) (filter (\<lambda>k. ex s k \<le> now) (pendq (cts s me))) (tsched s)"
    using fire_expired_sleep [of s0 me now] unfolding e0 f0 by blast
  define s2 where "s2 = reprogram me s1"
  define S where "S = (let s3 = (if tick_due me now s then (if me = 0 then s2\<lparr>jiffies := jiffies s2 + 1\<rparr> else s2) else s2)
    in if tick_due me now s then s3\<lparr>tsched := scheduler_tick me user (tsched s3)\<rparr> else s3)"
  have run: "timer_interrupt (sleep_timer_fn me) me now user s = Some S"
    unfolding timer_interrupt_def Let_def S_def s2_def using s1(1) by (simp add: s0_def)
  have S: "timers S = timers s1" "cts S = cts s2" "same_sched (tsched s1) (tsched S)"
    by (simp_all add: S_def Let_def s2_def scheduler_tick_same)
  have P: "pendq (cts S c) = (if c = me then filter (\<lambda>k. now < ex s k) (pendq (cts s me)) else pendq (cts s c))" for c
    by (simp add: S s2_def s1(2) f0)
  have e: "ex S = ex s" by (rule ext) (simp add: ex_def S s1(3))
  have N: "next_tick (cts S me) = nt" by (simp add: S s2_def s1(2) nt_def)
  have pr: "programmed (cts S me) = (case filter (\<lambda>k. now < ex s k) (pendq (cts s me)) of [] \<Rightarrow> nt
      | k # _ \<Rightarrow> if ex s k < nt then ex s k else nt)"
    using e by (simp add: S(2) s2_def reprogram_def Let_def s1(2) nt_def)
      (simp add: fun_eq_iff ex_def S(1) nt_def split: list.split)
  have later: "now < ex s (hd (filter (\<lambda>k. now < ex s k) (pendq (cts s me))))"
    if "filter (\<lambda>k. now < ex s k) (pendq (cts s me)) \<noteq> []"
    using hd_in_set [OF that] by (simp only: set_filter mem_Collect_eq)
  have prog: "now < programmed (cts S me)" "programmed (cts S me) \<le> nt"
    "filter (\<lambda>k. now < ex s k) (pendq (cts s me)) \<noteq> [] \<Longrightarrow> programmed (cts S me) \<le> ex s (hd (filter (\<lambda>k. now < ex s k) (pendq (cts s me))))"
    unfolding pr using nt(1) later by (cases "filter (\<lambda>k. now < ex s k) (pendq (cts s me))"; auto)+
  have woken: "\<not> has_flag (tstate (threads (tsched S) k)) SLEEPING" if "k \<in> set (pendq (cts s me))" "ex s k \<le> now" for k
    using tw.wake_list_wakes [of k "filter (\<lambda>k. ex s k \<le> now) (pendq (cts s me))" me SLEEPING "tsched s"] that S(3)
    by (simp add: s1(4) same_sched_def)
  have "timer_inv S"
    unfolding timer_inv_def
  proof (intro conjI allI impI)
    fix c k
    show "distinct (pendq (cts S c))" using I(1) by (simp add: P)
    show "sorted (map (ex S) (pendq (cts S c)))" using I(2) by (simp add: P e sorted_filter)
    show "programmed (cts S c) \<le> ex S (hd (pendq (cts S c)))" if "pendq (cts S c) \<noteq> []"
    proof (cases "c = me")
      case True
      then show ?thesis using prog(3) that by (simp add: P e)
    next
      case False
      then have "programmed (cts S c) = programmed (cts s c)" by (simp add: S s2_def s1(2) f0)
      then show ?thesis using I(4) [of c] that False by (simp add: P e)
    qed
    show "k \<in> set (pendq (cts S c)) \<longleftrightarrow> kpending (timers S k) \<and> kcpu (timers S k) = Some c"
      by (auto simp: P S(1) s1(3) I(3) not_le)
    show "kcpu (timers S k) \<noteq> None" if "kpending (timers S k)"
      using inv that unfolding timer_inv_def by (simp add: S s1(3) split: if_splits)
  qed
  then show ?thesis using run woken prog nt(2) N by (auto simp: P)
qed

text \<open>Thread 5 sleeps on CPU 0 until time 50; the interrupt comes at 60.\<close>

definition demo_timer :: time_state where
  "demo_timer = \<lparr>timers = (\<lambda>k. if k = 5 then \<lparr>expires = 50, kcpu = Some 0, kpending = True\<rparr>
       else \<lparr>expires = 0, kcpu = None, kpending = False\<rparr>),
     cts = (\<lambda>c. if c = 0 then \<lparr>pendq = [5], next_tick = 100, programmed = 50\<rparr> else \<lparr>pendq = [], next_tick = 100, programmed = 100\<rparr>),
     jiffies = 0, disc = \<lparr>realtime_offset = 0, disc_last = 0, slew_left_ns = 0, freq_ppb = 0, freq_rem = 0, slew_rem = 0\<rparr>,
     tsched = demo_alloc\<rparr>"

theorem timer_interrupt_fires_witness:
  "has_flag (tstate (threads (tsched demo_timer) 5)) SLEEPING \<and>
   (\<exists>S. timer_interrupt (sleep_timer_fn 0) 0 60 False demo_timer = Some S \<and> pendq (cts S 0) = [] \<and>
      \<not> has_flag (tstate (threads (tsched S) 5)) SLEEPING)"
proof -
  have "timer_inv demo_timer" by (auto simp: timer_inv_def demo_timer_def ex_def)
  from timer_interrupt_fires [OF this, of 60 0 False] show ?thesis
    by (simp add: demo_timer_def ex_def demo_alloc_state has_flag_def SLEEPING_def task_defs) blast
qed

end
