(* ===== verification/Olux_Pipe.thy ===== *)
theory Olux_Pipe
  imports Olux_Prelude
begin

text \<open>
  Pipes and FIFOs (fs/pipe.c) and the caller's buffers they copy to and from (struct iobuf, fs/vfs.c).  The
  ring keeps its free-running 64-bit positions.  What other threads do while a reader or writer sleeps is the
  argument \<open>sleeps\<close>: one entry per sleep, with the pipe as it is on wake-up and whether a signal ended the sleep;
  when the entries run out the thread is still asleep.
\<close>

section \<open>Caller buffers\<close>

text \<open>\<open>ioacc off n\<close>: the bytes from \<open>off\<close> on can be accessed (always so for a kernel buffer).\<close>

record iobuf =
  iobytes :: "u8 list"
  ioacc :: "nat \<Rightarrow> nat \<Rightarrow> bool"



definition iob_read :: "iobuf \<Rightarrow> nat \<Rightarrow> nat \<Rightarrow> u8 list option" where
  "iob_read b off n =
     (if length (iobytes b) < off + n then None
      else if \<not> ioacc b off n then None
      else Some (take n (drop off (iobytes b))))"


section \<open>The ring\<close>

definition PIPE_SIZE :: nat where "PIPE_SIZE = 65536"
definition PIPE_BUF :: nat where "PIPE_BUF = 4096"

record pipe =
  pbuf :: "u8 list"
  phead :: u64
  ptail :: u64
  readers :: int
  writers :: int
  rwait_wakes :: nat
  wwait_wakes :: nat
  w_counter :: int

text \<open>\<open>page\<close> is what \<^verbatim>\<open>get_free_pages\<close> returned for the 64 KiB buffer; its contents are arbitrary.\<close>

definition pipe_alloc :: "bool \<Rightarrow> u8 list option \<Rightarrow> pipe option" where
  "pipe_alloc obj page =
     (if \<not> obj then None
      else case page of
             None \<Rightarrow> None
           | Some buf \<Rightarrow> Some \<lparr>pbuf = buf, phead = 0, ptail = 0, readers = 0, writers = 0,
                               rwait_wakes = 0, wwait_wakes = 0, w_counter = 0\<rparr>)"

definition pipe_used :: "pipe \<Rightarrow> nat" where
  "pipe_used p = unat (phead p - ptail p)"

definition wake_rwait :: "pipe \<Rightarrow> pipe" where
  "wake_rwait p = p\<lparr>rwait_wakes := rwait_wakes p + 1\<rparr>"

definition wake_wwait :: "pipe \<Rightarrow> pipe" where
  "wake_wwait p = p\<lparr>wwait_wakes := wwait_wakes p + 1\<rparr>"

datatype sleep = Woken pipe | Signalled pipe










definition pipe_space :: "pipe \<Rightarrow> nat" where
  "pipe_space p = PIPE_SIZE - pipe_used p"






lemma iob_read_length: "iob_read b off n = Some src \<Longrightarrow> length src = n"
  by (auto simp: iob_read_def split: if_splits)




section \<open>Polling, ioctl, opening and closing\<close>

record pfile =
  fmode_read :: bool
  fmode_write :: bool
  fnonblock :: bool


definition pipe_poll :: "pfile \<Rightarrow> pipe \<Rightarrow> u32" where
  "pipe_poll f p =
     (let m1 = (if fmode_read f
                then (if pipe_used p \<noteq> 0 then POLLIN OR POLLRDNORM else 0) OR
                     (if writers p = 0 \<and> w_counter p \<noteq> 0 then POLLHUP else 0)
                else 0)
      in if fmode_write f
         then m1 OR (if PIPE_BUF \<le> pipe_space p then POLLOUT OR POLLWRNORM else 0) OR (if readers p = 0 then POLLERR else 0)
         else m1)"

text \<open>\<open>Inr n\<close>: the number stored at the user address, which \<open>acc\<close> tells to be writable.\<close>

definition pipe_ioctl :: "u32 \<Rightarrow> bool \<Rightarrow> pipe \<Rightarrow> errno + int" where
  "pipe_ioctl cmd acc p =
     (if cmd = 0x541b then (if acc then Inr (sint (of_nat (pipe_used p) :: 32 word)) else Inl EFAULT)
      else Inl ENOTTY)"

text \<open>\<open>None\<close>: the last user is gone and the pipe is freed.\<close>

definition pipe_release :: "pfile \<Rightarrow> pipe \<Rightarrow> pipe option" where
  "pipe_release f p =
     (let p1 = (if fmode_read f then p\<lparr>readers := readers p - 1\<rparr> else p);
          p2 = (if fmode_write f then p1\<lparr>writers := writers p1 - 1\<rparr> else p1);
          p3 = wake_wwait (wake_rwait p2)
      in if readers p3 = 0 \<and> writers p3 = 0 then None else Some p3)"

text \<open>\<open>inode\<close> and the two \<open>files\<close>: whether \<^verbatim>\<open>new_inode\<close> and both \<^verbatim>\<open>file_alloc\<close> calls succeeded.\<close>

definition pipe_create_pair ::
  "bool \<Rightarrow> bool \<Rightarrow> u8 list option \<Rightarrow> bool \<Rightarrow> bool \<Rightarrow> (pfile \<times> pfile \<times> pipe) option" where
  "pipe_create_pair inode obj page files nonblock =
     (if \<not> inode then None
      else case pipe_alloc obj page of
             None \<Rightarrow> None
           | Some p \<Rightarrow>
               if \<not> files then None
               else Some (\<lparr>fmode_read = True, fmode_write = False, fnonblock = nonblock\<rparr>,
                          \<lparr>fmode_read = False, fmode_write = True, fnonblock = nonblock\<rparr>,
                          p\<lparr>readers := 1, writers := 1, w_counter := 1\<rparr>))"

text \<open>
  \<^verbatim>\<open>fifo_open\<close> of the read and of the write end on the pipe of the inode.  \<open>None\<close> as the result: asleep.
\<close>

definition fifo_open_read :: "pfile \<Rightarrow> sleep list \<Rightarrow> pipe \<Rightarrow> (errno + unit) option \<times> sleep list \<times> pipe" where
  "fifo_open_read f sleeps p0 =
     (if \<not> fmode_read f then (Some (Inr ()), sleeps, p0)
      else let p = wake_wwait (p0\<lparr>readers := readers p0 + 1\<rparr>) in
           if \<not> fmode_write f \<and> \<not> fnonblock f \<and> writers p = 0
           then (case sleeps of
                   [] \<Rightarrow> (None, [], p)
                 | Woken p' # rest \<Rightarrow> (Some (Inr ()), rest, p')
                 | Signalled p' # rest \<Rightarrow> (Some (Inl ERESTARTSYS), rest, p'\<lparr>readers := readers p' - 1\<rparr>))
           else (Some (Inr ()), sleeps, p))"

definition fifo_open_write :: "pfile \<Rightarrow> sleep list \<Rightarrow> pipe \<Rightarrow> (errno + unit) option \<times> pipe" where
  "fifo_open_write f sleeps p0 =
     (if \<not> fmode_write f then (Some (Inr ()), p0)
      else if \<not> fmode_read f \<and> fnonblock f \<and> readers p0 = 0 then (Some (Inl ENXIO), p0)
      else let p = wake_rwait (p0\<lparr>writers := writers p0 + 1, w_counter := w_counter p0 + 1\<rparr>) in
           if \<not> fmode_read f \<and> readers p = 0
           then (case sleeps of
                   [] \<Rightarrow> (None, p)
                 | Woken p' # rest \<Rightarrow> (Some (Inr ()), p')
                 | Signalled p' # rest \<Rightarrow> (Some (Inl ERESTARTSYS), p'\<lparr>writers := writers p' - 1\<rparr>))
           else (Some (Inr ()), p))"

definition fifo_open ::
  "pfile \<Rightarrow> sleep list \<Rightarrow> bool \<Rightarrow> u8 list option \<Rightarrow> pipe option \<Rightarrow> (errno + unit) option \<times> pipe option" where
  "fifo_open f sleeps obj page ip =
     (case (case ip of None \<Rightarrow> pipe_alloc obj page | Some p \<Rightarrow> Some p) of
        None \<Rightarrow> (Some (Inl ENOMEM), ip)
      | Some p \<Rightarrow>
          (case fifo_open_read f sleeps p of
             (Some (Inr _), sleeps', p') \<Rightarrow> (case fifo_open_write f sleeps' p' of (r, p'') \<Rightarrow> (r, Some p''))
           | (r, sleeps', p') \<Rightarrow> (r, Some p')))"



section \<open>The ring is a byte queue\<close>

definition pipe_ok :: "pipe \<Rightarrow> bool" where
  "pipe_ok p \<longleftrightarrow> length (pbuf p) = PIPE_SIZE \<and> pipe_used p \<le> PIPE_SIZE"

text \<open>The abstraction: the bytes written and not yet read, oldest first.\<close>

definition pipe_bytes :: "pipe \<Rightarrow> u8 list" where
  "pipe_bytes p = map (\<lambda>i. pbuf p ! ((unat (ptail p) + i) mod PIPE_SIZE)) [0 ..< pipe_used p]"

lemma pipe_bytes_length [simp]: "length (pipe_bytes p) = pipe_used p"
  by (simp add: pipe_bytes_def)













section \<open>Reading takes the oldest bytes\<close>







section \<open>Small writes are atomic\<close>

lemma wake_rwait_same [simp]:
  "pipe_ok (wake_rwait p) = pipe_ok p" "pipe_bytes (wake_rwait p) = pipe_bytes p" "pipe_used (wake_rwait p) = pipe_used p"
  "readers (wake_rwait p) = readers p" "pipe_space (wake_rwait p) = pipe_space p"
  by (simp_all add: wake_rwait_def pipe_ok_def pipe_bytes_def pipe_used_def pipe_space_def)





end
