(* ===== verification/Olux_Fdt.thy ===== *)
theory Olux_Fdt
  imports Olux_Prelude Olux_String
begin

text \<open>
  The flattened device tree reader of lib/fdt.c.  The memory from the start of the blob on is a
  function from byte offsets to bytes, so that a read past the blob sees whatever is stored there.
  Nodes are offsets into the structure block, negative values errors, as in the code.  Offsets are
  unbounded integers, which is exact for structure blocks below 2 GiB; the header check keeps
  its 32-bit arithmetic.  Pointers into the blob are offsets from its start.

  Results of type \<^verbatim>\<open>option\<close> are \<open>None\<close> where the C program has no defined result: a loop or
  recursion that never ends, a store outside an array, a signed overflow.
\<close>

definition FDT_BEGIN_NODE :: u32 where "FDT_BEGIN_NODE = 1"
definition FDT_END_NODE :: u32 where "FDT_END_NODE = 2"
definition FDT_PROP :: u32 where "FDT_PROP = 3"
definition FDT_NOP :: u32 where "FDT_NOP = 4"
definition FDT_END :: u32 where "FDT_END = 9"

definition FDT_MAGIC :: u32 where "FDT_MAGIC = 0xd00dfeed"
definition FDT_ERR_NOTFOUND :: int where "FDT_ERR_NOTFOUND = - 1"
definition FDT_ERR_BADBLOB :: int where "FDT_ERR_BADBLOB = - 2"

lemmas fdt_tags = FDT_BEGIN_NODE_def FDT_END_NODE_def FDT_PROP_def FDT_NOP_def FDT_END_def
lemmas fdt_errs = FDT_ERR_NOTFOUND_def FDT_ERR_BADBLOB_def

record fdt =
  blob :: mem
  dt_struct :: nat
  dt_strings :: nat
  struct_size :: nat
  strings_size :: nat

definition rd32 :: "mem \<Rightarrow> nat \<Rightarrow> u32" where
  "rd32 m p = push_bit 24 (ucast (m p)) OR push_bit 16 (ucast (m (p + 1)))
     OR push_bit 8 (ucast (m (p + 2))) OR ucast (m (p + 3))"

text \<open>The characters of a C string at \<open>p\<close>, as far as a reader limited to \<open>n\<close> bytes sees them.\<close>

definition cstr_at :: "mem \<Rightarrow> nat \<Rightarrow> nat \<Rightarrow> cstr" where
  "cstr_at m p n = takeWhile (\<lambda>c. c \<noteq> 0) (map m [p..<p + n])"

definition lit :: "string \<Rightarrow> cstr" where
  "lit s = map of_char s"

definition align4 :: "nat \<Rightarrow> nat" where
  "align4 n = (n + 3) div 4 * 4"


section \<open>Header\<close>

text \<open>The offsets of the header fields, in the order of \<^verbatim>\<open>struct fdt_header\<close>.\<close>

datatype fdt_header =
    h_magic | h_totalsize | h_off_dt_struct | h_off_dt_strings | h_off_mem_rsvmap | h_version
  | h_last_comp_version | h_boot_cpuid_phys | h_size_dt_strings | h_size_dt_struct

fun field_off :: "fdt_header \<Rightarrow> nat" where
  "field_off h_magic = 0"
| "field_off h_totalsize = 4"
| "field_off h_off_dt_struct = 8"
| "field_off h_off_dt_strings = 12"
| "field_off h_off_mem_rsvmap = 16"
| "field_off h_version = 20"
| "field_off h_last_comp_version = 24"
| "field_off h_boot_cpuid_phys = 28"
| "field_off h_size_dt_strings = 32"
| "field_off h_size_dt_struct = 36"

definition fdt_totalsize :: "mem \<Rightarrow> u32" where
  "fdt_totalsize m = rd32 m 4"

text \<open>The argument is \<open>None\<close> for a null pointer.\<close>

definition fdt_init :: "fdt \<Rightarrow> mem option \<Rightarrow> int \<times> fdt" where
  "fdt_init s b =
     (case b of
        None \<Rightarrow> (FDT_ERR_BADBLOB, s)
      | Some m \<Rightarrow>
          let h = (\<lambda>f. rd32 m (field_off f)) in
          if h h_magic \<noteq> FDT_MAGIC then (FDT_ERR_BADBLOB, s)
          else if h h_version < 16 \<or> h h_last_comp_version > 17 then (FDT_ERR_BADBLOB, s)
          else
            let total = h h_totalsize; so = h h_off_dt_struct; ss = h h_size_dt_struct;
                ts_off = h h_off_dt_strings; ts = h h_size_dt_strings in
            if so + ss > total \<or> ts_off + ts > total \<or> so + ss < so \<or> ts_off + ts < ts_off
            then (FDT_ERR_BADBLOB, s)
            else (0, \<lparr>blob = m, dt_struct = unat so, dt_strings = unat ts_off,
                      struct_size = unat ss, strings_size = unat ts\<rparr>))"

definition fdt_relocate :: "fdt \<Rightarrow> mem option \<Rightarrow> fdt" where
  "fdt_relocate s nb = snd (fdt_init s nb)"


section \<open>Token stream\<close>

text \<open>
  \<^verbatim>\<open>next_token\<close> stores the tag through a pointer, but only when a token is there to read.  The
  storage is passed through; \<open>None\<close> is a variable that was never written.
\<close>

definition next_token :: "fdt \<Rightarrow> int \<Rightarrow> u32 option \<Rightarrow> int \<times> u32 option" where
  "next_token s off tag =
     (if off < 0 \<or> nat off + 4 > struct_size s then (- 1, tag)
      else
        let t = rd32 (blob s) (dt_struct s + nat off); p = nat off + 4 in
        if t = FDT_BEGIN_NODE then
          let mx = struct_size s - p; len = strnlen (cstr_at (blob s) (dt_struct s + p) mx) mx in
          if len = mx then (- 1, Some t) else (int (p + align4 (len + 1)), Some t)
        else if t = FDT_PROP then
          if p + 8 > struct_size s then (- 1, Some t)
          else
            let len = unat (rd32 (blob s) (dt_struct s + p)) in
            if len > struct_size s - p - 8 then (- 1, Some t) else (int (p + 8 + align4 len), Some t)
        else if t = FDT_END_NODE \<or> t = FDT_NOP \<or> t = FDT_END then (int p, Some t)
        else (- 1, Some t))"

lemma align4_ge: "n \<le> align4 n"
  by (simp add: align4_def)

lemma next_token_ok:
  assumes "next_token s off tag = (n, tag')" "0 \<le> n"
  shows "0 \<le> off" "nat off + 4 \<le> struct_size s" "off + 4 \<le> n"
    "tag' = Some (rd32 (blob s) (dt_struct s + nat off))"
  using assms align4_ge by (auto simp: next_token_def Let_def split: if_splits)

lemma next_token_progress:
  assumes "next_token s off tag = (n, tag')" "\<not> n < 0"
  shows "off < int (struct_size s) \<and> off < n"
  using next_token_ok [OF assms(1)] assms(2) by simp

lemma next_token_sym: "(n, tag') = next_token s off tag \<Longrightarrow> next_token s off tag = (n, tag')"
  by simp

text \<open>An unwritten tag is equal to no tag.\<close>

function root_loop :: "fdt \<Rightarrow> int \<Rightarrow> u32 option \<Rightarrow> int" where
  "root_loop s off tag =
     (if off < 0 then FDT_ERR_BADBLOB
      else case next_token s off tag of (n, tag1) \<Rightarrow>
        if tag1 = Some FDT_BEGIN_NODE then off
        else if tag1 \<noteq> Some FDT_NOP then FDT_ERR_BADBLOB
        else if n < 0 then FDT_ERR_BADBLOB else root_loop s n tag1)"
  by pat_completeness auto
termination
  by (relation "measure (\<lambda>(s, off, tag). nat (int (struct_size s) - off))") (auto dest!: next_token_sym dest: next_token_progress)

definition fdt_root :: "fdt \<Rightarrow> int" where
  "fdt_root s = root_loop s 0 None"

text \<open>The node name is returned as a pointer; \<open>None\<close> is the empty string literal.\<close>

definition fdt_node_name :: "fdt \<Rightarrow> int \<Rightarrow> nat option" where
  "fdt_node_name s node = (if node < 0 then None else Some (dt_struct s + nat node + 4))"

function props_loop :: "fdt \<Rightarrow> int \<Rightarrow> u32 option \<Rightarrow> int \<times> u32 option" where
  "props_loop s off tag =
     (if off < 0 then (- 1, tag)
      else case next_token s off tag of (n, tag1) \<Rightarrow>
        if tag1 \<noteq> Some FDT_PROP \<and> tag1 \<noteq> Some FDT_NOP then (off, tag1)
        else if n < 0 then (- 1, tag1) else props_loop s n tag1)"
  by pat_completeness auto
termination
  by (relation "measure (\<lambda>(s, off, tag). nat (int (struct_size s) - off))") (auto dest!: next_token_sym dest: next_token_progress)

definition skip_props :: "fdt \<Rightarrow> int \<Rightarrow> int \<times> u32 option" where
  "skip_props s node = (case next_token s node None of (off, tag) \<Rightarrow> props_loop s off tag)"

function node_loop :: "fdt \<Rightarrow> int \<Rightarrow> int \<Rightarrow> u32 option \<Rightarrow> int" where
  "node_loop s depth off tag =
     (if off < 0 then - 1
      else case next_token s off tag of (n, tag1) \<Rightarrow>
        if tag1 = Some FDT_BEGIN_NODE then (if n < 0 then - 1 else node_loop s (depth + 1) n tag1)
        else if tag1 = Some FDT_END_NODE then
          (if depth - 1 = 0 then n else if n < 0 then - 1 else node_loop s (depth - 1) n tag1)
        else if tag1 = Some FDT_END then - 1
        else if n < 0 then - 1 else node_loop s depth n tag1)"
  by pat_completeness auto
termination
  by (relation "measure (\<lambda>(s, depth, off, tag). nat (int (struct_size s) - off))")
    (auto dest!: next_token_sym dest: next_token_progress)

definition skip_node :: "fdt \<Rightarrow> int \<Rightarrow> int" where
  "skip_node s node = node_loop s 0 node None"

definition fdt_first_child :: "fdt \<Rightarrow> int \<Rightarrow> int" where
  "fdt_first_child s node =
     (case skip_props s node of (off, tag) \<Rightarrow>
        if off < 0 \<or> tag \<noteq> Some FDT_BEGIN_NODE then FDT_ERR_NOTFOUND else off)"

function sibling_loop :: "fdt \<Rightarrow> int \<Rightarrow> u32 option \<Rightarrow> int" where
  "sibling_loop s off tag =
     (if off < 0 then FDT_ERR_NOTFOUND
      else case next_token s off tag of (n, tag1) \<Rightarrow>
        if tag1 = Some FDT_BEGIN_NODE then off
        else if tag1 \<noteq> Some FDT_NOP then FDT_ERR_NOTFOUND
        else if n < 0 then FDT_ERR_NOTFOUND else sibling_loop s n tag1)"
  by pat_completeness auto
termination
  by (relation "measure (\<lambda>(s, off, tag). nat (int (struct_size s) - off))") (auto dest!: next_token_sym dest: next_token_progress)

definition fdt_next_sibling :: "fdt \<Rightarrow> int \<Rightarrow> int" where
  "fdt_next_sibling s node = sibling_loop s (skip_node s node) None"

text \<open>
  \<^verbatim>\<open>fdt_parent\<close> keeps the path in an array of 32 entries.  \<open>stack\<close> holds what has been stored;
  \<open>depth\<close> is the C variable, which an unmatched \<^verbatim>\<open>FDT_END_NODE\<close> takes below \<open>- 1\<close>.  A store at a
  negative index is outside the array: \<open>None\<close>.
\<close>

function parent_loop :: "fdt \<Rightarrow> int \<Rightarrow> int list \<Rightarrow> int \<Rightarrow> int \<Rightarrow> u32 option \<Rightarrow> int option" where
  "parent_loop s node stack depth off tag =
     (if off < 0 then Some FDT_ERR_NOTFOUND
      else case next_token s off tag of (n, tag1) \<Rightarrow>
        if tag1 = Some FDT_BEGIN_NODE then
          if off = node then Some (if depth \<ge> 0 then stack ! nat depth else FDT_ERR_NOTFOUND)
          else if depth + 1 \<ge> 32 then Some FDT_ERR_BADBLOB
          else if depth + 1 < 0 then None
          else if n < 0 then Some FDT_ERR_NOTFOUND
          else parent_loop s node (stack[nat (depth + 1) := off]) (depth + 1) n tag1
        else if tag1 = Some FDT_END_NODE then
          if n < 0 then Some FDT_ERR_NOTFOUND else parent_loop s node stack (depth - 1) n tag1
        else if tag1 = Some FDT_END then Some FDT_ERR_NOTFOUND
        else if n < 0 then Some FDT_ERR_NOTFOUND else parent_loop s node stack depth n tag1)"
  by pat_completeness auto
termination
  by (relation "measure (\<lambda>(s, node, stack, depth, off, tag). nat (int (struct_size s) - off))")
    (auto dest!: next_token_sym dest: next_token_progress)

definition fdt_parent :: "fdt \<Rightarrow> int \<Rightarrow> int option" where
  "fdt_parent s node = parent_loop s node (replicate 32 0) (- 1) 0 None"

declare root_loop.simps [simp del] props_loop.simps [simp del] node_loop.simps [simp del]
  sibling_loop.simps [simp del] parent_loop.simps [simp del]


section \<open>Properties\<close>

definition prop_matches :: "fdt \<Rightarrow> nat \<Rightarrow> cstr \<Rightarrow> bool" where
  "prop_matches s nameoff name \<longleftrightarrow>
     nameoff < strings_size s
     \<and> strncmp (cstr_at (blob s) (dt_strings s + nameoff) (strings_size s - nameoff)) name (strings_size s - nameoff) = 0
     \<and> strlen name < strings_size s - nameoff"

text \<open>The result is the pointer to the value and its length.\<close>

function getprop_loop :: "fdt \<Rightarrow> cstr \<Rightarrow> int \<Rightarrow> u32 option \<Rightarrow> (nat \<times> nat) option" where
  "getprop_loop s name off tag =
     (if off < 0 then None
      else case next_token s off tag of (n, tag1) \<Rightarrow>
        if n < 0 then None
        else if tag1 = Some FDT_PROP then
          let len = unat (rd32 (blob s) (dt_struct s + nat off + 4));
              nameoff = unat (rd32 (blob s) (dt_struct s + nat off + 8)) in
          if prop_matches s nameoff name then Some (dt_struct s + nat off + 12, len)
          else getprop_loop s name n tag1
        else if tag1 \<noteq> Some FDT_NOP then None
        else getprop_loop s name n tag1)"
  by pat_completeness auto
termination
  by (relation "measure (\<lambda>(s, name, off, tag). nat (int (struct_size s) - off))")
    (auto dest!: next_token_sym dest: next_token_progress)

definition fdt_getprop :: "fdt \<Rightarrow> int \<Rightarrow> cstr \<Rightarrow> (nat \<times> nat) option" where
  "fdt_getprop s node name =
     (if node < 0 then None
      else case next_token s node None of (off, tag) \<Rightarrow> getprop_loop s name off tag)"

definition fdt_getprop_u32 :: "fdt \<Rightarrow> int \<Rightarrow> cstr \<Rightarrow> u32 option" where
  "fdt_getprop_u32 s node name =
     (case fdt_getprop s node name of
        None \<Rightarrow> None
      | Some (p, len) \<Rightarrow> if len < 4 then None else Some (rd32 (blob s) p))"

text \<open>The value ends in a zero byte, so the string at the returned pointer is known.\<close>

definition fdt_getprop_str :: "fdt \<Rightarrow> int \<Rightarrow> cstr \<Rightarrow> cstr option" where
  "fdt_getprop_str s node name =
     (case fdt_getprop s node name of
        None \<Rightarrow> None
      | Some (p, len) \<Rightarrow>
          if len = 0 \<or> blob s (p + len - 1) \<noteq> 0 then None else Some (cstr_at (blob s) p len))"

text \<open>\<^verbatim>\<open>strcmp\<close> is not limited to the value: it reads on until a difference or the end of \<open>cpt\<close>.\<close>

function compat_loop :: "mem \<Rightarrow> cstr \<Rightarrow> nat \<Rightarrow> int \<Rightarrow> bool" where
  "compat_loop m cpt p len =
     (if len \<le> 0 then False
      else
        let l = strnlen (cstr_at m p (nat len)) (nat len) in
        if strcmp (cstr_at m p (length cpt + 1)) cpt = 0 then True
        else compat_loop m cpt (p + l + 1) (len - int (l + 1)))"
  by pat_completeness auto
termination
  by (relation "measure (\<lambda>(m, cpt, p, len). nat len)") auto

definition fdt_is_compatible :: "fdt \<Rightarrow> int \<Rightarrow> cstr \<Rightarrow> bool" where
  "fdt_is_compatible s node cpt =
     (case fdt_getprop s node (lit ''compatible'') of
        None \<Rightarrow> False
      | Some (p, len) \<Rightarrow> compat_loop (blob s) cpt p (int len))"

definition fdt_is_available :: "fdt \<Rightarrow> int \<Rightarrow> bool" where
  "fdt_is_available s node =
     (case fdt_getprop_str s node (lit ''status'') of
        None \<Rightarrow> True
      | Some st \<Rightarrow> strcmp st (lit ''okay'') = 0 \<or> strcmp st (lit ''ok'') = 0)"

function find_loop :: "fdt \<Rightarrow> cstr \<Rightarrow> int \<Rightarrow> u32 option \<Rightarrow> int" where
  "find_loop s cpt off tag =
     (if off < 0 then FDT_ERR_NOTFOUND
      else case next_token s off tag of (n, tag1) \<Rightarrow>
        if tag1 = Some FDT_BEGIN_NODE \<and> fdt_is_compatible s off cpt then off
        else if tag1 = Some FDT_END then FDT_ERR_NOTFOUND
        else if n < 0 then FDT_ERR_NOTFOUND else find_loop s cpt n tag1)"
  by pat_completeness auto
termination
  by (relation "measure (\<lambda>(s, cpt, off, tag). nat (int (struct_size s) - off))")
    (auto dest!: next_token_sym dest: next_token_progress)

definition fdt_find_compatible :: "fdt \<Rightarrow> int \<Rightarrow> cstr \<Rightarrow> int" where
  "fdt_find_compatible s from cpt =
     (case (if from < 0 then (0, None) else next_token s from None) of
        (off, tag) \<Rightarrow> find_loop s cpt off tag)"

text \<open>
  The two lookups share the variable \<open>v\<close>: the second runs only when the first found nothing.
\<close>

definition phandle_is :: "fdt \<Rightarrow> int \<Rightarrow> u32 \<Rightarrow> bool" where
  "phandle_is s off ph =
     (case fdt_getprop_u32 s off (lit ''phandle'') of
        Some v \<Rightarrow> v = ph
      | None \<Rightarrow> (case fdt_getprop_u32 s off (lit ''linux,phandle'') of Some v \<Rightarrow> v = ph | None \<Rightarrow> False))"

function phandle_loop :: "fdt \<Rightarrow> u32 \<Rightarrow> int \<Rightarrow> u32 option \<Rightarrow> int" where
  "phandle_loop s ph off tag =
     (if off < 0 then FDT_ERR_NOTFOUND
      else case next_token s off tag of (n, tag1) \<Rightarrow>
        if tag1 = Some FDT_BEGIN_NODE \<and> phandle_is s off ph then off
        else if tag1 = Some FDT_END then FDT_ERR_NOTFOUND
        else if n < 0 then FDT_ERR_NOTFOUND else phandle_loop s ph n tag1)"
  by pat_completeness auto
termination
  by (relation "measure (\<lambda>(s, ph, off, tag). nat (int (struct_size s) - off))")
    (auto dest!: next_token_sym dest: next_token_progress)

definition fdt_node_by_phandle :: "fdt \<Rightarrow> u32 \<Rightarrow> int" where
  "fdt_node_by_phandle s ph = phandle_loop s ph 0 None"

declare getprop_loop.simps [simp del] compat_loop.simps [simp del] find_loop.simps [simp del]
  phandle_loop.simps [simp del]


section \<open>Order of offsets\<close>

text \<open>
  Siblings lie behind, parents before a node: the walks over children and ancestors end.
\<close>

lemma node_loop_after: "0 \<le> node_loop s depth off tag \<Longrightarrow> off < node_loop s depth off tag \<and> off < int (struct_size s)"
proof (induction s depth off tag rule: node_loop.induct)
  case (1 s depth off tag)
  obtain n tag1 where nt: "next_token s off tag = (n, tag1)" by fastforce
  note pr = next_token_progress [OF nt]
  show ?case using "1.prems" pr "1.IH" [OF _ nt [symmetric]]
    by (auto simp: node_loop.simps [of s depth off tag] nt not_less split: if_splits)
qed

lemma sibling_loop_after: "0 \<le> sibling_loop s off tag \<Longrightarrow> off \<le> sibling_loop s off tag \<and> 0 \<le> off"
proof (induction s off tag rule: sibling_loop.induct)
  case (1 s off tag)
  obtain n tag1 where nt: "next_token s off tag = (n, tag1)" by fastforce
  note pr = next_token_progress [OF nt]
  show ?case using "1.prems" pr "1.IH" [OF _ nt [symmetric]]
    by (fastforce simp: sibling_loop.simps [of s off tag] nt fdt_errs split: if_splits)
qed

lemma fdt_next_sibling_after:
  assumes "0 \<le> fdt_next_sibling s node"
  shows "node < fdt_next_sibling s node" "node < int (struct_size s)"
  using sibling_loop_after [OF assms [unfolded fdt_next_sibling_def]] node_loop_after [of s 0 node None]
  by (simp_all add: fdt_next_sibling_def skip_node_def)

lemma parent_loop_before:
  assumes "parent_loop s node stack depth off tag = Some r" "0 \<le> r"
    "length stack = 32" "depth < 32" "\<forall>i. int i \<le> depth \<longrightarrow> stack ! i < off"
  shows "r < node"
  using assms
proof (induction s node stack depth off tag rule: parent_loop.induct)
  case (1 s node stack depth off tag)
  obtain n tag1 where nt: "next_token s off tag = (n, tag1)" by fastforce
  note pr = next_token_progress [OF nt] and st = parent_loop.simps [of s node stack depth off tag]
  consider (neg) "off < 0" | (begin_node) "0 \<le> off" "tag1 = Some FDT_BEGIN_NODE"
    | (end_node) "0 \<le> off" "tag1 \<noteq> Some FDT_BEGIN_NODE" "tag1 = Some FDT_END_NODE"
    | (rest) "0 \<le> off" "tag1 \<noteq> Some FDT_BEGIN_NODE" "tag1 \<noteq> Some FDT_END_NODE" by fastforce
  then show ?case
  proof cases
    case neg
    then show ?thesis using "1.prems" by (simp add: st fdt_errs)
  next
    case begin_node
    have "stack[nat (depth + 1) := off] ! i < n" if "int i \<le> depth + 1" "off < n" "- 1 \<le> depth" "depth < 31" for i
    proof (cases "i = nat (depth + 1)")
      case False
      then have "int i \<le> depth" using that(1) by linarith
      then have "stack ! i < off" using "1.prems"(5) by blast
      then show ?thesis using False that(2) by simp
    qed (use that "1.prems"(3) in simp)
    then show ?thesis using begin_node "1.prems" pr "1.IH"(1) [OF _ nt [symmetric]]
      by (auto simp: st nt fdt_errs not_less split: if_splits)
  next
    case end_node
    have "stack ! i < n" if "int i \<le> depth - 1" "off < n" for i
      using that "1.prems"(5) by (meson diff_le_self less_trans order_trans zle_diff1_eq less_imp_le)
    then show ?thesis using end_node "1.prems" pr "1.IH"(2) [OF _ nt [symmetric]]
      by (auto simp: st nt fdt_errs not_less split: if_splits)
  next
    case rest
    have "stack ! i < n" if "int i \<le> depth" "off < n" for i
      using that "1.prems"(5) by (meson less_trans)
    then show ?thesis using rest "1.prems" pr "1.IH"(3) [OF _ nt [symmetric]]
      by (auto simp: st nt fdt_errs not_less split: if_splits)
  qed
qed

lemma fdt_parent_before: "fdt_parent s node = Some r \<Longrightarrow> 0 \<le> r \<Longrightarrow> r < node"
  using parent_loop_before [of s node "replicate 32 0" "- 1" 0 None r] by (simp add: fdt_parent_def)


section \<open>Paths\<close>

text \<open>
  A path component matches a child whose name is the component, or the component followed by a
  unit address when the component has none.
\<close>

definition name_matches :: "fdt \<Rightarrow> int \<Rightarrow> cstr \<Rightarrow> nat \<Rightarrow> bool" where
  "name_matches s child path len =
     (let m = blob s; nm = dt_struct s + nat child + 4 in
      strncmp (cstr_at m nm len) path len = 0 \<and>
      (m (nm + len) = 0 \<or> m (nm + len) = of_char CHR ''@'' \<and> of_char CHR ''@'' \<notin> set (take len path)))"

function child_loop :: "fdt \<Rightarrow> cstr \<Rightarrow> nat \<Rightarrow> int \<Rightarrow> int" where
  "child_loop s path len child =
     (if child < 0 then child
      else if name_matches s child path len then child
      else if fdt_next_sibling s child < 0 then fdt_next_sibling s child
      else child_loop s path len (fdt_next_sibling s child))"
  by pat_completeness auto
termination
  by (relation "measure (\<lambda>(s, path, len, child). nat (int (struct_size s) - child))")
    (auto dest: fdt_next_sibling_after simp: not_less)

declare child_loop.simps [simp del]

definition skip_slashes :: "cstr \<Rightarrow> cstr" where
  "skip_slashes path = dropWhile (\<lambda>c. c = of_char CHR ''/'') path"

definition component_len :: "cstr \<Rightarrow> nat" where
  "component_len path =
     (case strchr path (of_char CHR ''/'') of Some e \<Rightarrow> length path - length e | None \<Rightarrow> strlen path)"

lemma skip_slashes_le: "length (skip_slashes path) \<le> length path"
  by (simp add: skip_slashes_def length_dropWhile_le)

lemma component_len_pos:
  assumes "path \<noteq> []" "path = skip_slashes q"
  shows "0 < component_len path"
proof -
  have "path ! 0 \<noteq> of_char CHR ''/''"
    using assms hd_dropWhile [of "\<lambda>c. c = of_char CHR ''/''" q] by (auto simp: skip_slashes_def hd_conv_nth)
  moreover have "length e \<le> length xs" if "strchr xs c = Some e" for e xs and c :: u8
    using that by (induction xs) (auto split: if_splits)
  ultimately show ?thesis using assms(1)
    by (cases path) (auto simp: component_len_def le_imp_less_Suc Suc_diff_le split: option.splits if_splits)
qed

text \<open>The recursion is on the rest of the path, from which the leading slashes are gone.\<close>

function path_loop :: "fdt \<Rightarrow> int \<Rightarrow> cstr \<Rightarrow> int" where
  "path_loop s node path =
     (if skip_slashes path = [] \<or> node < 0 then node
      else
        let comp = skip_slashes path; len = component_len comp in
        path_loop s (child_loop s comp len (fdt_first_child s node)) (drop len comp))"
  by pat_completeness auto
termination
proof (relation "measure (\<lambda>(s, node, path). length path)", goal_cases)
  case (2 s node path comp len)
  then have "0 < len" "length comp \<le> length path" "comp \<noteq> []"
    using component_len_pos skip_slashes_le by auto
  then show ?case by (cases comp) auto
qed simp

declare path_loop.simps [simp del]

text \<open>An alias is resolved by a recursive call on its value, which may again be an alias.\<close>

partial_function (option) fdt_path_offset :: "fdt \<Rightarrow> cstr \<Rightarrow> int option" where
  "fdt_path_offset s path =
     (if chr0 path \<noteq> of_char CHR ''/'' then
        Option.bind (fdt_path_offset s (lit ''/aliases'')) (\<lambda>al.
          case (if 0 \<le> al then fdt_getprop_str s al path else None) of
            None \<Rightarrow> Some FDT_ERR_NOTFOUND
          | Some p \<Rightarrow> fdt_path_offset s p)
      else Some (path_loop s (fdt_root s) path))"


section \<open>Addresses\<close>

definition cells_of :: "fdt \<Rightarrow> int \<Rightarrow> cstr \<Rightarrow> nat \<Rightarrow> nat" where
  "cells_of s parent prop dflt =
     (if parent \<ge> 0 then
        case fdt_getprop_u32 s parent prop of
          Some v \<Rightarrow> if v \<le> 4 then unat v else dflt
        | None \<Rightarrow> dflt
      else dflt)"

definition fdt_address_cells :: "fdt \<Rightarrow> int \<Rightarrow> nat option" where
  "fdt_address_cells s node = map_option (\<lambda>p. cells_of s p (lit ''#address-cells'') 2) (fdt_parent s node)"

definition fdt_size_cells :: "fdt \<Rightarrow> int \<Rightarrow> nat option" where
  "fdt_size_cells s node = map_option (\<lambda>p. cells_of s p (lit ''#size-cells'') 1) (fdt_parent s node)"

definition fdt_read_cells :: "mem \<Rightarrow> nat \<Rightarrow> nat \<Rightarrow> u64" where
  "fdt_read_cells m c n = fold (\<lambda>i v. push_bit 32 v OR ucast (rd32 m (c + 4 * i))) [0..<n] 0"

text \<open>
  The search of one \<^verbatim>\<open>ranges\<close> property of \<open>len\<close> bytes at \<open>r\<close>.  An entry of no cells at all never
  gets past the end: the loop does not return.
\<close>

partial_function (option) range_loop ::
  "mem \<Rightarrow> nat \<Rightarrow> nat \<Rightarrow> nat \<Rightarrow> nat \<Rightarrow> nat \<Rightarrow> u64 \<Rightarrow> nat \<Rightarrow> u64 option option" where
  "range_loop m r len ca pa cs addr i =
     (let entry = ca + pa + cs in
      if (i + 1) * entry * 4 \<le> len then
        let e = r + i * entry * 4;
            child = fdt_read_cells m e ca;
            paddr = fdt_read_cells m (e + 4 * ca) pa;
            sz = fdt_read_cells m (e + 4 * (ca + pa)) cs in
        if addr \<ge> child \<and> addr - child < sz then Some (Some (addr - child + paddr))
        else range_loop m r len ca pa cs addr (i + 1)
      else Some None)"

text \<open>\<open>Some None\<close> is an address that cannot be translated.\<close>

function fdt_translate :: "fdt \<Rightarrow> int \<Rightarrow> u64 \<Rightarrow> u64 option option" where
  "fdt_translate s bus addr =
     (if bus < 0 then Some (Some addr)
      else case fdt_parent s bus of
        None \<Rightarrow> None
      | Some parent \<Rightarrow>
          if parent < 0 then Some (Some addr)
          else case fdt_getprop s bus (lit ''ranges'') of
            None \<Rightarrow> Some None
          | Some (r, len) \<Rightarrow>
              if len = 0 then fdt_translate s parent addr
              else
                let ca = cells_of s bus (lit ''#address-cells'') 2;
                    cs = cells_of s bus (lit ''#size-cells'') 1;
                    pa = cells_of s parent (lit ''#address-cells'') 2 in
                case range_loop (blob s) r len ca pa cs addr 0 of
                  None \<Rightarrow> None
                | Some None \<Rightarrow> Some None
                | Some (Some a) \<Rightarrow> fdt_translate s parent a)"
  by pat_completeness auto
termination
  by (relation "measure (\<lambda>(s, bus, addr). nat (bus + 1))") (auto dest!: fdt_parent_before)

declare fdt_translate.simps [simp del]

definition fdt_get_reg :: "fdt \<Rightarrow> int \<Rightarrow> nat \<Rightarrow> (errno + u64 \<times> u64) option" where
  "fdt_get_reg s node idx =
     (case fdt_parent s node of
        None \<Rightarrow> None
      | Some parent \<Rightarrow>
          let ac = cells_of s parent (lit ''#address-cells'') 2;
              sc = cells_of s parent (lit ''#size-cells'') 1;
              entry = (ac + sc) * 4 in
          case fdt_getprop s node (lit ''reg'') of
            None \<Rightarrow> Some (Inl ENOENT)
          | Some (reg, len) \<Rightarrow>
              if entry = 0 \<or> (idx + 1) * entry > len then Some (Inl ENOENT)
              else
                let e = reg + idx * entry;
                    a = fdt_read_cells (blob s) e ac;
                    sz = fdt_read_cells (blob s) (e + 4 * ac) sc in
                case fdt_translate s parent a of
                  None \<Rightarrow> None
                | Some None \<Rightarrow> Some (Inl EINVAL)
                | Some (Some a') \<Rightarrow> Some (Inr (a', sz)))"


section \<open>Interrupts\<close>

function irq_parent :: "fdt \<Rightarrow> int \<Rightarrow> int option" where
  "irq_parent s n =
     (if n < 0 then Some FDT_ERR_NOTFOUND
      else case fdt_getprop_u32 s n (lit ''interrupt-parent'') of
        Some ph \<Rightarrow> Some (fdt_node_by_phandle s ph)
      | None \<Rightarrow> (case fdt_parent s n of
          None \<Rightarrow> None
        | Some p \<Rightarrow> if p < 0 then Some FDT_ERR_NOTFOUND else irq_parent s p))"
  by pat_completeness auto
termination
  by (relation "measure (\<lambda>(s, n). nat (n + 1))") (auto dest!: fdt_parent_before)

declare irq_parent.simps [simp del]

text \<open>The interrupt number and the flags.\<close>

definition fdt_gic_spec_to_irq :: "mem \<Rightarrow> nat \<Rightarrow> u32 \<Rightarrow> errno + u32 \<times> u32" where
  "fdt_gic_spec_to_irq m spec cells =
     (if cells < 3 then Inl EINVAL
      else
        let ty = rd32 m spec; num = rd32 m (spec + 4) in
        Inr (if ty = 1 then num + 16 else num + 32, rd32 m (spec + 8)))"

definition int_ok :: "int \<Rightarrow> bool" where
  "int_ok x \<longleftrightarrow> - (2 ^ 31) \<le> x \<and> x < 2 ^ 31"

text \<open>
  The loop over \<^verbatim>\<open>interrupts-extended\<close>.  \<open>k\<close> is \<open>idx - i\<close>; \<open>pos\<close> advances in 32-bit unsigned
  arithmetic and is read back as a signed number.
\<close>

fun ext_loop :: "fdt \<Rightarrow> nat \<Rightarrow> nat \<Rightarrow> int \<Rightarrow> nat \<Rightarrow> (errno + u32 \<times> u32) option" where
  "ext_loop s ext len pos k =
     (if \<not> int_ok (pos * 4) then None
      else if pos * 4 < int len then
        let ctrl = fdt_node_by_phandle s (rd32 (blob s) (nat (int ext + 4 * pos))) in
        case (if ctrl < 0 then None else fdt_getprop_u32 s ctrl (lit ''#interrupt-cells'')) of
          None \<Rightarrow> Some (Inl EINVAL)
        | Some cells \<Rightarrow>
            (case k of
               0 \<Rightarrow> Some (fdt_gic_spec_to_irq (blob s) (nat (int ext + 4 * (pos + 1))) cells)
             | Suc k' \<Rightarrow> ext_loop s ext len (sint (word_of_int pos + 1 + cells)) k')
      else Some (Inl ENOENT))"

declare ext_loop.simps [simp del]

definition fdt_get_irq :: "fdt \<Rightarrow> int \<Rightarrow> nat \<Rightarrow> (errno + u32 \<times> u32) option" where
  "fdt_get_irq s node idx =
     (case fdt_getprop s node (lit ''interrupts-extended'') of
        Some (ext, len) \<Rightarrow> ext_loop s ext len 0 idx
      | None \<Rightarrow>
          (case fdt_getprop s node (lit ''interrupts'') of
             None \<Rightarrow> Some (Inl ENOENT)
           | Some (ints, len) \<Rightarrow>
               (case irq_parent s node of
                  None \<Rightarrow> None
                | Some ctrl \<Rightarrow>
                    (case (if ctrl < 0 then None else fdt_getprop_u32 s ctrl (lit ''#interrupt-cells'')) of
                       None \<Rightarrow> Some (Inl EINVAL)
                     | Some cells \<Rightarrow>
                         let span = (int idx + 1) * sint cells in
                         if cells = 0 then Some (Inl EINVAL)
                         else if \<not> int_ok span \<or> \<not> int_ok (span * 4) then None
                         else if span * 4 > int len then Some (Inl ENOENT)
                         else Some (fdt_gic_spec_to_irq (blob s) (ints + 4 * unat (of_nat idx * cells)) cells)))))"


section \<open>Memory map and boot parameters\<close>

definition fdt_mem_rsv :: "fdt \<Rightarrow> nat \<Rightarrow> (bool \<times> u64 \<times> u64) option" where
  "fdt_mem_rsv s idx =
     (let m = blob s; p = unat (rd32 m (field_off h_off_mem_rsvmap)) + idx * 16 in
      if p + 16 > unat (rd32 m (field_off h_totalsize)) then None
      else
        let addr = push_bit 32 (ucast (rd32 m p)) OR ucast (rd32 m (p + 4));
            sz = push_bit 32 (ucast (rd32 m (p + 8))) OR ucast (rd32 m (p + 12)) in
        Some (addr \<noteq> 0 \<or> sz \<noteq> 0, addr, sz))"

lemma entry_index: "0 < x \<or> 0 < y \<Longrightarrow> x * 4 + y * 4 + i * (x * 4 + y * 4) \<le> len \<Longrightarrow> i < len"
  for x y i len :: nat
proof -
  assume a: "0 < x \<or> 0 < y" "x * 4 + y * 4 + i * (x * 4 + y * 4) \<le> len"
  then have "i * 1 \<le> i * (x * 4 + y * 4)" by (intro mult_le_mono2) auto
  moreover have "0 < x * 4 + y * 4" using a(1) by auto
  ultimately show ?thesis using a(2) by linarith
qed

lemma fdt_get_reg_index:
  "fdt_get_reg s node i = Some (Inr (a, sz)) \<Longrightarrow> \<exists>p len. fdt_getprop s node (lit ''reg'') = Some (p, len) \<and> i < len"
  by (auto simp: fdt_get_reg_def Let_def not_less dest: entry_index [OF disjI1] entry_index [OF disjI2] split: option.splits if_splits)

text \<open>The regions a callback is called for, in the order of the calls.\<close>

function for_each_reg :: "fdt \<Rightarrow> int \<Rightarrow> nat \<Rightarrow> (u64 \<times> u64) list option" where
  "for_each_reg s node i =
     (case fdt_get_reg s node i of
        None \<Rightarrow> None
      | Some (Inl e) \<Rightarrow> Some []
      | Some (Inr (a, sz)) \<Rightarrow>
          map_option (\<lambda>rest. if sz \<noteq> 0 then (a, sz) # rest else rest) (for_each_reg s node (i + 1)))"
  by pat_completeness auto
termination
  by (relation "measure (\<lambda>(s, node, i). (case fdt_getprop s node (lit ''reg'') of None \<Rightarrow> 0 | Some (p, len) \<Rightarrow> len) - i)")
    (auto dest!: fdt_get_reg_index)

declare for_each_reg.simps [simp del]

function regions_loop :: "fdt \<Rightarrow> (int \<Rightarrow> bool) \<Rightarrow> int \<Rightarrow> (u64 \<times> u64) list option" where
  "regions_loop s use n =
     (if n < 0 then Some []
      else case (if use n then for_each_reg s n 0 else Some []) of
        None \<Rightarrow> None
      | Some here \<Rightarrow>
          if fdt_next_sibling s n < 0 then Some here
          else map_option (\<lambda>rest. here @ rest) (regions_loop s use (fdt_next_sibling s n)))"
  by pat_completeness auto
termination
  by (relation "measure (\<lambda>(s, use, n). nat (int (struct_size s) - n))")
    (auto dest: fdt_next_sibling_after simp: not_less)

declare regions_loop.simps [simp del]

definition is_memory :: "fdt \<Rightarrow> int \<Rightarrow> bool" where
  "is_memory s n =
     (case fdt_getprop_str s n (lit ''device_type'') of
        None \<Rightarrow> False
      | Some t \<Rightarrow> strcmp t (lit ''memory'') = 0 \<and> fdt_is_available s n)"

definition fdt_for_each_memory :: "fdt \<Rightarrow> (u64 \<times> u64) list option" where
  "fdt_for_each_memory s = regions_loop s (is_memory s) (fdt_first_child s (fdt_root s))"

definition fdt_for_each_reserved :: "fdt \<Rightarrow> (u64 \<times> u64) list option" where
  "fdt_for_each_reserved s =
     (case fdt_path_offset s (lit ''/reserved-memory'') of
        None \<Rightarrow> None
      | Some rm \<Rightarrow> if rm < 0 then Some [] else regions_loop s (fdt_is_available s) (fdt_first_child s rm))"

definition fdt_bootargs :: "fdt \<Rightarrow> cstr option option" where
  "fdt_bootargs s =
     (case fdt_path_offset s (lit ''/chosen'') of
        None \<Rightarrow> None
      | Some c \<Rightarrow> Some (if c \<ge> 0 then fdt_getprop_str s c (lit ''bootargs'') else None))"

definition fdt_initrd :: "fdt \<Rightarrow> (u64 \<times> u64) option option" where
  "fdt_initrd s =
     (case fdt_path_offset s (lit ''/chosen'') of
        None \<Rightarrow> None
      | Some c \<Rightarrow>
          (case (fdt_getprop s c (lit ''linux,initrd-start''), fdt_getprop s c (lit ''linux,initrd-end'')) of
             (Some (st, l1), Some (e, l2)) \<Rightarrow>
               let start = fdt_read_cells (blob s) st (l1 div 4); fin = fdt_read_cells (blob s) e (l2 div 4) in
               Some (if fin > start then Some (start, fin) else None)
           | _ \<Rightarrow> Some None))"


section \<open>The format\<close>

text \<open>
  The structure block a tree is flattened to: what the reader is meant to invert.  A property is the
  offset of its name in the strings block and its value.
\<close>

datatype dnode = Node (dname: cstr) (dprops: "(u32 \<times> u8 list) list") (dkids: "dnode list")

definition be32 :: "u32 \<Rightarrow> u8 list" where
  "be32 w = [ucast (drop_bit 24 w), ucast (drop_bit 16 w), ucast (drop_bit 8 w), ucast w]"

definition enc_name :: "cstr \<Rightarrow> u8 list" where
  "enc_name nm = nm @ replicate (align4 (length nm + 1) - length nm) 0"

definition enc_prop :: "u32 \<times> u8 list \<Rightarrow> u8 list" where
  "enc_prop pr = be32 FDT_PROP @ be32 (of_nat (length (snd pr))) @ be32 (fst pr)
     @ snd pr @ replicate (align4 (length (snd pr)) - length (snd pr)) 0"

primrec enc_node :: "dnode \<Rightarrow> u8 list" where
  "enc_node (Node nm ps ks) =
     be32 FDT_BEGIN_NODE @ enc_name nm @ concat (map enc_prop ps) @ concat (map enc_node ks) @ be32 FDT_END_NODE"

primrec dnode_ok :: "dnode \<Rightarrow> bool" where
  "dnode_ok (Node nm ps ks) \<longleftrightarrow> 0 \<notin> set nm \<and> (\<forall>pr \<in> set ps. length (snd pr) < 2 ^ 32) \<and> list_all dnode_ok ks"

definition struct_at :: "fdt \<Rightarrow> nat \<Rightarrow> u8 list \<Rightarrow> bool" where
  "struct_at s off bs \<longleftrightarrow>
     off + length bs \<le> struct_size s \<and> (\<forall>i < length bs. blob s (dt_struct s + off + i) = bs ! i)"

lemma struct_at_append [simp]:
  "struct_at s off (xs @ ys) \<longleftrightarrow> struct_at s off xs \<and> struct_at s (off + length xs) ys"
proof (intro iffI conjI)
  assume a: "struct_at s off (xs @ ys)"
  have "blob s (dt_struct s + off + (length xs + i)) = ys ! i" if "i < length ys" for i
    using a that by (fastforce simp: struct_at_def)
  then show "struct_at s (off + length xs) ys" using a by (simp add: struct_at_def add.assoc)
  show "struct_at s off xs" using a by (fastforce simp: struct_at_def nth_append)
next
  assume a: "struct_at s off xs \<and> struct_at s (off + length xs) ys"
  have "blob s (dt_struct s + off + i) = (xs @ ys) ! i" if "i < length (xs @ ys)" for i
  proof (cases "i < length xs")
    case True then show ?thesis using a by (simp add: struct_at_def nth_append)
  next
    case False
    then have "i - length xs < length ys" using that by auto
    then have "blob s (dt_struct s + (off + length xs) + (i - length xs)) = ys ! (i - length xs)"
      using a by (auto simp: struct_at_def)
    then show ?thesis using False by (simp add: nth_append add.assoc)
  qed
  then show "struct_at s off (xs @ ys)" using a by (simp add: struct_at_def)
qed

lemma length_be32 [simp]: "length (be32 w) = 4"
  by (simp add: be32_def)

lemma length_enc_name: "length (enc_name nm) = align4 (length nm + 1)" "length nm < length (enc_name nm)"
  using align4_ge [of "length nm + 1"] by (simp_all add: enc_name_def)

lemma length_enc_prop: "length (enc_prop pr) = 12 + align4 (length (snd pr))"
  using align4_ge [of "length (snd pr)"] by (simp add: enc_prop_def)

lemma be32_bits:
  "push_bit 24 (ucast (ucast (drop_bit 24 w) :: u8)) OR push_bit 16 (ucast (ucast (drop_bit 16 w) :: u8))
     OR push_bit 8 (ucast (ucast (drop_bit 8 w) :: u8)) OR ucast (ucast w :: u8) = w" for w :: u32
proof (rule bit_word_eqI)
  fix n :: nat
  consider "n < 8" | "8 \<le> n" "n < 16" | "16 \<le> n" "n < 24" | "24 \<le> n" by linarith
  then show "n < LENGTH(32) \<Longrightarrow> bit (push_bit 24 (ucast (ucast (drop_bit 24 w) :: u8))
      OR push_bit 16 (ucast (ucast (drop_bit 16 w) :: u8)) OR push_bit 8 (ucast (ucast (drop_bit 8 w) :: u8))
      OR ucast (ucast w :: u8) :: u32) n = bit w n"
    by cases (auto simp: bit_simps)
qed

lemma rd32_be32: "struct_at s off (be32 w) \<Longrightarrow> rd32 (blob s) (dt_struct s + off) = w"
proof -
  assume a: "struct_at s off (be32 w)"
  have b: "blob s (dt_struct s + off + i) = be32 w ! i" if "i < 4" for i
    using a that by (simp add: struct_at_def)
  have "rd32 (blob s) (dt_struct s + off) = push_bit 24 (ucast (ucast (drop_bit 24 w) :: u8))
      OR push_bit 16 (ucast (ucast (drop_bit 16 w) :: u8)) OR push_bit 8 (ucast (ucast (drop_bit 8 w) :: u8))
      OR ucast (ucast w :: u8)"
    using b [of 0] b [of 1] b [of 2] b [of 3] by (simp add: rd32_def be32_def eval_nat_numeral add.assoc)
  also have "\<dots> = w" by (rule be32_bits)
  finally show ?thesis .
qed

lemma takeWhile_exact: "(\<forall>x \<in> set xs. P x) \<Longrightarrow> ys = [] \<or> \<not> P (ys ! 0) \<Longrightarrow> takeWhile P (xs @ ys) = xs"
  by (cases ys) auto

lemma strnlen_length: "length str < n \<Longrightarrow> strnlen str n = length str"
  by (induction str n rule: strnlen.induct) auto

text \<open>A name with its terminator inside the window is what a reader of the window sees.\<close>

lemma cstr_at_struct:
  assumes "struct_at s off (nm @ replicate k 0)" "0 < k" "0 \<notin> set nm" "off + n \<le> struct_size s" "length nm < n"
  shows "cstr_at (blob s) (dt_struct s + off) n = nm"
proof -
  let ?m = "\<lambda>i. blob s (dt_struct s + off + i)"
  have at: "?m i = (nm @ replicate k 0) ! i" if "i < length nm + k" for i
    using assms(1) that by (simp add: struct_at_def del: struct_at_append)
  have "map (blob s) [dt_struct s + off..<dt_struct s + off + n] = map ?m [0..<n]"
    by (rule nth_equalityI) auto
  also have "\<dots> = map ?m [0..<length nm] @ map ?m [length nm..<n]"
    using assms(5) by (metis less_imp_le map_append plus_nat.add_0 upt_add_eq_append le_add_diff_inverse le0)
  also have "map ?m [0..<length nm] = nm"
    by (rule nth_equalityI) (simp_all add: at nth_append)
  finally have split: "map (blob s) [dt_struct s + off..<dt_struct s + off + n] = nm @ map ?m [length nm..<n]" .
  have "map ?m [length nm..<n] ! 0 = 0" using assms(2,5) at [of "length nm"] by (simp add: nth_append)
  then show ?thesis unfolding cstr_at_def split using assms(3) by (intro takeWhile_exact) auto
qed

lemma token_begin:
  assumes "struct_at s off (be32 FDT_BEGIN_NODE @ enc_name nm)" "0 \<notin> set nm"
  shows "next_token s (int off) tag = (int (off + 4 + length (enc_name nm)), Some FDT_BEGIN_NODE)"
proof -
  have r: "rd32 (blob s) (dt_struct s + off) = FDT_BEGIN_NODE" using assms(1) rd32_be32 by simp
  have a: "struct_at s (off + 4) (enc_name nm)" using assms(1) by simp
  then have le: "off + 4 + length (enc_name nm) \<le> struct_size s" by (simp add: struct_at_def)
  let ?mx = "struct_size s - (off + 4)"
  have lt: "length nm < ?mx" using le length_enc_name(2) [of nm] by linarith
  have "cstr_at (blob s) (dt_struct s + (off + 4)) ?mx = nm"
    by (rule cstr_at_struct [OF a [unfolded enc_name_def]]) (use assms(2) le lt length_enc_name [of nm] in auto)
  then show ?thesis using le lt r strnlen_length [OF lt]
    by (simp add: next_token_def Let_def length_enc_name(1))
qed

lemma token_prop:
  assumes "struct_at s off (enc_prop pr)" "length (snd pr) < 2 ^ 32"
  shows "next_token s (int off) tag = (int (off + length (enc_prop pr)), Some FDT_PROP)"
    "unat (rd32 (blob s) (dt_struct s + off + 4)) = length (snd pr)"
    "rd32 (blob s) (dt_struct s + off + 8) = fst pr"
    "map (blob s) [dt_struct s + off + 12..<dt_struct s + off + 12 + length (snd pr)] = snd pr"
proof -
  note a = assms(1) [unfolded enc_prop_def]
  have r: "rd32 (blob s) (dt_struct s + off) = FDT_PROP" using a rd32_be32 by simp
  have l: "rd32 (blob s) (dt_struct s + (off + 4)) = of_nat (length (snd pr))"
    using a rd32_be32 [of s "off + 4"] by simp
  have n: "rd32 (blob s) (dt_struct s + (off + 8)) = fst pr"
    using a rd32_be32 [of s "off + 8"] by (simp add: add.assoc)
  have u: "unat (of_nat (length (snd pr)) :: u32) = length (snd pr)"
    using assms(2) by (simp add: unat_of_nat)
  have v: "struct_at s (off + 12) (snd pr)" using a by (simp add: add.assoc)
  have "off + length (enc_prop pr) \<le> struct_size s" using assms(1) by (simp add: struct_at_def)
  then show "next_token s (int off) tag = (int (off + length (enc_prop pr)), Some FDT_PROP)"
    using align4_ge [of "length (snd pr)"] r l u
    by (simp add: next_token_def Let_def length_enc_prop fdt_tags)
  show "unat (rd32 (blob s) (dt_struct s + off + 4)) = length (snd pr)" using l u by (simp add: add.assoc)
  show "rd32 (blob s) (dt_struct s + off + 8) = fst pr" using n by (simp add: add.assoc)
  show "map (blob s) [dt_struct s + off + 12..<dt_struct s + off + 12 + length (snd pr)] = snd pr"
    using v by (intro nth_equalityI) (auto simp: struct_at_def add.assoc)
qed

lemma token_end:
  assumes "struct_at s off (be32 FDT_END_NODE)"
  shows "next_token s (int off) tag = (int (off + 4), Some FDT_END_NODE)"
  using assms rd32_be32 [OF assms] by (simp add: next_token_def Let_def fdt_tags struct_at_def)


section \<open>Reading a flattened tree\<close>

definition props_ok :: "(u32 \<times> u8 list) list \<Rightarrow> bool" where
  "props_ok ps \<longleftrightarrow> (\<forall>pr \<in> set ps. length (snd pr) < 2 ^ 32)"

lemma getprop_props_None:
  assumes "struct_at s off (concat (map enc_prop ps))" "props_ok ps"
    "find (\<lambda>pr. prop_matches s (unat (fst pr)) name) ps = None"
  shows "\<exists>tag'. getprop_loop s name (int off) tag
    = getprop_loop s name (int (off + length (concat (map enc_prop ps)))) tag'"
  using assms
proof (induction ps arbitrary: off tag)
  case (Cons pr ps)
  have len: "length (snd pr) < 2 ^ 32" using Cons.prems(2) by (simp add: props_ok_def)
  have at: "struct_at s off (enc_prop pr)" using Cons.prems(1) by simp
  note tp = token_prop [OF at len]
  have "getprop_loop s name (int off) tag = getprop_loop s name (int (off + length (enc_prop pr))) (Some FDT_PROP)"
    using Cons.prems(3) tp by (subst getprop_loop.simps) (simp add: Let_def split: if_splits)
  then show ?case
    using Cons.IH [of "off + length (enc_prop pr)" "Some FDT_PROP"] Cons.prems
    by (auto simp: props_ok_def add.assoc split: if_splits)
qed auto

lemma getprop_props_Some:
  assumes "struct_at s off (concat (map enc_prop ps))" "props_ok ps"
    "find (\<lambda>pr. prop_matches s (unat (fst pr)) name) ps = Some pr"
  shows "\<exists>p. getprop_loop s name (int off) tag = Some (p, length (snd pr))
    \<and> map (blob s) [p..<p + length (snd pr)] = snd pr"
  using assms
proof (induction ps arbitrary: off tag)
  case (Cons q ps)
  have len: "length (snd q) < 2 ^ 32" using Cons.prems(2) by (simp add: props_ok_def)
  have at: "struct_at s off (enc_prop q)" using Cons.prems(1) by simp
  note tp = token_prop [OF at len] and st = getprop_loop.simps [of s name "int off" tag]
  show ?case
  proof (cases "prop_matches s (unat (fst q)) name")
    case True
    then show ?thesis using Cons.prems(3) tp by (simp add: st Let_def)
  next
    case False
    then show ?thesis
      using Cons.IH [of "off + length (enc_prop q)" "Some FDT_PROP"] Cons.prems tp
      by (simp add: st Let_def props_ok_def)
  qed
qed simp

lemma token_rest:
  assumes "struct_at s off (concat (map enc_node ks) @ be32 FDT_END_NODE)" "list_all dnode_ok ks"
  shows "\<exists>n. \<forall>tag. next_token s (int off) tag = (int n, Some (if ks = [] then FDT_END_NODE else FDT_BEGIN_NODE))"
proof (cases ks)
  case Nil
  then show ?thesis using token_end [of s off] assms(1) by (intro exI [of _ "off + 4"]) simp
next
  case (Cons k ks')
  obtain nm ps kk where k: "k = Node nm ps kk" by (cases k)
  then show ?thesis using token_begin [of s off nm] assms Cons
    by (intro exI [of _ "off + 4 + length (enc_name nm)"]) auto
qed

lemma props_loop_enc:
  assumes "struct_at s off (concat (map enc_prop ps))" "props_ok ps"
  shows "\<exists>tag'. props_loop s (int off) tag = props_loop s (int (off + length (concat (map enc_prop ps)))) tag'"
  using assms
proof (induction ps arbitrary: off tag)
  case (Cons pr ps)
  have "next_token s (int off) tag = (int (off + length (enc_prop pr)), Some FDT_PROP)"
    using Cons.prems by (intro token_prop) (auto simp: props_ok_def)
  then have "props_loop s (int off) tag = props_loop s (int (off + length (enc_prop pr))) (Some FDT_PROP)"
    by (subst props_loop.simps) simp
  then show ?case
    using Cons.IH [of "off + length (enc_prop pr)" "Some FDT_PROP"] Cons.prems
    by (auto simp: props_ok_def add.assoc)
qed auto

lemma node_loop_props:
  assumes "struct_at s off (concat (map enc_prop ps))" "props_ok ps"
  shows "\<exists>tag'. node_loop s d (int off) tag = node_loop s d (int (off + length (concat (map enc_prop ps)))) tag'"
  using assms
proof (induction ps arbitrary: off tag)
  case (Cons pr ps)
  have "next_token s (int off) tag = (int (off + length (enc_prop pr)), Some FDT_PROP)"
    using Cons.prems by (intro token_prop) (auto simp: props_ok_def)
  then have "node_loop s d (int off) tag = node_loop s d (int (off + length (enc_prop pr))) (Some FDT_PROP)"
    by (subst node_loop.simps) (simp add: fdt_tags)
  then show ?case
    using Cons.IH [of "off + length (enc_prop pr)" "Some FDT_PROP"] Cons.prems
    by (auto simp: props_ok_def add.assoc)
qed auto

lemma node_loop_enc:
  assumes "struct_at s off (enc_node nd)" "dnode_ok nd" "0 \<le> d"
  shows "\<exists>tag'. node_loop s d (int off) tag =
    (if d = 0 then int (off + length (enc_node nd)) else node_loop s d (int (off + length (enc_node nd))) tag')"
  using assms
proof (induction nd arbitrary: off tag d)
  case (Node nm ps ks)
  let ?o1 = "off + (4 + length (enc_name nm))" and ?P = "concat (map enc_prop ps)" and ?K = "concat (map enc_node ks)"
  let ?o2 = "?o1 + length ?P"
  have b: "next_token s (int off) tag = (int ?o1, Some FDT_BEGIN_NODE)"
    using token_begin [of s off nm] Node.prems by simp
  have "node_loop s d (int off) tag = node_loop s (d + 1) (int ?o1) (Some FDT_BEGIN_NODE)"
    using b by (subst node_loop.simps) simp
  moreover obtain t1 where "node_loop s (d + 1) (int ?o1) (Some FDT_BEGIN_NODE) = node_loop s (d + 1) (int ?o2) t1"
    using node_loop_props [of s ?o1 ps "d + 1"] Node.prems by (auto simp: props_ok_def add.assoc)
  moreover have "\<exists>t2. node_loop s (d + 1) (int o') t = node_loop s (d + 1) (int (o' + length (concat (map enc_node xs)))) t2"
    if "set xs \<subseteq> set ks" "struct_at s o' (concat (map enc_node xs))" for xs o' t
    using that
  proof (induction xs arbitrary: o' t)
    case (Cons x xs)
    obtain t3 where "node_loop s (d + 1) (int o') t = node_loop s (d + 1) (int (o' + length (enc_node x))) t3"
      using Node.IH [of x o' "d + 1" t] Cons.prems Node.prems by (auto simp: list_all_iff)
    then show ?case using Cons.IH [of "o' + length (enc_node x)" t3] Cons.prems by (simp add: add.assoc)
  qed auto
  from this [of ks ?o2 t1] obtain t2
    where "node_loop s (d + 1) (int ?o2) t1 = node_loop s (d + 1) (int (?o2 + length ?K)) t2"
    using Node.prems by (auto simp: add.assoc)
  moreover have "next_token s (int (?o2 + length ?K)) t2 = (int (?o2 + length ?K + 4), Some FDT_END_NODE)"
    using Node.prems by (intro token_end) (simp add: add.assoc)
  then have "node_loop s (d + 1) (int (?o2 + length ?K)) t2 =
      (if d = 0 then int (?o2 + length ?K + 4) else node_loop s d (int (?o2 + length ?K + 4)) (Some FDT_END_NODE))"
    by (subst node_loop.simps) (simp add: fdt_tags)
  moreover have "?o2 + length ?K + 4 = off + length (enc_node (Node nm ps ks))" by simp
  ultimately show ?case by metis
qed

definition head_len :: "dnode \<Rightarrow> nat" where
  "head_len nd = 4 + length (enc_name (dname nd)) + length (concat (map enc_prop (dprops nd)))"

definition child_off :: "nat \<Rightarrow> dnode \<Rightarrow> nat \<Rightarrow> nat" where
  "child_off off nd i = off + head_len nd + length (concat (map enc_node (take i (dkids nd))))"

lemma enc_node_kids:
  assumes "struct_at s off (enc_node nd)" "i \<le> length (dkids nd)"
  shows "struct_at s (child_off off nd i) (concat (map enc_node (drop i (dkids nd))) @ be32 FDT_END_NODE)"
proof -
  obtain nm ps ks where nd: "nd = Node nm ps ks" by (cases nd)
  have "concat (map enc_node ks) = concat (map enc_node (take i ks)) @ concat (map enc_node (drop i ks))"
    by (metis append_take_drop_id concat_append map_append)
  then show ?thesis using assms(1) by (simp add: nd child_off_def head_len_def add.assoc)
qed

lemma kid_enc:
  assumes "struct_at s off (enc_node nd)" "i < length (dkids nd)"
  shows "struct_at s (child_off off nd i) (enc_node (dkids nd ! i))"
    "child_off off nd i + length (enc_node (dkids nd ! i)) = child_off off nd (Suc i)"
  using enc_node_kids [OF assms(1), of i] assms(2)
  by (simp_all add: Cons_nth_drop_Suc [symmetric] child_off_def take_Suc_conv_app_nth)

lemma reads_enc:
  assumes at: "struct_at s off (enc_node nd)" and ok: "dnode_ok nd"
  shows "(case find (\<lambda>pr. prop_matches s (unat (fst pr)) name) (dprops nd) of
      None \<Rightarrow> fdt_getprop s (int off) name = None
    | Some pr \<Rightarrow> \<exists>p. fdt_getprop s (int off) name = Some (p, length (snd pr))
        \<and> map (blob s) [p..<p + length (snd pr)] = snd pr)"
    and "fdt_first_child s (int off) = (if dkids nd = [] then FDT_ERR_NOTFOUND else int (child_off off nd 0))"
    and "\<forall>i < length (dkids nd). struct_at s (child_off off nd i) (enc_node (dkids nd ! i))
      \<and> fdt_next_sibling s (int (child_off off nd i))
        = (if Suc i < length (dkids nd) then int (child_off off nd (Suc i)) else FDT_ERR_NOTFOUND)"
proof -
  obtain nm ps ks where nd: "nd = Node nm ps ks" by (cases nd)
  let ?o1 = "off + (4 + length (enc_name nm))" and ?P = "concat (map enc_prop ps)"
  have b: "next_token s (int off) None = (int ?o1, Some FDT_BEGIN_NODE)"
    using token_begin [of s off nm] at ok nd by simp
  have ps: "struct_at s ?o1 ?P" "props_ok ps" using at ok nd by (simp_all add: props_ok_def add.assoc)
  have c0: "child_off off nd 0 = ?o1 + length ?P" by (simp add: child_off_def head_len_def nd)
  obtain n where rest: "\<And>tag. next_token s (int (?o1 + length ?P)) tag
      = (int n, Some (if ks = [] then FDT_END_NODE else FDT_BEGIN_NODE))"
    using token_rest [of s "child_off off nd 0" ks] enc_node_kids [OF at, of 0] ok by (auto simp: nd c0 simp flip: c0)
  have stop: "getprop_loop s name (int (?o1 + length ?P)) t = None" for t
    using rest by (subst getprop_loop.simps) (simp add: fdt_tags)
  show "case find (\<lambda>pr. prop_matches s (unat (fst pr)) name) (dprops nd) of
      None \<Rightarrow> fdt_getprop s (int off) name = None
    | Some pr \<Rightarrow> \<exists>p. fdt_getprop s (int off) name = Some (p, length (snd pr))
        \<and> map (blob s) [p..<p + length (snd pr)] = snd pr"
  proof (cases "find (\<lambda>pr. prop_matches s (unat (fst pr)) name) ps")
    case None
    then show ?thesis using getprop_props_None [OF ps None, of "Some FDT_BEGIN_NODE"] stop b
      by (auto simp: nd fdt_getprop_def)
  next
    case (Some pr)
    then show ?thesis using getprop_props_Some [OF ps Some, of "Some FDT_BEGIN_NODE"] b
      by (simp add: nd fdt_getprop_def)
  qed
  obtain t where "props_loop s (int ?o1) (Some FDT_BEGIN_NODE) = props_loop s (int (?o1 + length ?P)) t"
    using props_loop_enc [OF ps] by blast
  moreover have "props_loop s (int (?o1 + length ?P)) t
      = (int (?o1 + length ?P), Some (if ks = [] then FDT_END_NODE else FDT_BEGIN_NODE))"
    using rest by (subst props_loop.simps) (simp add: fdt_tags)
  ultimately show "fdt_first_child s (int off) = (if dkids nd = [] then FDT_ERR_NOTFOUND else int (child_off off nd 0))"
    using b by (simp add: fdt_first_child_def skip_props_def child_off_def head_len_def nd fdt_tags)
  show "\<forall>i < length (dkids nd). struct_at s (child_off off nd i) (enc_node (dkids nd ! i))
      \<and> fdt_next_sibling s (int (child_off off nd i))
        = (if Suc i < length (dkids nd) then int (child_off off nd (Suc i)) else FDT_ERR_NOTFOUND)"
  proof (intro allI impI conjI)
    fix i assume i: "i < length (dkids nd)"
    note k = kid_enc [OF at i]
    show "struct_at s (child_off off nd i) (enc_node (dkids nd ! i))" by (rule k)
    have oki: "dnode_ok (dkids nd ! i)" using ok i by (simp add: nd list_all_length)
    have skip: "skip_node s (int (child_off off nd i)) = int (child_off off nd (Suc i))"
      using node_loop_enc [OF k(1) oki, of 0 None] k(2) by (simp add: skip_node_def)
    have "list_all dnode_ok (drop (Suc i) (dkids nd))"
      using ok by (auto simp: nd list_all_iff dest: in_set_dropD)
    then obtain n' where "\<And>tag. next_token s (int (child_off off nd (Suc i))) tag
        = (int n', Some (if drop (Suc i) (dkids nd) = [] then FDT_END_NODE else FDT_BEGIN_NODE))"
      using token_rest [OF enc_node_kids [OF at, of "Suc i"]] i by auto
    then show "fdt_next_sibling s (int (child_off off nd i))
        = (if Suc i < length (dkids nd) then int (child_off off nd (Suc i)) else FDT_ERR_NOTFOUND)"
      using i by (simp add: fdt_next_sibling_def skip sibling_loop.simps [of s _ None] fdt_tags)
  qed
qed

text \<open>
  C24: Reading back a flattened tree.  Where the structure block holds the encoding of a node,
  fdt_getprop returns the value of the first property whose name matches and nothing when there is
  none, fdt_first_child and fdt_next_sibling enumerate exactly the encoded children in their order,
  and each offset they return holds the encoding of that child.
\<close>

theorem fdt_reads_flattened:
  assumes "struct_at s off (enc_node nd)" "dnode_ok nd"
  shows "(case find (\<lambda>pr. prop_matches s (unat (fst pr)) name) (dprops nd) of
      None \<Rightarrow> fdt_getprop s (int off) name = None
    | Some pr \<Rightarrow> \<exists>p. fdt_getprop s (int off) name = Some (p, length (snd pr))
        \<and> map (blob s) [p..<p + length (snd pr)] = snd pr)
    \<and> fdt_first_child s (int off) = (if dkids nd = [] then FDT_ERR_NOTFOUND else int (child_off off nd 0))
    \<and> (\<forall>i < length (dkids nd). struct_at s (child_off off nd i) (enc_node (dkids nd ! i))
      \<and> fdt_next_sibling s (int (child_off off nd i))
        = (if Suc i < length (dkids nd) then int (child_off off nd (Suc i)) else FDT_ERR_NOTFOUND))"
  by (intro conjI reads_enc [OF assms])

text \<open>A blob with a root node, one property named \<^verbatim>\<open>reg\<close> and two children.\<close>

definition demo_tree :: dnode where
  "demo_tree = Node [] [(0, [1, 2, 3, 4, 5])] [Node [65] [] [], Node [66] [] []]"

definition demo_blob :: "u8 list" where
  "demo_blob =
    [208, 13, 254, 237, 0, 0, 0, 104, 0, 0, 0, 40, 0, 0, 0, 100, 0, 0, 0, 0,
     0, 0, 0, 17, 0, 0, 0, 16, 0, 0, 0, 0, 0, 0, 0, 4, 0, 0, 0, 60,
     0, 0, 0, 1, 0, 0, 0, 0, 0, 0, 0, 3, 0, 0, 0, 5, 0, 0, 0, 0,
     1, 2, 3, 4, 5, 0, 0, 0, 0, 0, 0, 1, 65, 0, 0, 0, 0, 0, 0, 2,
     0, 0, 0, 1, 66, 0, 0, 0, 0, 0, 0, 2, 0, 0, 0, 2, 0, 0, 0, 9,
     114, 101, 103, 0]"

definition demo_mem :: mem where
  "demo_mem i = (if i < length demo_blob then demo_blob ! i else 0)"

definition demo_fdt :: fdt where
  "demo_fdt = \<lparr>blob = demo_mem, dt_struct = 40, dt_strings = 100, struct_size = 60, strings_size = 4\<rparr>"

lemma demo_struct: "struct_at demo_fdt 0 (enc_node demo_tree)"
  by code_simp

lemma demo_header:
  "rd32 demo_mem 0 = FDT_MAGIC \<and> rd32 demo_mem 4 = 104 \<and> rd32 demo_mem 8 = 40 \<and> rd32 demo_mem 12 = 100
   \<and> rd32 demo_mem 20 = 17 \<and> rd32 demo_mem 24 = 16 \<and> rd32 demo_mem 32 = 4 \<and> rd32 demo_mem 36 = 60"
  by code_simp

lemma demo_init: "fdt_init s (Some demo_mem) = (0, demo_fdt)"
  using demo_header by (simp add: fdt_init_def Let_def demo_fdt_def FDT_MAGIC_def)

lemma demo_getprop: "fdt_getprop demo_fdt 0 (lit ''reg'') = Some (60, 5)"
  by code_simp

theorem fdt_reads_flattened_witness:
  "(\<exists>p. fdt_getprop demo_fdt 0 (lit ''reg'') = Some (p, 5) \<and> map (blob demo_fdt) [p..<p + 5] = [1, 2, 3, 4, 5])
   \<and> fdt_first_child demo_fdt 0 = 28 \<and> fdt_next_sibling demo_fdt 28 = 40 \<and> fdt_next_sibling demo_fdt 40 = - 1"
proof -
  have ok: "dnode_ok demo_tree" by (simp add: demo_tree_def)
  have m: "find (\<lambda>pr. prop_matches demo_fdt (unat (fst pr)) (lit ''reg'')) (dprops demo_tree) = Some (0, [1, 2, 3, 4, 5])"
    by code_simp
  have c: "child_off 0 demo_tree 0 = 28" "child_off 0 demo_tree 1 = 40" "length (dkids demo_tree) = 2" "dkids demo_tree \<noteq> []"
    by code_simp+
  have l: "length [1, 2, 3, 4, 5 :: u8] = 5" by simp
  note w = fdt_reads_flattened [OF demo_struct ok, of "lit ''reg''", unfolded m c l option.case fst_conv snd_conv of_nat_0]
  have "\<exists>p. fdt_getprop demo_fdt 0 (lit ''reg'') = Some (p, 5) \<and> map (blob demo_fdt) [p..<p + 5] = [1, 2, 3, 4, 5]"
    using conjunct1 [OF w] by simp
  moreover have "fdt_first_child demo_fdt 0 = 28"
    using conjunct1 [OF conjunct2 [OF w]] c(4) by simp
  moreover note conjunct2 [OF spec [OF conjunct2 [OF conjunct2 [OF w]], THEN mp]]
  from this [of 0] this [of 1]
  have "fdt_next_sibling demo_fdt 28 = 40 \<and> fdt_next_sibling demo_fdt 40 = - 1"
    using c by (simp add: fdt_errs)
  ultimately show ?thesis by blast
qed

lemma strncmp_zero_iff:
  "0 \<notin> set a \<Longrightarrow> 0 \<notin> set b \<Longrightarrow> strncmp a b n = 0 \<longleftrightarrow> take n a = take n b"
  by (induction a b n rule: strncmp.induct)
    (auto simp: chr0_def uint_0_iff dest: unsigned_word_eqI split: list.splits)

lemma cstr_at_zero_free: "0 \<notin> set (cstr_at m p n)" "length (cstr_at m p n) \<le> n"
  using length_takeWhile_le [of "\<lambda>c. c \<noteq> 0" "map m [p..<p + n]"]
  by (auto simp: cstr_at_def dest: set_takeWhileD)

text \<open>A property matches when the string at its name offset, cut at the end of the block, is the name.\<close>

lemma prop_matches_iff:
  assumes "0 \<notin> set name"
  shows "prop_matches s k name \<longleftrightarrow>
    k + length name < strings_size s \<and> cstr_at (blob s) (dt_strings s + k) (strings_size s - k) = name"
  using assms cstr_at_zero_free [of "blob s" "dt_strings s + k" "strings_size s - k"]
  by (auto simp: prop_matches_def strncmp_zero_iff strlen_length)

lemma getprop_loop_Some:
  assumes "getprop_loop s name off tag = Some (p, len)"
  shows "\<exists>q. p = dt_struct s + q + 12 \<and> q + 12 + len \<le> struct_size s \<and> rd32 (blob s) (dt_struct s + q) = FDT_PROP
    \<and> unat (rd32 (blob s) (dt_struct s + q + 4)) = len
    \<and> prop_matches s (unat (rd32 (blob s) (dt_struct s + q + 8))) name"
  using assms
proof (induction s name off tag rule: getprop_loop.induct)
  case (1 s name off tag)
  obtain n tag1 where nt: "next_token s off tag = (n, tag1)" by fastforce
  note st = getprop_loop.simps [of s name off tag]
  have nn: "0 \<le> off" "0 \<le> n" using "1.prems" by (auto simp: st nt split: if_splits)
  show ?case
  proof (cases "tag1 = Some FDT_PROP \<and> prop_matches s (unat (rd32 (blob s) (dt_struct s + nat off + 8))) name")
    case True
    then have "p = dt_struct s + nat off + 12" "len = unat (rd32 (blob s) (dt_struct s + nat off + 4))"
      using "1.prems" nn by (auto simp: st nt Let_def)
    moreover have "nat off + 12 + unat (rd32 (blob s) (dt_struct s + nat off + 4)) \<le> struct_size s
        \<and> rd32 (blob s) (dt_struct s + nat off) = FDT_PROP"
      using nt nn True by (auto simp: next_token_def Let_def fdt_tags add.assoc split: if_splits)
    ultimately show ?thesis using True by blast
  next
    case False
    then have "getprop_loop s name n tag1 = Some (p, len)"
      using "1.prems" nn by (auto simp: st nt Let_def split: if_splits)
    then show ?thesis using "1.IH" [OF _ nt [symmetric]] nn False "1.prems"
      by (cases "tag1 = Some FDT_PROP") (simp_all add: st nt split: if_splits)
  qed
qed

text \<open>
  C25: Memory safety of property lookup.  After a successful fdt_init the block offsets satisfy the
  header; a property fdt_getprop returns is a property token of the structure block, its whole value
  lies inside the structure block and so inside the blob, and its name, found inside the strings
  block with its terminator, is the name asked for.
\<close>

theorem fdt_getprop_in_bounds:
  assumes "fdt_init s0 (Some m) = (0, s)" "0 \<notin> set name" "fdt_getprop s node name = Some (p, len)"
  shows "blob s = m \<and> 0 \<le> node \<and> dt_struct s + 12 \<le> p \<and> p + len \<le> dt_struct s + struct_size s
    \<and> dt_struct s + struct_size s \<le> unat (fdt_totalsize m)
    \<and> rd32 m (p - 12) = FDT_PROP \<and> unat (rd32 m (p - 8)) = len
    \<and> (let k = unat (rd32 m (p - 4)) in
        k + length name < strings_size s \<and> dt_strings s + strings_size s \<le> unat (fdt_totalsize m)
        \<and> cstr_at m (dt_strings s + k) (strings_size s - k) = name)"
proof -
  let ?r = "\<lambda>f. rd32 m (field_off f)"
  have s: "s = \<lparr>blob = m, dt_struct = unat (?r h_off_dt_struct), dt_strings = unat (?r h_off_dt_strings),
      struct_size = unat (?r h_size_dt_struct), strings_size = unat (?r h_size_dt_strings)\<rparr>"
    and le: "?r h_off_dt_struct + ?r h_size_dt_struct \<le> ?r h_totalsize"
      "?r h_off_dt_strings + ?r h_size_dt_strings \<le> ?r h_totalsize"
    and nw: "?r h_off_dt_struct \<le> ?r h_off_dt_struct + ?r h_size_dt_struct"
      "?r h_off_dt_strings \<le> ?r h_off_dt_strings + ?r h_size_dt_strings"
    using assms(1) by (auto simp: fdt_init_def Let_def fdt_errs not_less split: if_splits)
  have add: "unat (x + y) = unat x + unat y" if "x \<le> x + y" for x y :: u32
    using that by (simp add: unat_plus_simple)
  have tot: "dt_struct s + struct_size s \<le> unat (fdt_totalsize m)" "dt_strings s + strings_size s \<le> unat (fdt_totalsize m)"
    using le nw add by (simp_all add: s fdt_totalsize_def word_le_nat_alt)
  have node: "0 \<le> node" using assms(3) by (simp add: fdt_getprop_def split: if_splits)
  then obtain q where "p = dt_struct s + q + 12" "q + 12 + len \<le> struct_size s" "rd32 (blob s) (dt_struct s + q) = FDT_PROP"
      "unat (rd32 (blob s) (dt_struct s + q + 4)) = len"
      "prop_matches s (unat (rd32 (blob s) (dt_struct s + q + 8))) name"
    using assms(3) getprop_loop_Some [of s name] by (fastforce simp: fdt_getprop_def split: prod.splits)
  moreover have "blob s = m" by (simp add: s)
  moreover have "p - 12 = dt_struct s + q" "p - 8 = dt_struct s + q + 4" "p - 4 = dt_struct s + q + 8"
    using calculation(1) by simp_all
  ultimately show ?thesis using tot node prop_matches_iff [OF assms(2), of s] by (simp only: Let_def) simp
qed

theorem fdt_getprop_in_bounds_witness:
  "(60 :: nat) + 5 \<le> dt_struct demo_fdt + struct_size demo_fdt \<and> rd32 demo_mem 48 = FDT_PROP
   \<and> dt_struct demo_fdt + struct_size demo_fdt \<le> unat (fdt_totalsize demo_mem)"
proof -
  have "0 \<notin> set (lit ''reg'')" by code_simp
  from fdt_getprop_in_bounds [OF demo_init this demo_getprop] show ?thesis by simp
qed


section \<open>Malformed trees\<close>

lemma path_offset_absolute:
  "chr0 path = of_char CHR ''/'' \<Longrightarrow> fdt_path_offset s path = Some (path_loop s (fdt_root s) path)"
  by (simp add: fdt_path_offset.simps)

lemma path_offset_alias_cycle:
  assumes "fdt_path_offset s path = Some r" "chr0 path \<noteq> of_char CHR ''/''"
    "path_loop s (fdt_root s) (lit ''/aliases'') = al" "0 \<le> al" "fdt_getprop_str s al path = Some path"
  shows False
proof -
  have sl: "chr0 (lit ''/aliases'') = of_char CHR ''/''" by code_simp
  let ?al = "\<lambda>t. path_loop t (fdt_root t) (lit ''/aliases'')"
  have "(path = lit ''/aliases'' \<longrightarrow> r = ?al s)
      \<and> \<not> (chr0 path \<noteq> of_char CHR ''/'' \<and> 0 \<le> ?al s \<and> fdt_getprop_str s (?al s) path = Some path)"
  proof (rule fdt_path_offset.raw_induct
      [where P = "\<lambda>t p y. (p = lit ''/aliases'' \<longrightarrow> y = ?al t)
        \<and> \<not> (chr0 p \<noteq> of_char CHR ''/'' \<and> 0 \<le> ?al t \<and> fdt_getprop_str t (?al t) p = Some p)", OF _ assms(1)], goal_cases)
    case (1 f t p y)
    show ?case
    proof (cases "chr0 p = of_char CHR ''/''")
      case True
      then show ?thesis using 1(2) by auto
    next
      case False
      then obtain al' where a: "f t (lit ''/aliases'') = Some al'"
        and r: "(case (if 0 \<le> al' then fdt_getprop_str t al' p else None) of
            None \<Rightarrow> Some FDT_ERR_NOTFOUND | Some q \<Rightarrow> f t q) = Some y"
        using 1(2) by (auto simp: Option.bind_eq_Some_conv)
      have al': "al' = ?al t" using 1(1) [OF a] by blast
      have "\<not> (0 \<le> al' \<and> fdt_getprop_str t al' p = Some p)"
        using r 1(1) [of t p y] False al' by auto
      then show ?thesis using False al' sl by auto
    qed
  qed
  then show False using assms by blast
qed

lemma range_loop_no_cells: "range_loop m r len 0 0 0 addr i = None"
proof -
  have "\<not> (ca = 0 \<and> pa = 0 \<and> cs = 0)" if "range_loop m r len ca pa cs addr i = Some y" for m r len ca pa cs addr i y
    by (rule range_loop.raw_induct [where P = "\<lambda>m r len ca pa cs addr i y. \<not> (ca = 0 \<and> pa = 0 \<and> cs = 0)", OF _ that])
      (auto simp: Let_def fdt_read_cells_def intro!: gr0I split: if_splits)
  then show ?thesis by (metis option.exhaust)
qed

text \<open>
  C26: What malformed trees do.  An alias whose value is its own name makes fdt_path_offset recurse
  for ever; a \<^verbatim>\<open>ranges\<close> property whose bus has no address and size cells and whose parent has no
  address cells makes the search of translate run for ever; and a structure block that begins with an
  END_NODE token makes fdt_parent store outside its array at the next node.
\<close>

theorem fdt_malformed:
  "(chr0 path \<noteq> of_char CHR ''/'' \<and> fdt_path_offset s (lit ''/aliases'') = Some al \<and> 0 \<le> al
      \<and> fdt_getprop_str s al path = Some path \<longrightarrow> fdt_path_offset s path = None)
   \<and> range_loop m r len 0 0 0 addr 0 = None
   \<and> (struct_at s 0 (be32 FDT_END_NODE @ be32 FDT_BEGIN_NODE @ enc_name nm) \<and> 0 \<notin> set nm \<and> node \<noteq> 4
      \<longrightarrow> fdt_parent s node = None)"
proof (intro conjI impI range_loop_no_cells)
  assume a: "chr0 path \<noteq> of_char CHR ''/'' \<and> fdt_path_offset s (lit ''/aliases'') = Some al \<and> 0 \<le> al
      \<and> fdt_getprop_str s al path = Some path"
  have "chr0 (lit ''/aliases'') = of_char CHR ''/''" by code_simp
  then have "path_loop s (fdt_root s) (lit ''/aliases'') = al" using a path_offset_absolute by auto
  then show "fdt_path_offset s path = None" using a path_offset_alias_cycle by (metis option.exhaust)
next
  assume a: "struct_at s 0 (be32 FDT_END_NODE @ be32 FDT_BEGIN_NODE @ enc_name nm) \<and> 0 \<notin> set nm \<and> node \<noteq> 4"
  have t1: "next_token s 0 None = (4, Some FDT_END_NODE)" using token_end [of s 0 None] a by simp
  have t2: "next_token s 4 tag = (int (8 + length (enc_name nm)), Some FDT_BEGIN_NODE)" for tag
    using token_begin [of s 4 nm tag] a by simp
  have "parent_loop s node (replicate 32 0) (- 2) 4 (Some FDT_END_NODE) = None"
    using t2 a by (subst parent_loop.simps) simp
  then show "fdt_parent s node = None"
    unfolding fdt_parent_def using t1 by (subst parent_loop.simps) (simp add: fdt_tags)
qed

text \<open>A tree whose alias \<^verbatim>\<open>a\<close> has the value \<^verbatim>\<open>a\<close>, and a structure block that begins with END_NODE.\<close>

definition alias_blob :: "u8 list" where
  "alias_blob =
    [0, 0, 0, 1, 0, 0, 0, 0, 0, 0, 0, 1, 97, 108, 105, 97, 115, 101, 115, 0,
     0, 0, 0, 3, 0, 0, 0, 2, 0, 0, 0, 0, 97, 0, 0, 0, 0, 0, 0, 2,
     0, 0, 0, 2, 0, 0, 0, 9, 97, 0]"

definition alias_fdt :: fdt where
  "alias_fdt = \<lparr>blob = (\<lambda>i. if i < length alias_blob then alias_blob ! i else 0), dt_struct = 0, dt_strings = 48,
     struct_size = 48, strings_size = 2\<rparr>"

definition end_fdt :: fdt where
  "end_fdt = \<lparr>blob = (\<lambda>i. if i = 3 then 2 else if i = 7 then 1 else 0), dt_struct = 0, dt_strings = 12,
     struct_size = 12, strings_size = 0\<rparr>"

lemma alias_cycle: "fdt_path_offset alias_fdt (lit ''/aliases'') = Some 8 \<and> fdt_getprop_str alias_fdt 8 (lit ''a'') = Some (lit ''a'')"
proof
  have "path_loop alias_fdt (fdt_root alias_fdt) (lit ''/aliases'') = 8" by code_simp
  moreover have "chr0 (lit ''/aliases'') = of_char CHR ''/''" by code_simp
  ultimately show "fdt_path_offset alias_fdt (lit ''/aliases'') = Some 8" by (simp add: path_offset_absolute)
  show "fdt_getprop_str alias_fdt 8 (lit ''a'') = Some (lit ''a'')" by code_simp
qed

theorem fdt_malformed_witness:
  "fdt_path_offset alias_fdt (lit ''a'') = None \<and> fdt_parent end_fdt 0 = None"
proof -
  have "chr0 (lit ''a'') \<noteq> of_char CHR ''/''" by code_simp
  moreover have "struct_at end_fdt 0 (be32 FDT_END_NODE @ be32 FDT_BEGIN_NODE @ enc_name [])" by code_simp
  ultimately show ?thesis
    using fdt_malformed [of "lit ''a''" alias_fdt 8] alias_cycle fdt_malformed [of "[]" end_fdt 0 _ _ _ _ "[]" 0] by simp
qed
end
