(* ===== verification/Olux_Asid.thy ===== *)
theory Olux_Asid
  imports Olux_Prelude
begin

text \<open>
  The allocator of address space identifiers in arch/arm64/context.c: a bit map searched from a
  rotating position.  The number of identifiers the processor implements is read from a system
  register, an argument here, on the first call.
\<close>

definition MAX_ASIDS :: nat where "MAX_ASIDS = 65536"

record asids =
  asid_map :: "u64 list"
  asid_limit :: nat
  asid_next :: nat

definition asids_init :: asids where
  "asids_init = \<lparr>asid_map = replicate (MAX_ASIDS div 64) 0, asid_limit = 0, asid_next = 1\<rparr>"

definition asid_used :: "asids \<Rightarrow> nat \<Rightarrow> bool" where
  "asid_used s a \<longleftrightarrow> bit (asid_map s ! (a div 64)) (a mod 64)"

definition asid_set :: "asids \<Rightarrow> nat \<Rightarrow> asids" where
  "asid_set s a = s\<lparr>asid_map := (asid_map s)[a div 64 := asid_map s ! (a div 64) OR push_bit (a mod 64) 1]\<rparr>"

definition asid_clear :: "asids \<Rightarrow> nat \<Rightarrow> asids" where
  "asid_clear s a = s\<lparr>asid_map := (asid_map s)[a div 64 := asid_map s ! (a div 64) AND NOT (push_bit (a mod 64) 1)]\<rparr>"

definition asid_first_use :: "u64 \<Rightarrow> asids \<Rightarrow> asids" where
  "asid_first_use mmfr0 s =
     (if asid_limit s = 0
      then asid_set (s\<lparr>asid_limit := (if drop_bit 4 mmfr0 AND 0xf = 2 then MAX_ASIDS else 256)\<rparr>) 0
      else s)"

definition next_after :: "asids \<Rightarrow> nat" where
  "next_after s = (if asid_limit s \<le> asid_next s + 1 then 1 else asid_next s + 1)"

primrec asid_scan :: "nat \<Rightarrow> asids \<Rightarrow> nat option \<times> asids" where
  "asid_scan 0 s = (None, s)"
| "asid_scan (Suc n) s =
     (let a = asid_next s; s1 = s\<lparr>asid_next := next_after s\<rparr> in
      if \<not> asid_used s1 a then (Some a, asid_set s1 a) else asid_scan n s1)"

definition asid_alloc :: "u64 \<Rightarrow> asids \<Rightarrow> nat option \<times> asids" where
  "asid_alloc mmfr0 s = (let s1 = asid_first_use mmfr0 s in asid_scan (asid_limit s1) s1)"

definition asid_free :: "nat \<Rightarrow> asids \<Rightarrow> asids" where
  "asid_free a s = (if a = 0 then s else asid_clear s a)"

text \<open>The value written to the translation table base register; \<open>None\<close> is the kernel's empty table.\<close>

definition switch_mm_ttbr :: "(u64 \<times> u16) option \<Rightarrow> u64 \<Rightarrow> u64" where
  "switch_mm_ttbr nxt zero_dir =
     (case nxt of Some (pgd_pa, asid) \<Rightarrow> pgd_pa OR push_bit 48 (ucast asid) | None \<Rightarrow> zero_dir)"


section \<open>Invariant\<close>

definition asid_inv :: "asids \<Rightarrow> bool" where
  "asid_inv s \<longleftrightarrow> length (asid_map s) = 1024 \<and> 1 \<le> asid_next s \<and>
     (asid_limit s = 0 \<and> asid_next s = 1 \<and> (\<forall>a < MAX_ASIDS. \<not> asid_used s a) \<or>
      (asid_limit s = 256 \<or> asid_limit s = MAX_ASIDS) \<and> asid_next s < asid_limit s \<and> asid_used s 0)"

lemma used_set:
  assumes "length (asid_map s) = 1024" "a < MAX_ASIDS" "b < MAX_ASIDS"
  shows "asid_used (asid_set s a) b \<longleftrightarrow> b = a \<or> asid_used s b"
proof -
  have l: "a div 64 < 1024" "a mod 64 < 64" "b mod 64 < 64" using assms(2) by (auto simp: MAX_ASIDS_def)
  show ?thesis
  proof (cases "b div 64 = a div 64")
    case True
    then have "b = a \<longleftrightarrow> b mod 64 = a mod 64" by (metis div_mult_mod_eq)
    then show ?thesis using True l assms(1) by (auto simp: asid_used_def asid_set_def bit_simps)
  next
    case False
    then show ?thesis by (auto simp: asid_used_def asid_set_def)
  qed
qed

lemma used_clear:
  assumes "length (asid_map s) = 1024" "a < MAX_ASIDS" "b < MAX_ASIDS"
  shows "asid_used (asid_clear s a) b \<longleftrightarrow> b \<noteq> a \<and> asid_used s b"
proof -
  have l: "a div 64 < 1024" "a mod 64 < 64" "b mod 64 < 64" using assms(2) by (auto simp: MAX_ASIDS_def)
  show ?thesis
  proof (cases "b div 64 = a div 64")
    case True
    then have "b = a \<longleftrightarrow> b mod 64 = a mod 64" by (metis div_mult_mod_eq)
    then show ?thesis using True l assms(1) by (auto simp: asid_used_def asid_clear_def bit_simps)
  next
    case False
    then show ?thesis by (auto simp: asid_used_def asid_clear_def)
  qed
qed

lemma asid_set_fields [simp]: "asid_limit (asid_set s a) = asid_limit s" "asid_next (asid_set s a) = asid_next s"
  "length (asid_map (asid_set s a)) = length (asid_map s)"
  by (simp_all add: asid_set_def)

lemma asid_clear_fields [simp]: "asid_limit (asid_clear s a) = asid_limit s" "asid_next (asid_clear s a) = asid_next s"
  "length (asid_map (asid_clear s a)) = length (asid_map s)"
  by (simp_all add: asid_clear_def)

lemma asid_used_next [simp]: "asid_used (s\<lparr>asid_next := k\<rparr>) a = asid_used s a"
  by (simp add: asid_used_def)

definition asid_ready :: "asids \<Rightarrow> bool" where
  "asid_ready s \<longleftrightarrow> asid_inv s \<and> asid_limit s \<noteq> 0"

lemma first_use_ready:
  assumes "asid_inv s"
  shows "asid_ready (asid_first_use reg s)"
    "a < MAX_ASIDS \<Longrightarrow> asid_used (asid_first_use reg s) a \<longleftrightarrow> asid_limit s = 0 \<and> a = 0 \<or> asid_used s a"
proof -
  have u: "asid_used (s\<lparr>asid_limit := l\<rparr>) a = asid_used s a" for l a by (simp add: asid_used_def)
  have u0: "asid_used (asid_set (s\<lparr>asid_limit := l\<rparr>) 0) a \<longleftrightarrow> a = 0 \<or> asid_used s a" if "a < MAX_ASIDS" for l a
    using used_set [of "s\<lparr>asid_limit := l\<rparr>" 0 a] assms that by (simp add: asid_inv_def u MAX_ASIDS_def)
  show "asid_ready (asid_first_use reg s)"
    using assms u0 [of 0] by (auto simp: asid_ready_def asid_inv_def asid_first_use_def MAX_ASIDS_def)
  show "asid_used (asid_first_use reg s) a \<longleftrightarrow> asid_limit s = 0 \<and> a = 0 \<or> asid_used s a" if "a < MAX_ASIDS"
    using u0 [OF that] by (simp add: asid_first_use_def)
qed


section \<open>The rotating search\<close>

text \<open>The identifier looked at in round \<open>k\<close>: the numbers 1 to limit - 1 in rotation.\<close>

definition turn :: "asids \<Rightarrow> nat \<Rightarrow> nat" where
  "turn s k = (asid_next s - 1 + k) mod (asid_limit s - 1) + 1"

lemma ready_bounds: "asid_ready s \<Longrightarrow> 1 \<le> asid_next s \<and> asid_next s < asid_limit s \<and> asid_limit s \<le> MAX_ASIDS
    \<and> 256 \<le> asid_limit s \<and> length (asid_map s) = 1024 \<and> asid_used s 0"
  by (auto simp: asid_ready_def asid_inv_def MAX_ASIDS_def)

lemma ready_step: "asid_ready s \<Longrightarrow> asid_ready (s\<lparr>asid_next := next_after s\<rparr>)"
  by (auto simp: asid_ready_def asid_inv_def next_after_def MAX_ASIDS_def)

lemma turn_step: "asid_ready s \<Longrightarrow> turn (s\<lparr>asid_next := next_after s\<rparr>) k = turn s (Suc k)"
proof -
  assume r: "asid_ready s"
  note b = ready_bounds [OF r]
  have "(next_after s - 1 + k) mod (asid_limit s - 1) = (asid_next s - 1 + Suc k) mod (asid_limit s - 1)"
  proof (cases "asid_limit s \<le> asid_next s + 1")
    case True
    then have "asid_next s - 1 + Suc k = k + (asid_limit s - 1)" using b by linarith
    moreover have "next_after s - 1 + k = k" using True by (simp add: next_after_def)
    ultimately show ?thesis by (metis mod_add_self2)
  next
    case False
    then have "next_after s - 1 + k = asid_next s - 1 + Suc k" using b by (simp add: next_after_def)
    then show ?thesis by simp
  qed
  then show ?thesis by (simp add: turn_def)
qed

lemma turn_0: "asid_ready s \<Longrightarrow> turn s 0 = asid_next s"
proof -
  assume "asid_ready s"
  note b = ready_bounds [OF this]
  have "asid_next s - 1 < asid_limit s - 1" using b by linarith
  then show ?thesis using b by (simp add: turn_def)
qed

lemma scan_spec:
  assumes "asid_ready s" "asid_scan n s = (r, s')"
  shows "asid_ready s' \<and> asid_limit s' = asid_limit s \<and>
    (case r of
       None \<Rightarrow> (\<forall>k < n. asid_used s (turn s k)) \<and> (\<forall>b. asid_used s' b = asid_used s b)
     | Some a \<Rightarrow> 0 < a \<and> a < asid_limit s \<and> \<not> asid_used s a
         \<and> (\<forall>b < MAX_ASIDS. asid_used s' b \<longleftrightarrow> b = a \<or> asid_used s b))"
  using assms
proof (induction n arbitrary: s)
  case (Suc n)
  let ?s1 = "s\<lparr>asid_next := next_after s\<rparr>"
  note b = ready_bounds [OF Suc.prems(1)] and r1 = ready_step [OF Suc.prems(1)]
  show ?case
  proof (cases "asid_used s (asid_next s)")
    case False
    then have rs: "r = Some (asid_next s)" "s' = asid_set ?s1 (asid_next s)"
      using Suc.prems(2) by (auto simp: Let_def)
    have us: "asid_used s' k \<longleftrightarrow> k = asid_next s \<or> asid_used s k" if "k < MAX_ASIDS" for k
      using used_set [of ?s1 "asid_next s" k] b that by (simp add: rs)
    have "asid_ready s'" using r1 us [of 0] b by (auto simp: rs asid_ready_def asid_inv_def MAX_ASIDS_def)
    then show ?thesis using rs b us False by simp
  next
    case True
    then have "asid_scan n ?s1 = (r, s')" using Suc.prems(2) by (simp add: Let_def)
    note ih = Suc.IH [OF r1 this]
    have "asid_used s (turn s k)" if "r = None" "k < Suc n" for k
    proof (cases k)
      case 0 then show ?thesis using True turn_0 [OF Suc.prems(1)] by simp
    next
      case (Suc j)
      have "asid_used s (turn ?s1 j)" using ih that Suc by auto
      then show ?thesis using turn_step [OF Suc.prems(1), of j] Suc by metis
    qed
    then show ?thesis using ih by (auto split: option.splits)
  qed
qed simp

lemma turn_onto:
  assumes "asid_ready s" "0 < a" "a < asid_limit s"
  shows "\<exists>k < asid_limit s. turn s k = a"
proof -
  let ?m = "asid_limit s - 1"
  note b = ready_bounds [OF assms(1)]
  define k where "k = (a - 1 + ?m - (asid_next s - 1)) mod ?m"
  have "(asid_next s - 1 + k) mod ?m = (asid_next s - 1 + (a - 1 + ?m - (asid_next s - 1))) mod ?m"
    unfolding k_def by (rule mod_add_right_eq)
  also have "\<dots> = (a - 1 + ?m) mod ?m" using b by simp
  also have "\<dots> = (a - 1) mod ?m" by (rule mod_add_self2)
  also have "\<dots> = a - 1" using assms by (intro mod_less) linarith
  finally have "turn s k = a" using assms(2) by (simp add: turn_def)
  moreover have "k < ?m" unfolding k_def using b by (intro mod_less_divisor) linarith
  then have "k < asid_limit s" by linarith
  ultimately show ?thesis by blast
qed

text \<open>
  C27: The identifier allocator.  In every state that satisfies the invariant, asid_alloc keeps the
  invariant and either hands out a number other than 0 that was free, marking exactly it as used, or
  fails, and it fails only when every number from 1 up to the limit is used; a number that is freed
  can be handed out again and no other number changes.
\<close>

theorem asid_alloc_correct:
  assumes "asid_inv s" "asid_alloc mmfr0 s = (r, s')"
  shows "asid_inv s' \<and> asid_limit s' \<in> {256, MAX_ASIDS} \<and> asid_used s' 0 \<and>
    (case r of
       None \<Rightarrow> \<forall>a. 0 < a \<and> a < asid_limit s' \<longrightarrow> asid_used s a
     | Some a \<Rightarrow> 0 < a \<and> a < asid_limit s' \<and> \<not> asid_used s a
         \<and> (\<forall>b. 0 < b \<and> b < MAX_ASIDS \<longrightarrow> (asid_used s' b \<longleftrightarrow> b = a \<or> asid_used s b))
         \<and> asid_inv (asid_free a s') \<and> (\<forall>b. 0 < b \<and> b < MAX_ASIDS \<longrightarrow> asid_used (asid_free a s') b = asid_used s b))"
proof -
  let ?s1 = "asid_first_use mmfr0 s"
  note r1 = first_use_ready [OF assms(1), where reg = mmfr0]
  have sc: "asid_scan (asid_limit ?s1) ?s1 = (r, s')" using assms(2) by (simp add: asid_alloc_def Let_def)
  note sp = scan_spec [OF r1(1) sc]
  have u1: "asid_used ?s1 a = asid_used s a" if "0 < a" "a < MAX_ASIDS" for a using r1(2) [OF that(2)] that(1) by simp
  have rdy: "asid_ready s'" "asid_limit s' = asid_limit ?s1" using sp by blast+
  have b: "asid_limit s' \<in> {256, MAX_ASIDS}" "asid_used s' 0" "asid_inv s'"
    using rdy(1) by (auto simp: asid_ready_def asid_inv_def)
  show ?thesis
  proof (cases r)
    case None
    have "asid_used s a" if a: "0 < a" "a < asid_limit s'" for a
    proof -
      obtain k where k: "k < asid_limit ?s1" "turn ?s1 k = a"
        using turn_onto [OF r1(1) a(1)] a(2) rdy(2) by auto
      have "\<forall>k < asid_limit ?s1. asid_used ?s1 (turn ?s1 k)" using sp unfolding None option.case by blast
      then have "asid_used ?s1 a" using k by blast
      moreover have "a < MAX_ASIDS" using a(2) b(1) by (auto simp: MAX_ASIDS_def)
      ultimately show ?thesis using u1 a(1) by simp
    qed
    then show ?thesis using b None by simp
  next
    case (Some a)
    then have a: "0 < a" "a < asid_limit s'" "\<not> asid_used ?s1 a"
      and us: "\<And>k. k < MAX_ASIDS \<Longrightarrow> asid_used s' k \<longleftrightarrow> k = a \<or> asid_used ?s1 k"
      using sp rdy(2) unfolding Some option.case by (simp_all only: simp_thms)
    have am: "a < MAX_ASIDS" using a(2) b(1) by (auto simp: MAX_ASIDS_def)
    have l: "length (asid_map s') = 1024" using b(3) by (simp add: asid_inv_def)
    have cl: "asid_used (asid_free a s') k \<longleftrightarrow> k \<noteq> a \<and> asid_used s' k" if "k < MAX_ASIDS" for k
      using used_clear [OF l am that] a(1) by (simp add: asid_free_def)
    have "asid_inv (asid_free a s')"
      using b a(1) cl [of 0] by (auto simp: asid_inv_def asid_free_def MAX_ASIDS_def)
    moreover have "asid_used s' k \<longleftrightarrow> k = a \<or> asid_used s k" if "0 < k" "k < MAX_ASIDS" for k
      using us [OF that(2)] u1 [OF that] by simp
    moreover have "asid_used (asid_free a s') k = asid_used s k" if "0 < k" "k < MAX_ASIDS" for k
      using cl [OF that(2)] us [OF that(2)] u1 [OF that] a(3) by auto
    moreover have "\<not> asid_used s a" using a u1 am by blast
    ultimately show ?thesis using a(1,2) b Some by simp
  qed
qed

lemma init_unused: "a < MAX_ASIDS \<Longrightarrow> \<not> asid_used asids_init a"
proof -
  assume "a < MAX_ASIDS"
  then have "a div 64 < MAX_ASIDS div 64" by (simp add: MAX_ASIDS_def less_mult_imp_div_less)
  then show ?thesis by (simp only: asid_used_def asids_init_def asids.select_convs nth_replicate) simp
qed

lemma init_inv: "asid_inv asids_init"
proof -
  have "length (asid_map asids_init) = 1024" "asid_next asids_init = 1" "asid_limit asids_init = 0"
    by (simp_all add: asids_init_def MAX_ASIDS_def)
  then show ?thesis using init_unused by (simp add: asid_inv_def)
qed

theorem asid_alloc_correct_witness:
  "case asid_alloc 0 asids_init of
     (None, s) \<Rightarrow> False
   | (Some a, s) \<Rightarrow> 0 < a \<and> asid_used s a \<and> \<not> asid_used (asid_free a s) a"
proof -
  obtain r s' where e: "asid_alloc 0 asids_init = (r, s')" by fastforce
  note c = asid_alloc_correct [OF init_inv e]
  have lim: "1 < asid_limit s'" "asid_limit s' \<le> MAX_ASIDS" using c by (auto simp: MAX_ASIDS_def)
  have one: "\<not> asid_used asids_init 1" by (rule init_unused) (simp add: MAX_ASIDS_def)
  show ?thesis
  proof (cases r)
    case None
    then have "asid_used asids_init 1" using c lim by simp
    then show ?thesis using one by simp
  next
    case (Some a)
    then have "0 < a" "a < asid_limit s'" "asid_used s' a" "asid_used (asid_free a s') a = asid_used asids_init a"
      "\<not> asid_used asids_init a"
      using c lim by auto
    then show ?thesis using Some e by simp
  qed
qed

end
