(* ===== verification/Olux_Vm.thy ===== *)
theory Olux_Vm
  imports Olux_Page_Alloc Olux_Asid
begin

text \<open>
  User address spaces of mm/vm.c and the memory system calls of mm/syscalls.c: areas, page tables,
  demand paging, copy-on-write, the mmap family.  Pages and page tables come from the page
  allocator of Olux\_Page\_Alloc, whose state is part of the state here, identifiers from Olux\_Asid.

  The areas of an address space are a list in list order, a pointer to an area is its position.  The
  three table levels are nested functions of the 9-bit indices: a valid entry of the upper levels
  is the frame of the next table with the table itself, an entry of the last level is the 64-bit
  descriptor.  Addresses are 64-bit words and wrap; loops over the pages of an area count pages, and
  \<open>zap_range\<close> walks in natural numbers.  Allocations of small objects take their outcome from a
  list, so that every pattern of failures is covered.  TLB and cache maintenance have no effect on
  the state.  A panic of the page allocator is \<open>Inl\<close>.
\<close>

section \<open>Constants and state\<close>

definition USER_VA_END :: u64 where "USER_VA_END = 0x8000000000"
definition USER_STACK_MAX :: u64 where "USER_STACK_MAX = 0x800000"
definition USER_MMAP_GAP :: u64 where "USER_MMAP_GAP = 0x10000000"
definition USER_STACK_TOP_BASE :: u64 where "USER_STACK_TOP_BASE = 0x7ff0000000"
definition USER_MIN_ADDR :: u64 where "USER_MIN_ADDR = 0x10000"

definition PROT_READ :: u32 where "PROT_READ = 1"
definition PROT_WRITE :: u32 where "PROT_WRITE = 2"
definition PROT_EXEC :: u32 where "PROT_EXEC = 4"
definition MAP_SHARED :: u32 where "MAP_SHARED = 0x01"
definition MAP_PRIVATE :: u32 where "MAP_PRIVATE = 0x02"
definition MAP_TYPE :: u32 where "MAP_TYPE = 0x0f"
definition MAP_FIXED :: u32 where "MAP_FIXED = 0x10"
definition MAP_ANONYMOUS :: u32 where "MAP_ANONYMOUS = 0x20"
definition MAP_POPULATE :: u32 where "MAP_POPULATE = 0x8000"
definition MAP_FIXED_NOREPLACE :: u32 where "MAP_FIXED_NOREPLACE = 0x100000"
definition MREMAP_MAYMOVE :: u32 where "MREMAP_MAYMOVE = 1"
definition MREMAP_FIXED :: u32 where "MREMAP_FIXED = 2"

definition VM_READ :: u32 where "VM_READ = 0x1"
definition VM_WRITE :: u32 where "VM_WRITE = 0x2"
definition VM_EXEC :: u32 where "VM_EXEC = 0x4"
definition VM_SHARED :: u32 where "VM_SHARED = 0x8"
definition VM_IO :: u32 where "VM_IO = 0x10"
definition VM_GROWSDOWN :: u32 where "VM_GROWSDOWN = 0x20"
definition VM_NC :: u32 where "VM_NC = 0x40"

definition PTE_VALID :: u64 where "PTE_VALID = 1"
definition PTE_PAGE :: u64 where "PTE_PAGE = 2"
definition PTE_ATTRINDX :: "u64 \<Rightarrow> u64" where "PTE_ATTRINDX n = push_bit 2 n"
definition PTE_ATTRINDX_MASK :: u64 where "PTE_ATTRINDX_MASK = 0x1c"
definition PTE_USER :: u64 where "PTE_USER = 0x40"
definition PTE_RDONLY :: u64 where "PTE_RDONLY = 0x80"
definition PTE_SH_INNER :: u64 where "PTE_SH_INNER = 0x300"
definition PTE_AF :: u64 where "PTE_AF = 0x400"
definition PTE_NG :: u64 where "PTE_NG = 0x800"
definition PTE_PXN :: u64 where "PTE_PXN = 0x20000000000000"
definition PTE_UXN :: u64 where "PTE_UXN = 0x40000000000000"
definition PTE_SW_COW :: u64 where "PTE_SW_COW = 0x80000000000000"
definition PTE_SW_SHARED :: u64 where "PTE_SW_SHARED = 0x100000000000000"
definition PTE_SW_WRITE :: u64 where "PTE_SW_WRITE = 0x200000000000000"
definition PTE_ADDR_MASK :: u64 where "PTE_ADDR_MASK = 0xfffffffff000"
definition MT_NORMAL :: u64 where "MT_NORMAL = 1"
definition MT_NORMAL_NC :: u64 where "MT_NORMAL_NC = 2"
definition MT_DEVICE_nGnRE :: u64 where "MT_DEVICE_nGnRE = 3"

definition PROT_USER_BASE :: u64 where
  "PROT_USER_BASE = PTE_VALID OR PTE_PAGE OR PTE_ATTRINDX MT_NORMAL OR PTE_SH_INNER OR PTE_AF OR PTE_NG OR PTE_USER OR PTE_PXN"

lemmas pte_defs = PTE_VALID_def PTE_PAGE_def PTE_ATTRINDX_def PTE_ATTRINDX_MASK_def PTE_USER_def PTE_RDONLY_def
  PTE_SH_INNER_def PTE_AF_def PTE_NG_def PTE_PXN_def PTE_UXN_def PTE_SW_COW_def PTE_SW_SHARED_def
  PTE_SW_WRITE_def PTE_ADDR_MASK_def MT_NORMAL_def MT_NORMAL_NC_def MT_DEVICE_nGnRE_def PROT_USER_BASE_def

lemmas vm_flag_defs = VM_READ_def VM_WRITE_def VM_EXEC_def VM_SHARED_def VM_IO_def VM_GROWSDOWN_def VM_NC_def

record vma =
  vstart :: u64
  vend :: u64
  vflags :: u32
  vfile :: "nat option"
  file_off :: u64
  file_bytes :: u64
  io_base :: u64

type_synonym l3_table = "nat \<Rightarrow> u64"
type_synonym l2_table = "nat \<Rightarrow> (nat \<times> l3_table) option"
type_synonym l1_table = "nat \<Rightarrow> (nat \<times> l2_table) option"

record mm =
  mm_refs :: int
  pgd_frame :: nat
  pgd :: l1_table
  mm_asid :: nat
  vmas :: "vma list"
  brk_start :: u64
  brk :: u64
  mmap_base :: u64
  stack_top :: u64
  arg_start :: u64
  arg_end :: u64
  env_start :: u64
  env_end :: u64
  mm_entry :: u64
  rss_pages :: u64
  sigtramp :: u64

text \<open>
  The rest of the kernel state the operations use: the page allocator, the reference counts of open
  files, the outcomes of the coming small allocations, the identifier allocator with the register it
  reads, and what a read of a file leaves in a cleared page.
\<close>

record vworld =
  pgs :: pgstate
  files :: "nat \<Rightarrow> int"
  kallocs :: "bool list"
  asid_state :: asids
  mmfr0 :: u64
  pread :: "nat \<Rightarrow> u64 \<Rightarrow> u64 \<Rightarrow> errno + (nat \<Rightarrow> u64)"

primrec kbind :: "'a kres \<Rightarrow> ('a \<Rightarrow> 'b kres) \<Rightarrow> 'b kres" where
  "kbind (Inl m) f = Inl m"
| "kbind (Inr x) f = f x"

primrec kfold :: "('x \<Rightarrow> 's \<Rightarrow> 's kres) \<Rightarrow> 'x list \<Rightarrow> 's \<Rightarrow> 's kres" where
  "kfold f [] s = Inr s"
| "kfold f (x # xs) s = kbind (f x s) (kfold f xs)"

definition kalloc :: "vworld \<Rightarrow> bool \<times> vworld" where
  "kalloc w = (case kallocs w of [] \<Rightarrow> (False, w) | ok # rest \<Rightarrow> (ok, w\<lparr>kallocs := rest\<rparr>))"

definition file_ref :: "nat option \<Rightarrow> int \<Rightarrow> vworld \<Rightarrow> vworld" where
  "file_ref f d w = (case f of None \<Rightarrow> w | Some i \<Rightarrow> w\<lparr>files := (files w)(i := files w i + d)\<rparr>)"

definition new_page :: "u32 \<Rightarrow> vworld \<Rightarrow> (nat option \<times> vworld) kres" where
  "new_page g w = kbind (alloc_pages (pgs w) g 0) (\<lambda>(p, s). Inr (p, w\<lparr>pgs := s\<rparr>))"

definition put_page :: "nat \<Rightarrow> vworld \<Rightarrow> vworld kres" where
  "put_page p w = kbind (page_put (pgs w) p) (\<lambda>(freed, s). Inr (w\<lparr>pgs := s\<rparr>))"

definition drop_page :: "nat \<Rightarrow> vworld \<Rightarrow> vworld kres" where
  "drop_page p w = kbind (free_pages (pgs w) (Some p) 0) (\<lambda>s. Inr (w\<lparr>pgs := s\<rparr>))"


section \<open>Page tables\<close>

definition pte_valid :: "u64 \<Rightarrow> bool" where "pte_valid v \<longleftrightarrow> has_flag v PTE_VALID"
definition pte_addr :: "u64 \<Rightarrow> u64" where "pte_addr v = v AND PTE_ADDR_MASK"
definition pte_pfn :: "u64 \<Rightarrow> nat" where "pte_pfn v = unat (pte_addr v) div 4096"
definition pfn_pa :: "nat \<Rightarrow> u64" where "pfn_pa p = of_nat (p * 4096)"

definition pte_prot :: "u32 \<Rightarrow> u64" where
  "pte_prot flags =
     (let p0 = PROT_USER_BASE;
          p1 = (if has_flag flags VM_IO
                then (p0 AND NOT PTE_ATTRINDX_MASK) OR
                  (if has_flag flags VM_NC then PTE_ATTRINDX MT_NORMAL_NC else PTE_ATTRINDX MT_DEVICE_nGnRE)
                else p0);
          p2 = (if \<not> has_flag flags VM_WRITE then p1 OR PTE_RDONLY else p1);
          p3 = (if \<not> has_flag flags VM_EXEC then p2 OR PTE_UXN else p2)
      in if has_flag flags VM_WRITE then p3 OR PTE_SW_WRITE else p3)"

definition L1_INDEX :: "u64 \<Rightarrow> nat" where "L1_INDEX va = unat (drop_bit 30 va) mod 512"
definition L2_INDEX :: "u64 \<Rightarrow> nat" where "L2_INDEX va = unat (drop_bit 21 va) mod 512"
definition L3_INDEX :: "u64 \<Rightarrow> nat" where "L3_INDEX va = unat (drop_bit 12 va) mod 512"

text \<open>The descriptor of an address; \<open>None\<close> when a table is missing.\<close>

definition user_pte :: "l1_table \<Rightarrow> u64 \<Rightarrow> u64 option" where
  "user_pte t va =
     (case t (L1_INDEX va) of
        None \<Rightarrow> None
      | Some (f2, l2) \<Rightarrow> (case l2 (L2_INDEX va) of None \<Rightarrow> None | Some (f3, l3) \<Rightarrow> Some (l3 (L3_INDEX va))))"

definition set_pte :: "l1_table \<Rightarrow> u64 \<Rightarrow> u64 \<Rightarrow> l1_table" where
  "set_pte t va v =
     (case t (L1_INDEX va) of
        None \<Rightarrow> t
      | Some (f2, l2) \<Rightarrow> (case l2 (L2_INDEX va) of
          None \<Rightarrow> t
        | Some (f3, l3) \<Rightarrow> t(L1_INDEX va \<mapsto> (f2, l2(L2_INDEX va \<mapsto> (f3, l3(L3_INDEX va := v)))))))"

text \<open>The walk that allocates missing tables.  A table that was added stays when the next one fails.\<close>

definition user_pte_alloc :: "vworld \<Rightarrow> l1_table \<Rightarrow> u64 \<Rightarrow> (bool \<times> l1_table \<times> vworld) kres" where
  "user_pte_alloc w t va =
     kbind (case t (L1_INDEX va) of
              Some e \<Rightarrow> Inr (True, t, w)
            | None \<Rightarrow> kbind (new_page GFP_ZERO w) (\<lambda>(f, w1). case f of
                None \<Rightarrow> Inr (False, t, w1)
              | Some p \<Rightarrow> Inr (True, t(L1_INDEX va \<mapsto> (p, \<lambda>i. None)), w1)))
       (\<lambda>(ok, t1, w1).
          if \<not> ok then Inr (False, t1, w1)
          else case t1 (L1_INDEX va) of
            None \<Rightarrow> Inr (False, t1, w1)
          | Some (f2, l2) \<Rightarrow>
              (case l2 (L2_INDEX va) of
                 Some e \<Rightarrow> Inr (True, t1, w1)
               | None \<Rightarrow> kbind (new_page GFP_ZERO w1) (\<lambda>(f, w2). case f of
                   None \<Rightarrow> Inr (False, t1, w2)
                 | Some p \<Rightarrow> Inr (True, t1(L1_INDEX va \<mapsto> (f2, l2(L2_INDEX va \<mapsto> (p, \<lambda>i. 0)))), w2))))"

definition release_pte :: "vworld \<Rightarrow> mm \<Rightarrow> u64 \<Rightarrow> (mm \<times> vworld) kres" where
  "release_pte w m v =
     (if \<not> pte_valid v then Inr (m, w)
      else if \<not> has_flag v PTE_SW_SHARED
      then kbind (put_page (pte_pfn v) w) (\<lambda>w1. Inr (m\<lparr>rss_pages := rss_pages m - 1\<rparr>, w1))
      else Inr (m, w))"

function zap_range :: "vworld \<Rightarrow> mm \<Rightarrow> nat \<Rightarrow> nat \<Rightarrow> (mm \<times> vworld) kres" where
  "zap_range w m va fin =
     (if fin \<le> va then Inr (m, w)
      else let a = of_nat va in
        case pgd m (L1_INDEX a) of
          None \<Rightarrow> zap_range w m (va div 2 ^ 30 * 2 ^ 30 + 2 ^ 30) fin
        | Some (f2, l2) \<Rightarrow>
            (case l2 (L2_INDEX a) of
               None \<Rightarrow> zap_range w m (va div 2 ^ 21 * 2 ^ 21 + 2 ^ 21) fin
             | Some (f3, l3) \<Rightarrow>
                 let old = l3 (L3_INDEX a) in
                 if pte_valid old
                 then (case release_pte w (m\<lparr>pgd := set_pte (pgd m) a 0\<rparr>) old of
                         Inl msg \<Rightarrow> Inl msg
                       | Inr (m1, w1) \<Rightarrow> zap_range w1 m1 (va + 4096) fin)
                 else zap_range w m (va + 4096) fin))"
  by pat_completeness auto
termination
proof (relation "measure (\<lambda>(w, m, va, fin). fin - va)", goal_cases)
  have up: "va < va div k * k + k" if "0 < k" for va k :: nat
    using that by (metis dividend_less_div_times mult.commute add.commute)
  case (2 w m va fin) then show ?case using up [of "2 ^ 30" va] by simp
next
  have up: "va < va div k * k + k" if "0 < k" for va k :: nat
    using that by (metis dividend_less_div_times mult.commute add.commute)
  case (3 w m va fin) then show ?case using up [of "2 ^ 21" va] by simp
qed auto

declare zap_range.simps [simp del]

definition free_l3 :: "nat \<times> l3_table \<Rightarrow> mm \<times> vworld \<Rightarrow> (mm \<times> vworld) kres" where
  "free_l3 e st =
     kbind (kfold (\<lambda>k (m, w). release_pte w m (snd e k)) [0..<512] st)
       (\<lambda>(m, w). kbind (drop_page (fst e) w) (\<lambda>w1. Inr (m, w1)))"

definition free_l2 :: "nat \<times> l2_table \<Rightarrow> mm \<times> vworld \<Rightarrow> (mm \<times> vworld) kres" where
  "free_l2 e st =
     kbind (kfold (\<lambda>j st1. case snd e j of None \<Rightarrow> Inr st1 | Some e3 \<Rightarrow> free_l3 e3 st1) [0..<512] st)
       (\<lambda>(m, w). kbind (drop_page (fst e) w) (\<lambda>w1. Inr (m, w1)))"

definition free_tables :: "mm \<Rightarrow> vworld \<Rightarrow> (mm \<times> vworld) kres" where
  "free_tables m w =
     kfold (\<lambda>i st. case pgd m i of None \<Rightarrow> Inr st | Some e2 \<Rightarrow> free_l2 e2 st) [0..<512] (m, w)"


section \<open>Life of an address space\<close>

definition mm_zero :: mm where
  "mm_zero = \<lparr>mm_refs = 0, pgd_frame = 0, pgd = (\<lambda>i. None), mm_asid = 0, vmas = [], brk_start = 0, brk = 0, mmap_base = 0,
     stack_top = 0, arg_start = 0, arg_end = 0, env_start = 0, env_end = 0, mm_entry = 0, rss_pages = 0, sigtramp = 0\<rparr>"

text \<open>\<open>rnd\<close> is the value the random number generator returns.\<close>

definition mm_create :: "u64 \<Rightarrow> vworld \<Rightarrow> (mm option \<times> vworld) kres" where
  "mm_create rnd w =
     (case kalloc w of
        (False, w1) \<Rightarrow> Inr (None, w1)
      | (True, w1) \<Rightarrow>
          kbind (new_page GFP_ZERO w1) (\<lambda>(f, w2).
            case asid_alloc (mmfr0 w2) (asid_state w2) of (a, as) \<Rightarrow>
            let w3 = w2\<lparr>asid_state := as\<rparr> in
            case (f, a) of
              (Some p, Some asid) \<Rightarrow>
                let st = USER_STACK_TOP_BASE - push_bit 12 (rnd AND 0xffff) in
                Inr (Some (mm_zero\<lparr>pgd_frame := p, mm_asid := asid, mm_refs := 1, stack_top := st,
                  mmap_base := st - USER_STACK_MAX - USER_MMAP_GAP - push_bit 12 (drop_bit 16 rnd AND 0xffff)\<rparr>), w3)
            | (Some p, None) \<Rightarrow> kbind (drop_page p w3) (\<lambda>w4. Inr (None, w4))
            | (None, _) \<Rightarrow> Inr (None, w3)))"

definition mm_get :: "mm \<Rightarrow> mm" where
  "mm_get m = m\<lparr>mm_refs := mm_refs m + 1\<rparr>"

definition vma_free :: "vma \<Rightarrow> vworld \<Rightarrow> vworld" where
  "vma_free v w = file_ref (vfile v) (- 1) w"

text \<open>The result is \<open>None\<close> when the address space is gone.\<close>

definition mm_put :: "mm \<Rightarrow> vworld \<Rightarrow> (mm option \<times> vworld) kres" where
  "mm_put m w =
     (let m1 = m\<lparr>mm_refs := mm_refs m - 1\<rparr> in
      if 0 < mm_refs m1 then Inr (Some m1, w)
      else kbind (free_tables m1 w) (\<lambda>(m2, w2).
        let w3 = fold vma_free (vmas m2) w2 in
        kbind (drop_page (pgd_frame m2) w3) (\<lambda>w4.
          Inr (None, w4\<lparr>asid_state := asid_free (mm_asid m2) (asid_state w4)\<rparr>))))"


section \<open>Areas\<close>

text \<open>Positions in the list stand for pointers.\<close>

fun vma_find :: "vma list \<Rightarrow> u64 \<Rightarrow> nat option" where
  "vma_find [] addr = None"
| "vma_find (v # vs) addr =
     (if addr < vstart v then None
      else if addr < vend v then Some 0
      else map_option Suc (vma_find vs addr))"

fun vma_find_intersect :: "vma list \<Rightarrow> u64 \<Rightarrow> u64 \<Rightarrow> nat option" where
  "vma_find_intersect [] start fin = None"
| "vma_find_intersect (v # vs) start fin =
     (if vstart v \<ge> fin then None
      else if vend v > start then Some 0
      else map_option Suc (vma_find_intersect vs start fin))"

fun vma_insert :: "vma list \<Rightarrow> vma \<Rightarrow> vma list" where
  "vma_insert [] nv = [nv]"
| "vma_insert (v # vs) nv = (if vstart v > vstart nv then nv # v # vs else v # vma_insert vs nv)"

definition vma_clone :: "vma \<Rightarrow> vworld \<Rightarrow> vma option \<times> vworld" where
  "vma_clone v w =
     (case kalloc w of (False, w1) \<Rightarrow> (None, w1) | (True, w1) \<Rightarrow> (Some v, file_ref (vfile v) 1 w1))"

text \<open>The lower and the upper part.\<close>

definition vma_split :: "vma \<Rightarrow> u64 \<Rightarrow> vworld \<Rightarrow> (vma \<times> vma) option \<times> vworld" where
  "vma_split v addr w =
     (case vma_clone v w of
        (None, w1) \<Rightarrow> (None, w1)
      | (Some n, w1) \<Rightarrow>
          let delta = addr - vstart v;
              hi0 = n\<lparr>vstart := addr, file_off := file_off v + delta,
                file_bytes := (if file_bytes v > delta then file_bytes v - delta else 0)\<rparr>;
              hi = (if has_flag (vflags v) VM_IO then hi0\<lparr>io_base := io_base v + delta\<rparr> else hi0);
              lo = v\<lparr>vend := addr, file_bytes := min (file_bytes v) delta\<rparr>
          in (Some (lo, hi), w1))"

lemma vma_split_hi: "(Some (lo, hi), w1) = vma_split v addr w \<Longrightarrow> vstart hi = addr"
  by (auto simp: vma_split_def vma_clone_def Let_def split: prod.splits bool.splits)

definition map_vma :: "mm \<Rightarrow> u64 \<Rightarrow> u64 \<Rightarrow> u32 \<Rightarrow> nat option \<Rightarrow> u64 \<Rightarrow> u64 \<Rightarrow> vworld \<Rightarrow> errno option \<times> mm \<times> vworld" where
  "map_vma m start fin flags f off fbytes w =
     (case kalloc w of
        (False, w1) \<Rightarrow> (Some ENOMEM, m, w1)
      | (True, w1) \<Rightarrow>
          (None, m\<lparr>vmas := vma_insert (vmas m)
             \<lparr>vstart = start, vend = fin, vflags = flags, vfile = f, file_off = off, file_bytes = fbytes, io_base = 0\<rparr>\<rparr>,
           file_ref f 1 w1))"

definition upd_vma :: "mm \<Rightarrow> nat \<Rightarrow> (vma \<Rightarrow> vma) \<Rightarrow> mm" where
  "upd_vma m i f = m\<lparr>vmas := (vmas m)[i := f (vmas m ! i)]\<rparr>"

text \<open>A null result of \<^verbatim>\<open>vma_find\<close> would be dereferenced: \<open>Inl\<close>.\<close>

definition map_io :: "mm \<Rightarrow> u64 \<Rightarrow> u64 \<Rightarrow> u64 \<Rightarrow> u32 \<Rightarrow> vworld \<Rightarrow> (errno option \<times> mm \<times> vworld) kres" where
  "map_io m start len pa flags w =
     (case map_vma m start (start + len) (flags OR VM_IO) None 0 0 w of
        (Some e, m1, w1) \<Rightarrow> Inr (Some e, m1, w1)
      | (None, m1, w1) \<Rightarrow>
          (case vma_find (vmas m1) start of
             None \<Rightarrow> Inl ''map_io: null pointer''
           | Some i \<Rightarrow> Inr (None, upd_vma m1 i (\<lambda>v. v\<lparr>io_base := pa\<rparr>), w1)))"

lemma vma_find_Some:
  "vma_find vs addr = Some i \<Longrightarrow> i < length vs \<and> vstart (vs ! i) \<le> addr \<and> addr < vend (vs ! i)"
  by (induction vs arbitrary: i) (auto simp: not_less split: if_splits)

lemma vma_find_intersect_Some:
  "vma_find_intersect vs start fin = Some i \<Longrightarrow> i < length vs \<and> vstart (vs ! i) < fin \<and> start < vend (vs ! i)"
  by (induction vs arbitrary: i) (auto simp: not_le split: if_splits)

function unmapped_loop :: "mm \<Rightarrow> u64 \<Rightarrow> u64 \<Rightarrow> u64" where
  "unmapped_loop m len lim =
     (if lim < len + USER_MIN_ADDR then 0
      else
        let cand = lim - len in
        case vma_find_intersect (vmas m) cand lim of
          None \<Rightarrow>
            if cand < brk m + USER_MMAP_GAP div 4 \<and> lim > brk_start m
            then (if brk_start m \<le> brk m then 0 else unmapped_loop m len (brk_start m))
            else cand
        | Some i \<Rightarrow> unmapped_loop m len (vstart (vmas m ! i)))"
  by pat_completeness auto
termination
  by (relation "measure (\<lambda>(m, len, lim). unat lim)")
    (auto simp: word_less_nat_alt [symmetric] dest: vma_find_intersect_Some)

declare unmapped_loop.simps [simp del]

definition mm_get_unmapped_area :: "mm \<Rightarrow> u64 \<Rightarrow> u64" where
  "mm_get_unmapped_area m len = unmapped_loop m (ALIGN_UP len PAGE_SIZE) (mmap_base m)"


section \<open>Faults\<close>

definition fill_cells :: "nat \<Rightarrow> (nat \<Rightarrow> u64) \<Rightarrow> vworld \<Rightarrow> vworld" where
  "fill_cells p cells w =
     w\<lparr>pgs := (pgs w)\<lparr>ram := (\<lambda>c. if c div 512 = p then cells (c mod 512) else ram (pgs w) c)\<rparr>\<rparr>"

definition copy_page :: "nat \<Rightarrow> nat \<Rightarrow> vworld \<Rightarrow> vworld" where
  "copy_page dst src w = fill_cells dst (\<lambda>i. ram (pgs w) (src * 512 + i)) w"

definition fill_page :: "vma \<Rightarrow> u64 \<Rightarrow> nat \<Rightarrow> vworld \<Rightarrow> errno option \<times> vworld" where
  "fill_page v va p w =
     (let delta = va - vstart v in
      case vfile v of
        None \<Rightarrow> (None, w)
      | Some f \<Rightarrow>
          if delta \<ge> file_bytes v then (None, w)
          else let n = min PAGE_SIZE (file_bytes v - delta) in
            case pread w f (file_off v + delta) n of
              Inl e \<Rightarrow> (Some e, w)
            | Inr cells \<Rightarrow> (None, fill_cells p cells w))"

definition page_refs :: "vworld \<Rightarrow> nat \<Rightarrow> int" where
  "page_refs w p = refcount (mem_map (pgs w) p)"

text \<open>The first touch of a page: a device page, a zero page or a page of the file.\<close>

definition fault_new :: "mm \<Rightarrow> vma \<Rightarrow> u64 \<Rightarrow> vworld \<Rightarrow> (errno option \<times> mm \<times> vworld) kres" where
  "fault_new m v va w =
     (if has_flag (vflags v) VM_IO
      then Inr (None, m\<lparr>pgd := set_pte (pgd m) va
        ((io_base v + (va - vstart v)) OR pte_prot (vflags v) OR PTE_SW_SHARED)\<rparr>, w)
      else kbind (new_page GFP_ZERO w) (\<lambda>(f, w1).
        case f of
          None \<Rightarrow> Inr (Some ENOMEM, m, w1)
        | Some p \<Rightarrow>
            (case fill_page v va p w1 of
               (Some e, w2) \<Rightarrow> kbind (drop_page p w2) (\<lambda>w3. Inr (Some e, m, w3))
             | (None, w2) \<Rightarrow>
                 Inr (None, m\<lparr>pgd := set_pte (pgd m) va (pfn_pa p OR pte_prot (vflags v)),
                   rss_pages := rss_pages m + 1\<rparr>, w2))))"

text \<open>A write to a page that is present and read-only.\<close>

definition fault_cow :: "mm \<Rightarrow> vma \<Rightarrow> u64 \<Rightarrow> u64 \<Rightarrow> vworld \<Rightarrow> (errno option \<times> mm \<times> vworld) kres" where
  "fault_cow m v va old w =
     (if \<not> has_flag (vflags v) VM_WRITE then Inr (Some EACCES, m, w)
      else if \<not> has_flag old PTE_SW_SHARED \<and> page_refs w (pte_pfn old) = 1
      then Inr (None, m\<lparr>pgd := set_pte (pgd m) va ((old AND NOT (PTE_RDONLY OR PTE_SW_COW)) OR PTE_SW_WRITE)\<rparr>, w)
      else kbind (new_page 0 w) (\<lambda>(f, w1).
        case f of
          None \<Rightarrow> Inr (Some ENOMEM, m, w1)
        | Some np \<Rightarrow>
            let w2 = copy_page np (pte_pfn old) w1;
                m1 = m\<lparr>pgd := set_pte (pgd m) va (pfn_pa np OR pte_prot (vflags v))\<rparr> in
            if \<not> has_flag old PTE_SW_SHARED
            then kbind (put_page (pte_pfn old) w2) (\<lambda>w3. Inr (None, m1, w3))
            else Inr (None, m1\<lparr>rss_pages := rss_pages m1 + 1\<rparr>, w2)))"

definition fault_in :: "mm \<Rightarrow> vma \<Rightarrow> u64 \<Rightarrow> bool \<Rightarrow> vworld \<Rightarrow> (errno option \<times> mm \<times> vworld) kres" where
  "fault_in m v va write w =
     kbind (user_pte_alloc w (pgd m) va) (\<lambda>(ok, t, w1).
       let m1 = m\<lparr>pgd := t\<rparr> in
       if \<not> ok then Inr (Some ENOMEM, m1, w1)
       else case user_pte t va of
         None \<Rightarrow> Inr (Some ENOMEM, m1, w1)
       | Some old \<Rightarrow>
           if \<not> pte_valid old then fault_new m1 v va w1
           else if write \<and> has_flag old PTE_RDONLY then fault_cow m1 v va old w1
           else Inr (None, m1, w1))"

text \<open>The area a fault belongs to, after a stack below it has been extended down to the address.\<close>

definition fault_area :: "mm \<Rightarrow> u64 \<Rightarrow> (nat \<times> mm) option" where
  "fault_area m va =
     (case vma_find (vmas m) va of
        Some i \<Rightarrow> Some (i, m)
      | None \<Rightarrow>
          (case vma_find_intersect (vmas m) va USER_VA_END of
             None \<Rightarrow> None
           | Some i \<Rightarrow>
               let s = vmas m ! i in
               if \<not> has_flag (vflags s) VM_GROWSDOWN \<or> vstart s - va > USER_STACK_MAX \<or> stack_top m - va > USER_STACK_MAX
               then None
               else Some (i, upd_vma m i (\<lambda>v. v\<lparr>vstart := va\<rparr>))))"

definition handle_mm_fault :: "mm \<Rightarrow> u64 \<Rightarrow> bool \<Rightarrow> bool \<Rightarrow> vworld \<Rightarrow> (errno option \<times> mm \<times> vworld) kres" where
  "handle_mm_fault m addr write exec w =
     (if addr \<ge> USER_VA_END then Inr (Some EFAULT, m, w)
      else
        let va = ALIGN_DOWN addr PAGE_SIZE in
        case fault_area m va of
          None \<Rightarrow> Inr (Some EFAULT, m, w)
        | Some (i, m1) \<Rightarrow>
            let v = vmas m1 ! i in
            if write \<and> \<not> has_flag (vflags v) VM_WRITE then Inr (Some EACCES, m1, w)
            else if exec \<and> \<not> has_flag (vflags v) VM_EXEC then Inr (Some EACCES, m1, w)
            else if \<not> write \<and> \<not> exec \<and> \<not> has_flag (vflags v) (VM_READ OR VM_EXEC OR VM_WRITE)
            then Inr (Some EACCES, m1, w)
            else fault_in m1 v va write w)"

lemma fault_ok_user: "handle_mm_fault m addr wr ex w = Inr (None, m', w') \<Longrightarrow> addr < USER_VA_END"
  by (simp add: handle_mm_fault_def not_le split: if_splits)

function populate_loop :: "mm \<Rightarrow> u64 \<Rightarrow> u64 \<Rightarrow> bool \<Rightarrow> vworld \<Rightarrow> (errno option \<times> mm \<times> vworld) kres" where
  "populate_loop m va fin write w =
     (if va < fin then
        case handle_mm_fault m va write False w of
          Inl msg \<Rightarrow> Inl msg
        | Inr (Some e, m1, w1) \<Rightarrow> Inr (Some e, m1, w1)
        | Inr (None, m1, w1) \<Rightarrow> populate_loop m1 (va + PAGE_SIZE) fin write w1
      else Inr (None, m, w))"
  by pat_completeness auto
termination
proof (relation "measure (\<lambda>(m, va, fin, write, w). 2 ^ 64 - unat va)", goal_cases)
  case (2 m va fin wr w)
  then have "va < USER_VA_END" using fault_ok_user by metis
  then have "unat va < 0x8000000000" by (simp add: USER_VA_END_def word_less_nat_alt)
  then have "unat (va + PAGE_SIZE) = unat va + 4096" using u64_add [of va PAGE_SIZE] by (simp add: PAGE_SIZE_def)
  then show ?case using \<open>unat va < 0x8000000000\<close> by simp
qed simp

declare populate_loop.simps [simp del]

definition mm_populate :: "mm \<Rightarrow> u64 \<Rightarrow> u64 \<Rightarrow> bool \<Rightarrow> vworld \<Rightarrow> (errno option \<times> mm \<times> vworld) kres" where
  "mm_populate m addr len write w = populate_loop m (ALIGN_DOWN addr PAGE_SIZE) (addr + len) write w"

text \<open>The physical address of the byte; the C function returns its address in the linear map.\<close>

definition mm_user_page :: "mm \<Rightarrow> u64 \<Rightarrow> bool \<Rightarrow> vworld \<Rightarrow> (u64 option \<times> mm \<times> vworld) kres" where
  "mm_user_page m addr write w =
     kbind (handle_mm_fault m addr write False w) (\<lambda>(e, m1, w1).
       let byte = (\<lambda>t. map_option (\<lambda>v. pte_addr v + (addr AND 0xfff)) (user_pte t addr)) in
       if e \<noteq> None then Inr (None, m1, w1)
       else case user_pte (pgd m1) addr of
         None \<Rightarrow> Inr (None, m1, w1)
       | Some v \<Rightarrow>
           if \<not> pte_valid v then Inr (None, m1, w1)
           else if write \<and> has_flag v PTE_RDONLY
           then kbind (handle_mm_fault m1 addr True False w1) (\<lambda>(e2, m2, w2).
             if e2 \<noteq> None then Inr (None, m2, w2) else Inr (byte (pgd m2), m2, w2))
           else Inr (byte (pgd m1), m1, w1))"


section \<open>Fork\<close>

definition page_addrs :: "u64 \<Rightarrow> u64 \<Rightarrow> u64 list" where
  "page_addrs s e = map (\<lambda>i. s + of_nat (i * 4096)) [0..<(unat e - unat s + 4095) div 4096]"

text \<open>One page: the parent, the child and the outcome; \<open>False\<close> when a table of the child is missing.\<close>

definition dup_page :: "vma \<Rightarrow> u64 \<Rightarrow> mm \<Rightarrow> mm \<Rightarrow> vworld \<Rightarrow> (bool \<times> mm \<times> mm \<times> vworld) kres" where
  "dup_page v va par ch w =
     (case user_pte (pgd par) va of
        None \<Rightarrow> Inr (True, par, ch, w)
      | Some pv \<Rightarrow>
          if \<not> pte_valid pv then Inr (True, par, ch, w)
          else kbind (user_pte_alloc w (pgd ch) va) (\<lambda>(ok, t, w1).
            let ch1 = ch\<lparr>pgd := t\<rparr> in
            if \<not> ok then Inr (False, par, ch1, w1)
            else if has_flag pv PTE_SW_SHARED
            then Inr (True, par, ch1\<lparr>pgd := set_pte t va pv\<rparr>, w1)
            else
              let w2 = w1\<lparr>pgs := page_get (pgs w1) (pte_pfn pv)\<rparr>;
                  ch2 = ch1\<lparr>rss_pages := rss_pages ch1 + 1\<rparr>;
                  priv = \<not> has_flag (vflags v) VM_SHARED;
                  nv = (if priv then pv OR (PTE_RDONLY OR PTE_SW_COW) else pv);
                  par1 = (if priv then par\<lparr>pgd := set_pte (pgd par) va nv\<rparr> else par)
              in Inr (True, par1, ch2\<lparr>pgd := set_pte t va nv\<rparr>, w2)))"

fun dup_pages :: "vma \<Rightarrow> u64 list \<Rightarrow> mm \<Rightarrow> mm \<Rightarrow> vworld \<Rightarrow> (bool \<times> mm \<times> mm \<times> vworld) kres" where
  "dup_pages v [] par ch w = Inr (True, par, ch, w)"
| "dup_pages v (va # vas) par ch w =
     kbind (dup_page v va par ch w) (\<lambda>(ok, par1, ch1, w1).
       if ok then dup_pages v vas par1 ch1 w1 else Inr (False, par1, ch1, w1))"

fun dup_vmas :: "vma list \<Rightarrow> mm \<Rightarrow> mm \<Rightarrow> vworld \<Rightarrow> (bool \<times> mm \<times> mm \<times> vworld) kres" where
  "dup_vmas [] par ch w = Inr (True, par, ch, w)"
| "dup_vmas (v # vs) par ch w =
     (case vma_clone v w of
        (None, w1) \<Rightarrow> Inr (False, par, ch, w1)
      | (Some nv, w1) \<Rightarrow>
          kbind (dup_pages v (page_addrs (vstart v) (vend v)) par (ch\<lparr>vmas := vmas ch @ [nv]\<rparr>) w1)
            (\<lambda>(ok, par1, ch1, w2). if ok then dup_vmas vs par1 ch1 w2 else Inr (False, par1, ch1, w2)))"

definition mm_dup :: "u64 \<Rightarrow> mm \<Rightarrow> vworld \<Rightarrow> (mm option \<times> mm \<times> vworld) kres" where
  "mm_dup rnd par w =
     kbind (mm_create rnd w) (\<lambda>(c, w1).
       case c of
         None \<Rightarrow> Inr (None, par, w1)
       | Some ch \<Rightarrow>
           let ch0 = ch\<lparr>brk_start := brk_start par, brk := brk par, mmap_base := mmap_base par, stack_top := stack_top par,
             arg_start := arg_start par, arg_end := arg_end par, env_start := env_start par, env_end := env_end par,
             mm_entry := mm_entry par, sigtramp := sigtramp par\<rparr> in
           kbind (dup_vmas (vmas par) par ch0 w1) (\<lambda>(ok, par1, ch1, w2).
             if ok then Inr (Some ch1, par1, w2)
             else kbind (mm_put ch1 w2) (\<lambda>(gone, w3). Inr (None, par1, w3))))"


section \<open>The mmap family\<close>

definition prot_to_vm :: "u32 \<Rightarrow> u32" where
  "prot_to_vm prot =
     (let f0 = (if has_flag prot PROT_READ then VM_READ else 0);
          f1 = (if has_flag prot PROT_WRITE then f0 OR (VM_WRITE OR VM_READ) else f0)
      in if has_flag prot PROT_EXEC then f1 OR (VM_EXEC OR VM_READ) else f1)"

text \<open>
  The areas of the list as the loop leaves them.  An area that begins below the range is split and its
  upper part is looked at next; the part behind the range begins where the loop stops.
\<close>

function unmap_list :: "u64 \<Rightarrow> u64 \<Rightarrow> vma list \<Rightarrow> mm \<Rightarrow> vworld \<Rightarrow> (errno option \<times> vma list \<times> mm \<times> vworld) kres" where
  "unmap_list start fin [] m w = Inr (None, [], m, w)"
| "unmap_list start fin (v # vs) m w =
     (if vend v \<le> start
      then kbind (unmap_list start fin vs m w) (\<lambda>(e, rest, m1, w1). Inr (e, v # rest, m1, w1))
      else if vstart v \<ge> fin then Inr (None, v # vs, m, w)
      else if vstart v < start then
        (case vma_split v start w of
           (None, w1) \<Rightarrow> Inr (Some ENOMEM, v # vs, m, w1)
         | (Some (lo, hi), w1) \<Rightarrow>
             kbind (unmap_list start fin (hi # vs) m w1) (\<lambda>(e, rest, m1, w2). Inr (e, lo # rest, m1, w2)))
      else if vend v > fin then
        (case vma_split v fin w of
           (None, w1) \<Rightarrow> Inr (Some ENOMEM, v # vs, m, w1)
         | (Some (lo, hi), w1) \<Rightarrow>
             kbind (zap_range w1 m (unat (vstart lo)) (unat (vend lo))) (\<lambda>(m1, w2).
               Inr (None, hi # vs, m1, vma_free lo w2)))
      else kbind (zap_range w m (unat (vstart v)) (unat (vend v))) (\<lambda>(m1, w1).
             unmap_list start fin vs m1 (vma_free v w1)))"
  by pat_completeness auto
termination
  by (relation "measure (\<lambda>(start, fin, vs, m, w).
      2 * length vs + (case vs of [] \<Rightarrow> 0 | v # _ \<Rightarrow> if vstart v < start then 1 else 0))")
    (auto dest: vma_split_hi split: list.splits)

declare unmap_list.simps [simp del]

definition unmap_region :: "mm \<Rightarrow> u64 \<Rightarrow> u64 \<Rightarrow> vworld \<Rightarrow> (errno option \<times> mm \<times> vworld) kres" where
  "unmap_region m start fin w =
     kbind (unmap_list start fin (vmas m) m w) (\<lambda>(e, vs, m1, w1). Inr (e, m1\<lparr>vmas := vs\<rparr>, w1))"

text \<open>
  An open file as the mapping calls see it: its mmap operation, the size of a regular file (\<open>None\<close> for
  anything else), its mode and whether its file system forbids execution.
\<close>

record ufile =
  fid :: nat
  f_mmap :: "(vma \<Rightarrow> u64 \<Rightarrow> errno option \<times> vma) option"
  f_size :: "u64 option"
  f_read :: bool
  f_write :: bool
  f_noexec :: bool

definition PAGE_OFF :: u64 where "PAGE_OFF = 0xfff"

text \<open>The choice of the address.\<close>

definition mmap_addr :: "mm \<Rightarrow> u64 \<Rightarrow> u64 \<Rightarrow> u32 \<Rightarrow> vworld \<Rightarrow> ((errno + u64) \<times> mm \<times> vworld) kres" where
  "mmap_addr m addr alen flags w =
     (if has_flag flags (MAP_FIXED OR MAP_FIXED_NOREPLACE) then
        if has_flag addr PAGE_OFF then Inr (Inl EINVAL, m, w)
        else if addr < USER_MIN_ADDR \<or> addr + alen > USER_VA_END then Inr (Inl ENOMEM, m, w)
        else if vma_find_intersect (vmas m) addr (addr + alen) \<noteq> None then
          if has_flag flags MAP_FIXED_NOREPLACE then Inr (Inl EEXIST, m, w)
          else kbind (unmap_region m addr (addr + alen) w) (\<lambda>(e, m1, w1).
            case e of Some x \<Rightarrow> Inr (Inl x, m1, w1) | None \<Rightarrow> Inr (Inr addr, m1, w1))
        else Inr (Inr addr, m, w)
      else
        let a0 = ALIGN_DOWN addr PAGE_SIZE;
            a = (if a0 = 0 \<or> a0 < USER_MIN_ADDR \<or> a0 + alen > USER_VA_END
                   \<or> vma_find_intersect (vmas m) a0 (a0 + alen) \<noteq> None
                 then mm_get_unmapped_area m alen else a0)
        in if a = 0 then Inr (Inl ENOMEM, m, w) else Inr (Inr a, m, w))"

text \<open>The mapping of a device: the driver completes the area.\<close>

definition mmap_device ::
  "(vma \<Rightarrow> u64 \<Rightarrow> errno option \<times> vma) \<Rightarrow> u64 \<Rightarrow> u64 \<Rightarrow> u32 \<Rightarrow> u64 \<Rightarrow> mm \<Rightarrow> vworld \<Rightarrow> ((errno + u64) \<times> mm \<times> vworld) kres" where
  "mmap_device op addr alen vmf off m w =
     (case map_vma m addr (addr + alen) vmf None 0 0 w of
        (Some e, m1, w1) \<Rightarrow> Inr (Inl e, m1, w1)
      | (None, m1, w1) \<Rightarrow>
          (case vma_find (vmas m1) addr of
             None \<Rightarrow> Inl ''mmap: null pointer''
           | Some i \<Rightarrow>
               (case op (vmas m1 ! i) off of
                  (Some e, v) \<Rightarrow>
                    kbind (unmap_region (upd_vma m1 i (\<lambda>_. v)) addr (addr + alen) w1) (\<lambda>(e2, m2, w2). Inr (Inl e, m2, w2))
                | (None, v) \<Rightarrow> Inr (Inr addr, upd_vma m1 i (\<lambda>_. v), w1))))"

definition do_mmap ::
  "mm \<Rightarrow> u64 \<Rightarrow> u64 \<Rightarrow> u32 \<Rightarrow> u32 \<Rightarrow> ufile option \<Rightarrow> u64 \<Rightarrow> vworld \<Rightarrow> ((errno + u64) \<times> mm \<times> vworld) kres" where
  "do_mmap m addr len prot flags file off w =
     (let alen = ALIGN_UP len PAGE_SIZE; ty = flags AND MAP_TYPE in
      if len = 0 then Inr (Inl EINVAL, m, w)
      else if has_flag off PAGE_OFF then Inr (Inl EINVAL, m, w)
      else if alen < len \<or> alen > USER_VA_END then Inr (Inl ENOMEM, m, w)
      else if ty \<noteq> MAP_SHARED \<and> ty \<noteq> MAP_PRIVATE then Inr (Inl EINVAL, m, w)
      else kbind (mmap_addr m addr alen flags w) (\<lambda>(r, m1, w1).
        case r of
          Inl e \<Rightarrow> Inr (Inl e, m1, w1)
        | Inr a \<Rightarrow>
            let vmf0 = prot_to_vm prot;
                vmf = (if ty = MAP_SHARED then vmf0 OR VM_SHARED else vmf0);
                finish = (\<lambda>(e, m2, w2). case e of
                    Some x \<Rightarrow> Inr (Inl x, m2, w2)
                  | None \<Rightarrow>
                      if has_flag flags MAP_POPULATE
                      then kbind (mm_populate m2 a alen (has_flag prot PROT_WRITE) w2) (\<lambda>(e3, m3, w3). Inr (Inr a, m3, w3))
                      else Inr (Inr a, m2, w2)) in
            (case (if has_flag flags MAP_ANONYMOUS then None else file) of
               Some f \<Rightarrow>
                 (case f_mmap f of
                    Some op \<Rightarrow> mmap_device op a alen vmf off m1 w1
                  | None \<Rightarrow>
                      (case f_size f of
                         None \<Rightarrow> Inr (Inl ENODEV, m1, w1)
                       | Some fsize \<Rightarrow>
                           if ty = MAP_SHARED \<and> has_flag prot PROT_WRITE then Inr (Inl EOPNOTSUPP, m1, w1)
                           else
                             let fbytes = (if off \<ge> fsize then 0 else min alen (fsize - off)) in
                             finish (map_vma m1 a (a + alen) (vmf AND NOT VM_SHARED) (Some (fid f)) off fbytes w1)))
             | None \<Rightarrow> finish (map_vma m1 a (a + alen) vmf None 0 0 w1))))"

definition do_munmap :: "mm \<Rightarrow> u64 \<Rightarrow> u64 \<Rightarrow> vworld \<Rightarrow> (errno option \<times> mm \<times> vworld) kres" where
  "do_munmap m addr len w =
     (let fin = addr + ALIGN_UP len PAGE_SIZE in
      if has_flag addr PAGE_OFF \<or> len = 0 then Inr (Some EINVAL, m, w)
      else if fin > USER_VA_END \<or> fin < addr then Inr (Some EINVAL, m, w)
      else unmap_region m addr fin w)"

function all_mapped :: "vma list \<Rightarrow> u64 \<Rightarrow> u64 \<Rightarrow> bool" where
  "all_mapped vs a fin =
     (if a < fin then
        case vma_find vs a of None \<Rightarrow> False | Some i \<Rightarrow> all_mapped vs (vend (vs ! i)) fin
      else True)"
  by pat_completeness auto
termination
proof (relation "measure (\<lambda>(vs, a, fin). 2 ^ 64 - unat a)", goal_cases)
  case (2 vs a fin i)
  then have "unat a < unat (vend (vs ! i))" using vma_find_Some [of vs a i] by (simp add: word_less_nat_alt)
  moreover have "unat (vend (vs ! i)) < 2 ^ 64" using unsigned_less [of "vend (vs ! i)"] by simp
  ultimately show ?case by simp
qed simp

declare all_mapped.simps [simp del]

definition page_is_shared :: "vworld \<Rightarrow> u64 \<Rightarrow> bool" where
  "page_is_shared w v \<longleftrightarrow> \<not> has_flag v PTE_SW_SHARED \<and> page_refs w (pte_pfn v) > 1"

definition prot_page :: "vworld \<Rightarrow> u32 \<Rightarrow> u64 \<Rightarrow> l1_table \<Rightarrow> l1_table" where
  "prot_page w flags va t =
     (case user_pte t va of
        None \<Rightarrow> t
      | Some old \<Rightarrow>
          if \<not> pte_valid old then t
          else
            let nv = (old AND PTE_ADDR_MASK) OR pte_prot flags OR (old AND (PTE_SW_SHARED OR PTE_SW_COW)) in
            set_pte t va
              (if has_flag old PTE_SW_COW \<or> (\<not> has_flag flags VM_SHARED \<and> page_is_shared w old)
               then nv OR (PTE_RDONLY OR PTE_SW_COW) else nv))"

definition prot_vma :: "vworld \<Rightarrow> u32 \<Rightarrow> vma \<Rightarrow> l1_table \<Rightarrow> vma \<times> l1_table" where
  "prot_vma w prot v t =
     (let flags = (vflags v AND NOT (VM_READ OR VM_WRITE OR VM_EXEC)) OR prot_to_vm prot in
      (v\<lparr>vflags := flags\<rparr>, fold (prot_page w flags) (page_addrs (vstart v) (vend v)) t))"

function protect_list :: "u64 \<Rightarrow> u64 \<Rightarrow> u32 \<Rightarrow> vma list \<Rightarrow> l1_table \<Rightarrow> vworld \<Rightarrow> errno option \<times> vma list \<times> l1_table \<times> vworld" where
  "protect_list addr fin prot [] t w = (None, [], t, w)"
| "protect_list addr fin prot (v # vs) t w =
     (if vend v \<le> addr
      then (case protect_list addr fin prot vs t w of (e, rest, t1, w1) \<Rightarrow> (e, v # rest, t1, w1))
      else if vstart v \<ge> fin then (None, v # vs, t, w)
      else if vstart v < addr then
        (case vma_split v addr w of
           (None, w1) \<Rightarrow> (Some ENOMEM, v # vs, t, w1)
         | (Some (lo, hi), w1) \<Rightarrow>
             (case protect_list addr fin prot (hi # vs) t w1 of (e, rest, t1, w2) \<Rightarrow> (e, lo # rest, t1, w2)))
      else if vend v > fin then
        (case vma_split v fin w of
           (None, w1) \<Rightarrow> (Some ENOMEM, v # vs, t, w1)
         | (Some (lo, hi), w1) \<Rightarrow>
             (case prot_vma w1 prot lo t of (lo', t1) \<Rightarrow> (None, lo' # hi # vs, t1, w1)))
      else (case prot_vma w prot v t of (v', t1) \<Rightarrow>
             (case protect_list addr fin prot vs t1 w of (e, rest, t2, w1) \<Rightarrow> (e, v' # rest, t2, w1))))"
  by pat_completeness auto
termination
  by (relation "measure (\<lambda>(addr, fin, prot, vs, t, w).
      2 * length vs + (case vs of [] \<Rightarrow> 0 | v # _ \<Rightarrow> if vstart v < addr then 1 else 0))")
    (auto dest: vma_split_hi split: list.splits)

declare protect_list.simps [simp del]

definition do_mprotect :: "mm \<Rightarrow> u64 \<Rightarrow> u64 \<Rightarrow> u32 \<Rightarrow> vworld \<Rightarrow> errno option \<times> mm \<times> vworld" where
  "do_mprotect m addr len prot w =
     (let fin = addr + ALIGN_UP len PAGE_SIZE in
      if has_flag addr PAGE_OFF then (Some EINVAL, m, w)
      else if fin < addr then (Some EINVAL, m, w)
      else if \<not> all_mapped (vmas m) addr fin then (Some ENOMEM, m, w)
      else case protect_list addr fin prot (vmas m) (pgd m) w of
        (e, vs, t, w1) \<Rightarrow> (e, m\<lparr>vmas := vs, pgd := t\<rparr>, w1))"

text \<open>The pages of the old range; \<open>False\<close> when a table for the new range cannot be allocated.\<close>

fun move_ptes :: "u64 \<Rightarrow> u64 \<Rightarrow> u64 list \<Rightarrow> l1_table \<Rightarrow> vworld \<Rightarrow> (bool \<times> l1_table \<times> vworld) kres" where
  "move_ptes old dst [] t w = Inr (True, t, w)"
| "move_ptes old dst (off # offs) t w =
     (case user_pte t (old + off) of
        None \<Rightarrow> move_ptes old dst offs t w
      | Some se \<Rightarrow>
          if \<not> pte_valid se then move_ptes old dst offs t w
          else kbind (user_pte_alloc w t (dst + off)) (\<lambda>(ok, t1, w1).
            if \<not> ok then Inr (False, t1, w1)
            else move_ptes old dst offs (set_pte (set_pte t1 (dst + off) se) (old + off) 0) w1))"

definition do_mremap ::
  "mm \<Rightarrow> u64 \<Rightarrow> u64 \<Rightarrow> u64 \<Rightarrow> u32 \<Rightarrow> vworld \<Rightarrow> ((errno + u64) \<times> mm \<times> vworld) kres" where
  "do_mremap m old old_len0 new_len0 flags w =
     (let old_len = ALIGN_UP old_len0 PAGE_SIZE; new_len = ALIGN_UP new_len0 PAGE_SIZE in
      if has_flag old PAGE_OFF \<or> new_len0 = 0 then Inr (Inl EINVAL, m, w)
      else case vma_find (vmas m) old of
        None \<Rightarrow> Inr (Inl EFAULT, m, w)
      | Some i \<Rightarrow>
          let v = vmas m ! i in
          if old + old_len > vend v \<or> has_flag (vflags v) VM_IO then Inr (Inl EFAULT, m, w)
          else if has_flag flags MREMAP_FIXED then Inr (Inl EINVAL, m, w)
          else if new_len \<le> old_len then
            if new_len < old_len
            then kbind (do_munmap m (old + new_len) (old_len - new_len) w) (\<lambda>(e, m1, w1). Inr (Inr old, m1, w1))
            else Inr (Inr old, m, w)
          else if old + old_len = vend v \<and> vma_find_intersect (vmas m) (vend v) (old + new_len) = None
            \<and> old + new_len \<le> USER_VA_END
          then Inr (Inr old, upd_vma m i (\<lambda>x. x\<lparr>vend := old + new_len\<rparr>), w)
          else if \<not> has_flag flags MREMAP_MAYMOVE then Inr (Inl ENOMEM, m, w)
          else
            let dst = mm_get_unmapped_area m new_len; delta = old - vstart v in
            if dst = 0 then Inr (Inl ENOMEM, m, w)
            else case map_vma m dst (dst + new_len) (vflags v) (vfile v) (file_off v + delta)
                (if file_bytes v > delta then file_bytes v - delta else 0) w of
              (Some e, m1, w1) \<Rightarrow> Inr (Inl e, m1, w1)
            | (None, m1, w1) \<Rightarrow>
                kbind (move_ptes old dst (page_addrs 0 old_len) (pgd m1) w1) (\<lambda>(ok, t, w2).
                  let m2 = m1\<lparr>pgd := t\<rparr> in
                  if \<not> ok then Inr (Inl ENOMEM, m2, w2)
                  else kbind (unmap_region m2 old (old + old_len) w2) (\<lambda>(e, m3, w3). Inr (Inr dst, m3, w3))))"

definition do_brk :: "mm \<Rightarrow> u64 \<Rightarrow> vworld \<Rightarrow> (u64 \<times> mm \<times> vworld) kres" where
  "do_brk m nbrk w =
     (let old_end = ALIGN_UP (brk m) PAGE_SIZE; new_end = ALIGN_UP nbrk PAGE_SIZE in
      if nbrk < brk_start m then Inr (brk m, m, w)
      else if new_end > old_end then
        if vma_find_intersect (vmas m) old_end (new_end + PAGE_SIZE) \<noteq> None then Inr (brk m, m, w)
        else
          let grow = (\<lambda>i. vend (vmas m ! i) = old_end \<and> vfile (vmas m ! i) = None
                \<and> vflags (vmas m ! i) = VM_READ OR VM_WRITE) in
          (case (if old_end > brk_start m then vma_find (vmas m) (old_end - PAGE_SIZE) else None) of
             Some i \<Rightarrow>
               if grow i then Inr (nbrk, (upd_vma m i (\<lambda>v. v\<lparr>vend := new_end\<rparr>))\<lparr>brk := nbrk\<rparr>, w)
               else (case map_vma m old_end new_end (VM_READ OR VM_WRITE) None 0 0 w of
                   (Some e, m1, w1) \<Rightarrow> Inr (brk m, m1, w1) | (None, m1, w1) \<Rightarrow> Inr (nbrk, m1\<lparr>brk := nbrk\<rparr>, w1))
           | None \<Rightarrow>
               (case map_vma m old_end new_end (VM_READ OR VM_WRITE) None 0 0 w of
                   (Some e, m1, w1) \<Rightarrow> Inr (brk m, m1, w1) | (None, m1, w1) \<Rightarrow> Inr (nbrk, m1\<lparr>brk := nbrk\<rparr>, w1)))
      else if new_end < old_end
      then kbind (unmap_region m new_end old_end w) (\<lambda>(e, m1, w1). Inr (nbrk, m1\<lparr>brk := nbrk\<rparr>, w1))
      else Inr (nbrk, m\<lparr>brk := nbrk\<rparr>, w))"


section \<open>System calls\<close>

definition sys_brk :: "mm \<Rightarrow> u64 \<Rightarrow> vworld \<Rightarrow> (u64 \<times> mm \<times> vworld) kres" where
  "sys_brk m addr w = do_brk m addr w"

definition prot_ok :: "u64 \<Rightarrow> bool" where
  "prot_ok prot \<longleftrightarrow> prot AND NOT 7 = 0"

text \<open>\<open>fd\<close> is the file the descriptor names, \<open>None\<close> when it names none.\<close>

definition mmap_refused :: "u64 \<Rightarrow> u64 \<Rightarrow> ufile \<Rightarrow> errno option" where
  "mmap_refused prot flags f =
     (if \<not> f_read f then Some EACCES
      else if (flags AND ucast MAP_TYPE) = ucast MAP_SHARED \<and> has_flag prot (ucast PROT_WRITE) \<and> \<not> f_write f then Some EACCES
      else if has_flag prot (ucast PROT_EXEC) \<and> f_noexec f then Some EPERM
      else None)"

definition sys_mmap ::
  "mm \<Rightarrow> u64 \<Rightarrow> u64 \<Rightarrow> u64 \<Rightarrow> u64 \<Rightarrow> ufile option \<Rightarrow> u64 \<Rightarrow> vworld \<Rightarrow> ((errno + u64) \<times> mm \<times> vworld) kres" where
  "sys_mmap m addr len prot flags fd off w =
     (if \<not> prot_ok prot then Inr (Inl EINVAL, m, w)
      else if has_flag flags (ucast MAP_ANONYMOUS) then do_mmap m addr len (ucast prot) (ucast flags) None off w
      else case fd of
        None \<Rightarrow> Inr (Inl EBADF, m, w)
      | Some f \<Rightarrow>
          let w1 = file_ref (Some (fid f)) 1 w in
          (case mmap_refused prot flags f of
             Some e \<Rightarrow> Inr (Inl e, m, file_ref (Some (fid f)) (- 1) w1)
           | None \<Rightarrow>
               kbind (do_mmap m addr len (ucast prot) (ucast flags) (Some f) off w1) (\<lambda>(r, m1, w2).
                 Inr (r, m1, file_ref (Some (fid f)) (- 1) w2))))"

definition sys_munmap :: "mm \<Rightarrow> u64 \<Rightarrow> u64 \<Rightarrow> vworld \<Rightarrow> (errno option \<times> mm \<times> vworld) kres" where
  "sys_munmap m addr len w = do_munmap m addr len w"

definition sys_mprotect :: "mm \<Rightarrow> u64 \<Rightarrow> u64 \<Rightarrow> u64 \<Rightarrow> vworld \<Rightarrow> errno option \<times> mm \<times> vworld" where
  "sys_mprotect m addr len prot w =
     (if \<not> prot_ok prot then (Some EINVAL, m, w) else do_mprotect m addr len (ucast prot) w)"

definition sys_mremap :: "mm \<Rightarrow> u64 \<Rightarrow> u64 \<Rightarrow> u64 \<Rightarrow> u64 \<Rightarrow> vworld \<Rightarrow> ((errno + u64) \<times> mm \<times> vworld) kres" where
  "sys_mremap m old old_len new_len flags w = do_mremap m old old_len new_len (ucast flags) w"

definition sys_madvise :: "mm \<Rightarrow> u64 \<Rightarrow> u64 \<Rightarrow> u64 \<Rightarrow> vworld \<Rightarrow> (errno option \<times> mm \<times> vworld) kres" where
  "sys_madvise m addr len advice w =
     (if advice \<noteq> 4 then Inr (None, m, w)
      else case vma_find (vmas m) addr of
        None \<Rightarrow> Inr (Some ENOMEM, m, w)
      | Some i \<Rightarrow>
          let v = vmas m ! i; flags = vflags v in
          if vfile v \<noteq> None \<or> has_flag flags (VM_IO OR VM_SHARED) then Inr (None, m, w)
          else
            let e0 = addr + ALIGN_UP len PAGE_SIZE; e = (if e0 > vend v then vend v else e0);
                prot = (if has_flag flags VM_READ then PROT_READ else 0) OR (if has_flag flags VM_WRITE then PROT_WRITE else 0)
                  OR (if has_flag flags VM_EXEC then PROT_EXEC else 0) in
            kbind (do_mmap m addr (e - addr) prot (MAP_PRIVATE OR MAP_ANONYMOUS OR MAP_FIXED) None 0 w) (\<lambda>(r, m1, w1).
              case r of
                Inl x \<Rightarrow> Inr (Some x, m1, w1)
              | Inr a \<Rightarrow>
                  let m2 = (if has_flag flags VM_GROWSDOWN
                    then (case vma_find (vmas m1) addr of
                            None \<Rightarrow> m1 | Some j \<Rightarrow> upd_vma m1 j (\<lambda>x. x\<lparr>vflags := vflags x OR VM_GROWSDOWN\<rparr>))
                    else m1)
                  in Inr (None, m2, w1)))"

definition sys_mlock :: "mm \<Rightarrow> u64 \<Rightarrow> u64 \<Rightarrow> vworld \<Rightarrow> (errno option \<times> mm \<times> vworld) kres" where
  "sys_mlock m addr len w =
     kbind (mm_populate m addr len False w) (\<lambda>(e, m1, w1). Inr (if e \<noteq> None then Some ENOMEM else None, m1, w1))"

text \<open>The writes to the vector succeed where \<open>user_ok\<close> holds; the number of bytes written comes with the result.\<close>

fun mincore_loop :: "(u64 \<Rightarrow> bool) \<Rightarrow> vma list \<Rightarrow> u64 \<Rightarrow> u64 \<Rightarrow> nat \<Rightarrow> nat \<Rightarrow> errno option \<times> nat" where
  "mincore_loop user_ok vs addr vec i 0 = (None, i)"
| "mincore_loop user_ok vs addr vec i (Suc n) =
     (if vma_find vs (addr + of_nat i * PAGE_SIZE) = None then (Some ENOMEM, i)
      else if \<not> user_ok (vec + of_nat i) then (Some EFAULT, i)
      else mincore_loop user_ok vs addr vec (i + 1) n)"

definition sys_mincore :: "(u64 \<Rightarrow> bool) \<Rightarrow> mm \<Rightarrow> u64 \<Rightarrow> u64 \<Rightarrow> u64 \<Rightarrow> errno option \<times> nat" where
  "sys_mincore user_ok m addr len vec =
     (if has_flag addr PAGE_OFF then (Some EINVAL, 0)
      else mincore_loop user_ok (vmas m) addr vec 0 (unat ((len + (PAGE_SIZE - 1)) div PAGE_SIZE)))"
end
