(* ===== verification/Olux_Vm_Spec.thy ===== *)
theory Olux_Vm_Spec
  imports Olux_Vm
begin



section \<open>Areas and what they mean\<close>

definition aligned :: "u64 \<Rightarrow> bool" where
  "aligned a \<longleftrightarrow> 4096 dvd unat a"

definition area_ok :: "vma \<Rightarrow> bool" where
  "area_ok v \<longleftrightarrow> vstart v < vend v \<and> vend v \<le> USER_VA_END \<and> aligned (vstart v) \<and> aligned (vend v)"

text \<open>Non-empty page-aligned areas of the user range, in ascending order, without overlap.\<close>

definition vmas_ok :: "vma list \<Rightarrow> bool" where
  "vmas_ok vs \<longleftrightarrow> list_all area_ok vs \<and> sorted_wrt (\<lambda>a b. vend a \<le> vstart b) vs"

definition covers :: "vma \<Rightarrow> u64 \<Rightarrow> bool" where
  "covers v a \<longleftrightarrow> vstart v \<le> a \<and> a < vend v"

type_synonym page_attr = "u32 \<times> nat option \<times> u64 \<times> u64 \<times> u64 option"

text \<open>Flags, file, offset in the file, bytes read from it, device address.\<close>

definition page_view :: "vma \<Rightarrow> u64 \<Rightarrow> page_attr" where
  "page_view v a =
     (let d = a - vstart v in
      (vflags v, vfile v, file_off v + d, if d < file_bytes v then min PAGE_SIZE (file_bytes v - d) else 0,
       if has_flag (vflags v) VM_IO then Some (io_base v + d) else None))"

definition view :: "vma list \<Rightarrow> u64 \<Rightarrow> page_attr option" where
  "view vs a = map_option (\<lambda>v. page_view v a) (find (\<lambda>v. covers v a) vs)"

lemma view_Nil [simp]: "view [] a = None"
  by (simp add: view_def)

lemma view_Cons: "view (v # vs) a = (if covers v a then Some (page_view v a) else view vs a)"
  by (simp add: view_def)

lemma vmas_ok_Cons:
  "vmas_ok (v # vs) \<longleftrightarrow> area_ok v \<and> vmas_ok vs \<and> (\<forall>x \<in> set vs. vend v \<le> vstart x)"
  by (auto simp: vmas_ok_def list_all_iff)

lemma vmas_ok_Nil [simp]: "vmas_ok []"
  by (simp add: vmas_ok_def)

lemma view_outside: "(\<forall>v \<in> set vs. \<not> covers v a) \<Longrightarrow> view vs a = None"
  by (simp add: view_def find_None_iff)

lemma view_below: "vmas_ok vs \<Longrightarrow> \<forall>x \<in> set vs. e \<le> vstart x \<Longrightarrow> a < e \<Longrightarrow> view vs a = None"
  by (intro view_outside) (auto simp: covers_def)



subsection \<open>Aligned addresses\<close>

lemma aligned_gap: "aligned a \<Longrightarrow> aligned b \<Longrightarrow> a < b \<Longrightarrow> unat a + 4096 \<le> unat b"
proof -
  assume "aligned a" "aligned b" and lt: "a < b"
  then obtain i j where "unat a = 4096 * i" "unat b = 4096 * j" by (auto simp: aligned_def elim!: dvdE)
  moreover from this have "i < j" using lt by (simp add: word_less_nat_alt)
  then have "i + 1 \<le> j" by simp
  then have "4096 * (i + 1) \<le> 4096 * j" by (rule mult_le_mono2)
  ultimately show ?thesis by simp
qed

lemma unat_diff: "b \<le> a \<Longrightarrow> unat (a - b) = unat a - unat b" for a b :: u64
  by (simp add: unat_sub_nowrap word_le_nat_alt)

text \<open>Splitting an area at a page boundary keeps what is mapped at every page.\<close>

lemma vma_split_spec:
  assumes "vma_split v addr w = (Some (lo, hi), w1)" "area_ok v" "aligned addr" "vstart v < addr" "addr < vend v"
  shows "area_ok lo" "area_ok hi" "vstart lo = vstart v" "vend lo = addr" "vstart hi = addr" "vend hi = vend v"
    "vflags lo = vflags v" "vflags hi = vflags v"
    "aligned a \<Longrightarrow> vstart v \<le> a \<Longrightarrow> a < addr \<Longrightarrow> page_view lo a = page_view v a"
    "addr \<le> a \<Longrightarrow> page_view hi a = page_view v a"
proof -
  let ?d = "addr - vstart v"
  have lh: "lo = v\<lparr>vend := addr, file_bytes := min (file_bytes v) ?d\<rparr>"
    "hi = (let h = v\<lparr>vstart := addr, file_off := file_off v + ?d,
        file_bytes := (if file_bytes v > ?d then file_bytes v - ?d else 0)\<rparr>
      in if has_flag (vflags v) VM_IO then h\<lparr>io_base := io_base v + ?d\<rparr> else h)"
    using assms(1) by (auto simp: vma_split_def vma_clone_def Let_def split: prod.splits bool.splits)
  show "area_ok lo" "area_ok hi" using assms(2-5) by (auto simp: lh area_ok_def Let_def)
  show "vstart lo = vstart v" "vend lo = addr" "vstart hi = addr" "vend hi = vend v"
    "vflags lo = vflags v" "vflags hi = vflags v"
    by (simp_all add: lh Let_def)
  show "page_view lo a = page_view v a" if a: "aligned a" "vstart v \<le> a" "a < addr"
  proof -
    have g: "unat a + 4096 \<le> unat addr" using aligned_gap [OF a(1) assms(3) a(3)] .
    have u: "unat (a - vstart v) = unat a - unat (vstart v)" "unat ?d = unat addr - unat (vstart v)"
      using a assms(4) by (simp_all add: unat_diff)
    have le: "unat (vstart v) \<le> unat a" using a(2) by (simp add: word_le_nat_alt)
    have dd: "a - vstart v < ?d" using g u le by (simp add: word_less_nat_alt)
    have "min PAGE_SIZE (min (file_bytes v) ?d - (a - vstart v)) = min PAGE_SIZE (file_bytes v - (a - vstart v))"
      if "a - vstart v < file_bytes v"
    proof (cases "file_bytes v \<le> ?d")
      case True then show ?thesis by (simp add: min_def)
    next
      case False
      have "unat (?d - (a - vstart v)) = unat addr - unat a" using a(3) by (simp add: unat_diff)
      then have 1: "PAGE_SIZE \<le> ?d - (a - vstart v)" using g by (simp add: word_le_nat_alt PAGE_SIZE_def)
      have "?d - (a - vstart v) \<le> file_bytes v - (a - vstart v)"
        using False dd that u le g unat_diff [of a addr] a(3)
        by (simp add: word_le_nat_alt unat_diff not_le word_less_nat_alt)
      then have 2: "PAGE_SIZE \<le> file_bytes v - (a - vstart v)" using 1 by (rule order_trans [rotated])
      show ?thesis using False 1 2 by (simp add: min_def)
    qed
    then show ?thesis using dd by (auto simp: page_view_def lh Let_def)
  qed
  show "page_view hi a = page_view v a" if a: "addr \<le> a"
  proof -
    have ds: "a - addr + ?d = a - vstart v" by simp
    have u: "unat (a - addr) = unat a - unat addr" "unat ?d = unat addr - unat (vstart v)"
      "unat (a - vstart v) = unat a - unat (vstart v)"
      using a assms(4) by (simp_all add: unat_diff)
    have le: "unat (vstart v) \<le> unat addr" "unat addr \<le> unat a" using a assms(4) by (simp_all add: word_le_nat_alt word_less_nat_alt)
    have lt: "(if file_bytes v > ?d then a - addr < file_bytes v - ?d else False) = (a - vstart v < file_bytes v)"
      using u le by (auto simp: word_less_nat_alt unat_diff word_le_nat_alt)
    have "file_bytes v - ?d - (a - addr) = file_bytes v - (a - vstart v)" by simp
    then show ?thesis using lt by (auto simp: page_view_def lh Let_def ds algebra_simps split: if_splits)
  qed
qed


section \<open>Page tables\<close>

lemma L_INDEX_unat:
  "L1_INDEX va = unat va div 2 ^ 30 mod 512" "L2_INDEX va = unat va div 2 ^ 21 mod 512"
  "L3_INDEX va = unat va div 2 ^ 12 mod 512"
  by (simp_all only: L1_INDEX_def L2_INDEX_def L3_INDEX_def unat_drop_bit_eq) (simp_all add: drop_bit_eq_div)

definition same_pte :: "u64 \<Rightarrow> u64 \<Rightarrow> bool" where
  "same_pte a b \<longleftrightarrow> L1_INDEX a = L1_INDEX b \<and> L2_INDEX a = L2_INDEX b \<and> L3_INDEX a = L3_INDEX b"

lemma same_pte_refl [simp]: "same_pte a a"
  by (simp add: same_pte_def)

lemma same_pte_iff:
  assumes "aligned a" "aligned b" "a < USER_VA_END" "b < USER_VA_END"
  shows "same_pte a b \<longleftrightarrow> a = b"
proof
  assume s: "same_pte a b"
  obtain i j where ij: "unat a = 4096 * i" "unat b = 4096 * j" using assms(1,2) by (auto simp: aligned_def elim!: dvdE)
  have lt: "i < 512 * 512 * 512" "j < 512 * 512 * 512"
    using assms(3,4) ij by (simp_all add: USER_VA_END_def word_less_nat_alt)
  have d: "unat x div 2 ^ 30 = k div 512 div 512" "unat x div 2 ^ 21 = k div 512" "unat x div 2 ^ 12 = k"
    if "unat x = 4096 * k" for x :: u64 and k
    using that by (simp_all add: div_mult2_eq [symmetric])
  have "i div 512 div 512 < 512" "j div 512 div 512 < 512"
    using lt by (simp_all add: less_mult_imp_div_less)
  then have e: "i div 512 div 512 = j div 512 div 512" "i div 512 mod 512 = j div 512 mod 512" "i mod 512 = j mod 512"
    using s d [OF ij(1)] d [OF ij(2)] by (simp_all add: same_pte_def L_INDEX_unat)
  have "i div 512 = j div 512" using e(1,2) by (metis div_mult_mod_eq)
  then have "i = j" using e(3) by (metis div_mult_mod_eq)
  then show "a = b" using ij by (simp add: word_unat_eq_iff)
qed simp

lemma user_pte_set:
  "user_pte (set_pte t va v) a =
     (if same_pte va a then map_option (\<lambda>_. v) (user_pte t a) else user_pte t a)"
  by (auto simp: user_pte_def set_pte_def same_pte_def split: option.splits)

definition live_pte :: "l1_table \<Rightarrow> u64 \<Rightarrow> bool" where
  "live_pte t a \<longleftrightarrow> (case user_pte t a of None \<Rightarrow> False | Some v \<Rightarrow> pte_valid v)"

lemma not_valid_0 [simp]: "\<not> pte_valid 0"
  by (simp add: pte_valid_def)

text \<open>What page table operations leave alone.\<close>

definition same_mm :: "mm \<Rightarrow> mm \<Rightarrow> bool" where
  "same_mm m m' \<longleftrightarrow> (\<exists>t r. m' = m\<lparr>pgd := t, rss_pages := r\<rparr>)"

lemma same_mm_refl [simp]: "same_mm m m"
  unfolding same_mm_def by (rule exI [of _ "pgd m"], rule exI [of _ "rss_pages m"]) simp

lemma same_mmI: "m' = m\<lparr>pgd := t, rss_pages := r\<rparr> \<Longrightarrow> same_mm m m'"
  unfolding same_mm_def by blast

lemma same_mm_trans: "same_mm a b \<Longrightarrow> same_mm b c \<Longrightarrow> same_mm a c"
  by (auto simp: same_mm_def [of a b] same_mm_def [of b c] intro: same_mmI)

lemma same_mm_vmas: "same_mm m m' \<Longrightarrow> vmas m' = vmas m"
  by (auto simp: same_mm_def)

lemma release_pte_same:
  assumes "release_pte w m v = Inr (m', w')"
  shows "same_mm m m'" "pgd m' = pgd m"
proof -
  have eq: "m' = m\<lparr>rss_pages := rss_pages m'\<rparr>"
    using assms by (cases "put_page (pte_pfn v) w") (auto simp: release_pte_def split: if_splits)
  then have "m' = m\<lparr>pgd := pgd m, rss_pages := rss_pages m'\<rparr>" by simp
  then show "same_mm m m'" by (rule same_mmI)
  show "pgd m' = pgd m" using arg_cong [OF eq, of pgd] by simp
qed

lemma same_window: "va \<le> a \<Longrightarrow> a < va div k * k + k \<Longrightarrow> a div k = va div k" for a va k :: nat
proof -
  assume le: "va \<le> a" and lt: "a < va div k * k + k"
  have "a < (va div k + 1) * k" using lt by (simp add: algebra_simps)
  then have "a div k < va div k + 1" by (rule less_mult_imp_div_less)
  moreover have "va div k \<le> a div k" by (rule div_le_mono [OF le])
  ultimately show ?thesis by simp
qed

lemma next_page: "4096 dvd a \<Longrightarrow> 4096 dvd va \<Longrightarrow> va \<le> a \<longleftrightarrow> a = va \<or> va + 4096 \<le> a" for a va :: nat
  by (auto elim!: dvdE)

definition zapped :: "nat \<Rightarrow> nat \<Rightarrow> l1_table \<Rightarrow> l1_table \<Rightarrow> bool" where
  "zapped va fin t t' \<longleftrightarrow> (\<forall>a. aligned a \<and> a < USER_VA_END \<longrightarrow>
     user_pte t' a = (if va \<le> unat a \<and> unat a < fin \<and> live_pte t a then Some 0 else user_pte t a))"

lemma zapped_skip:
  assumes "zapped va2 fin t t'" "va \<le> va2" "\<And>a. va \<le> unat a \<Longrightarrow> unat a < va2 \<Longrightarrow> aligned a \<Longrightarrow> a < USER_VA_END \<Longrightarrow> \<not> live_pte t a"
  shows "zapped va fin t t'"
  unfolding zapped_def
proof (intro allI impI)
  fix a assume a: "aligned a \<and> a < USER_VA_END"
  show "user_pte t' a = (if va \<le> unat a \<and> unat a < fin \<and> live_pte t a then Some 0 else user_pte t a)"
  proof (cases "va2 \<le> unat a")
    case True
    then show ?thesis using assms(1,2) a by (simp add: zapped_def)
  next
    case False
    then have "va \<le> unat a \<Longrightarrow> \<not> live_pte t a" using assms(3) a by simp
    then show ?thesis using assms(1) a False by (auto simp: zapped_def)
  qed
qed

lemma zap_range_spec:
  assumes "zap_range w m va fin = Inr (m', w')" "4096 dvd va" "fin \<le> 2 ^ 39"
  shows "same_mm m m' \<and> zapped va fin (pgd m) (pgd m')"
  using assms
proof (induction w m va fin rule: zap_range.induct)
  case (1 w m va fin)
  let ?a = "of_nat va :: u64"
  note st = zap_range.simps [of w m va fin] and ih = 1(1) [OF _ refl] 1(2-4)
  show ?case
  proof (cases "fin \<le> va")
    case True
    then show ?thesis using 1(5) by (auto simp: st zapped_def)
  next
    case False
    then have va: "unat ?a = va" using 1(7) by (simp add: unat_of_nat)
    have win: "unat b div k = va div k" if "va \<le> unat b" "unat b < va div k * k + k" for b :: u64 and k
      using same_window that by blast
    have "va \<le> va div k * k + k" if "0 < k" for k
      using that by (metis dividend_less_div_times mult.commute add.commute less_imp_le)
    then have le: "va \<le> va div 2 ^ 30 * 2 ^ 30 + 2 ^ 30" "va \<le> va div 2 ^ 21 * 2 ^ 21 + 2 ^ 21" by simp_all
    have dv: "4096 dvd va div 2 ^ 30 * 2 ^ 30 + 2 ^ 30" "4096 dvd va div 2 ^ 21 * 2 ^ 21 + 2 ^ 21"
      by (rule dvd_add; simp add: dvd_mult)+
    show ?thesis
    proof (cases "pgd m (L1_INDEX ?a)")
      case None
      then have r: "zap_range w m (va div 2 ^ 30 * 2 ^ 30 + 2 ^ 30) fin = Inr (m', w')" using 1(5) False by (simp add: st Let_def)
      have "\<not> live_pte (pgd m) b" if "va \<le> unat b" "unat b < va div 2 ^ 30 * 2 ^ 30 + 2 ^ 30" for b
      proof -
        have "L1_INDEX b = L1_INDEX ?a" using win [OF that] va by (simp add: L_INDEX_unat)
        then show ?thesis using None by (simp add: live_pte_def user_pte_def)
      qed
      then show ?thesis using 1(1) [OF False refl None r dv(1) 1(7)] zapped_skip [OF _ le(1)] by blast
    next
      case (Some e2)
      obtain f2 l2 where e2: "e2 = (f2, l2)" by fastforce
      show ?thesis
      proof (cases "l2 (L2_INDEX ?a)")
        case None
        then have r: "zap_range w m (va div 2 ^ 21 * 2 ^ 21 + 2 ^ 21) fin = Inr (m', w')"
          using 1(5) False Some e2 by (simp add: st Let_def)
        have "\<not> live_pte (pgd m) b" if "va \<le> unat b" "unat b < va div 2 ^ 21 * 2 ^ 21 + 2 ^ 21" for b
        proof -
          have d: "unat b div 2 ^ 21 = va div 2 ^ 21" using win [OF that] .
          have "unat b div 2 ^ 30 = va div 2 ^ 30"
            using arg_cong [OF d, of "\<lambda>x. x div 2 ^ 9"] by (simp add: div_mult2_eq [symmetric])
          then have "L2_INDEX b = L2_INDEX ?a" "L1_INDEX b = L1_INDEX ?a" using d va by (simp_all add: L_INDEX_unat)
          then show ?thesis using None Some e2 by (simp add: live_pte_def user_pte_def)
        qed
        then show ?thesis using 1(2) [OF False refl Some e2 [symmetric] None r dv(2) 1(7)] zapped_skip [OF _ le(2)] by blast
      next
        case e3: (Some e3)
        obtain f3 l3 where l3: "e3 = (f3, l3)" by fastforce
        let ?old = "l3 (L3_INDEX ?a)"
        have up: "user_pte (pgd m) ?a = Some ?old" using Some e2 e3 l3 by (simp add: user_pte_def)
        have lt: "va < 2 ^ 39" using False 1(7) by simp
        have dv': "4096 dvd va + 4096" using 1(6) by simp
        have here: "unat b = va \<longleftrightarrow> b = ?a" for b :: u64 using va by (auto simp: word_unat_eq_iff)
        have step: "va \<le> unat b \<longleftrightarrow> b = ?a \<or> va + 4096 \<le> unat b" if "aligned b" for b
          using next_page [of "unat b" va] that 1(6) here by (simp add: aligned_def)
        show ?thesis
        proof (cases "pte_valid ?old")
          case inv: False
          then have r: "zap_range w m (va + 4096) fin = Inr (m', w')"
            using 1(5) False Some e2 e3 l3 by (simp add: st Let_def)
          have nl: "\<not> live_pte (pgd m) ?a" using up inv by (simp add: live_pte_def)
          note ih = 1(4) [OF False refl Some e2 [symmetric] e3 l3 [symmetric] refl inv r dv' 1(7)]
          then show ?thesis using zapped_skip [of "va + 4096" fin "pgd m" "pgd m'" va] step nl by fastforce
        next
          case True
          let ?m0 = "m\<lparr>pgd := set_pte (pgd m) ?a 0\<rparr>"
          obtain m1 w1 where rel: "release_pte w ?m0 ?old = Inr (m1, w1)" and r: "zap_range w1 m1 (va + 4096) fin = Inr (m', w')"
            using 1(5) False Some e2 e3 l3 True by (auto simp: st Let_def split: sum.splits)
          note ih = 1(3) [OF False refl Some e2 [symmetric] e3 l3 [symmetric] refl True rel refl r dv' 1(7)]
          have pg: "pgd m1 = set_pte (pgd m) ?a 0" using release_pte_same(2) [OF rel] by simp
          have "same_mm m ?m0" by (rule same_mmI [where t = "set_pte (pgd m) ?a 0" and r = "rss_pages m"]) simp
          then have "same_mm m m'" using release_pte_same(1) [OF rel] ih same_mm_trans by blast
          moreover have "zapped va fin (pgd m) (pgd m')"
            unfolding zapped_def
          proof (intro allI impI)
            fix b assume b: "aligned b \<and> b < USER_VA_END"
            have ua: "aligned ?a" "?a < USER_VA_END" using va 1(6) lt by (simp_all add: aligned_def USER_VA_END_def word_less_nat_alt)
            have sp: "same_pte ?a b \<longleftrightarrow> b = ?a" using same_pte_iff [OF ua(1) _ ua(2)] b by auto
            have u1: "user_pte (pgd m1) b = (if b = ?a then Some 0 else user_pte (pgd m) b)"
              using up by (simp add: pg user_pte_set sp)
            have z: "user_pte (pgd m') b = (if va + 4096 \<le> unat b \<and> unat b < fin \<and> live_pte (pgd m1) b then Some 0 else user_pte (pgd m1) b)"
              using ih b by (simp add: zapped_def)
            show "user_pte (pgd m') b = (if va \<le> unat b \<and> unat b < fin \<and> live_pte (pgd m) b then Some 0 else user_pte (pgd m) b)"
            proof (cases "b = ?a")
              case True
              then show ?thesis using z u1 up va False \<open>pte_valid ?old\<close> by (simp add: live_pte_def)
            next
              case other: False
              then have "live_pte (pgd m1) b = live_pte (pgd m) b" using u1 by (simp add: live_pte_def)
              then show ?thesis using z u1 other step b by simp
            qed
          qed
          ultimately show ?thesis by blast
        qed
      qed
    qed
  qed
qed


section \<open>Unmapping\<close>

lemma covers_split: "vstart lo = vstart v \<Longrightarrow> vend lo = b \<Longrightarrow> vstart hi = b \<Longrightarrow> vend hi = vend v \<Longrightarrow> vstart v \<le> b \<Longrightarrow> b \<le> vend v \<Longrightarrow>
    covers v a \<longleftrightarrow> covers lo a \<or> covers hi a"
  by (auto simp: covers_def)

lemma view_split:
  assumes "vma_split v addr w = (Some (lo, hi), w1)" "area_ok v" "aligned addr" "vstart v < addr" "addr < vend v" "aligned a"
  shows "view (lo # hi # vs) a = view (v # vs) a"
proof -
  note sp = vma_split_spec [OF assms(1-5)]
  have "covers v a \<longleftrightarrow> covers lo a \<or> covers hi a"
    using sp(3-6) assms(4,5) by (intro covers_split [where b = addr]) auto
  moreover have "page_view lo a = page_view v a" if "covers lo a"
    using sp(9) [of a] that assms(6) sp(3,4) by (simp add: covers_def)
  moreover have "page_view hi a = page_view v a" if "covers hi a"
    using sp(10) [of a] that sp(5) by (simp add: covers_def)
  ultimately show ?thesis by (auto simp: view_Cons)
qed

text \<open>What removing a range means for the content of the area list and for the page tables.\<close>

definition unmapped :: "u64 \<Rightarrow> u64 \<Rightarrow> vma list \<Rightarrow> l1_table \<Rightarrow> errno option \<Rightarrow> vma list \<Rightarrow> l1_table \<Rightarrow> bool" where
  "unmapped start fin vs t e vs' t' \<longleftrightarrow> vmas_ok vs' \<and>
     (\<forall>b. (\<forall>v \<in> set vs. b \<le> vstart v) \<longrightarrow> (\<forall>x \<in> set vs'. b \<le> vstart x)) \<and>
     (\<forall>a. aligned a \<and> a < USER_VA_END \<longrightarrow>
        (view vs' a = view vs a \<or> start \<le> a \<and> a < fin \<and> view vs' a = None) \<and>
        (e = None \<and> start \<le> a \<and> a < fin \<longrightarrow> view vs' a = None) \<and>
        (live_pte t' a \<longrightarrow> live_pte t a \<and> view vs' a = view vs a) \<and>
        (\<not> (start \<le> a \<and> a < fin) \<longrightarrow> user_pte t' a = user_pte t a))"

lemma unmappedI:
  assumes "vmas_ok vs'" "\<And>b. \<forall>v \<in> set vs. b \<le> vstart v \<Longrightarrow> \<forall>x \<in> set vs'. b \<le> vstart x"
    "\<And>a. aligned a \<Longrightarrow> a < USER_VA_END \<Longrightarrow> view vs' a = view vs a \<or> start \<le> a \<and> a < fin \<and> view vs' a = None"
    "\<And>a. aligned a \<Longrightarrow> a < USER_VA_END \<Longrightarrow> e = None \<Longrightarrow> start \<le> a \<Longrightarrow> a < fin \<Longrightarrow> view vs' a = None"
    "\<And>a. aligned a \<Longrightarrow> a < USER_VA_END \<Longrightarrow> live_pte t' a \<Longrightarrow> live_pte t a \<and> view vs' a = view vs a"
    "\<And>a. aligned a \<Longrightarrow> a < USER_VA_END \<Longrightarrow> \<not> (start \<le> a \<and> a < fin) \<Longrightarrow> user_pte t' a = user_pte t a"
  shows "unmapped start fin vs t e vs' t'"
  unfolding unmapped_def by (intro conjI allI impI; (elim conjE)?) (rule assms conjunct1 [OF assms(5)] conjunct2 [OF assms(5)]; assumption)+

lemma unmappedD:
  assumes "unmapped start fin vs t e vs' t'"
  shows "vmas_ok vs'" "\<forall>v \<in> set vs. b \<le> vstart v \<Longrightarrow> \<forall>x \<in> set vs'. b \<le> vstart x"
    "aligned a \<Longrightarrow> a < USER_VA_END \<Longrightarrow> view vs' a = view vs a \<or> start \<le> a \<and> a < fin \<and> view vs' a = None"
    "aligned a \<Longrightarrow> a < USER_VA_END \<Longrightarrow> e = None \<Longrightarrow> start \<le> a \<Longrightarrow> a < fin \<Longrightarrow> view vs' a = None"
    "aligned a \<Longrightarrow> a < USER_VA_END \<Longrightarrow> live_pte t' a \<Longrightarrow> live_pte t a \<and> view vs' a = view vs a"
    "aligned a \<Longrightarrow> a < USER_VA_END \<Longrightarrow> \<not> (start \<le> a \<and> a < fin) \<Longrightarrow> user_pte t' a = user_pte t a"
  using assms unfolding unmapped_def by meson+

text \<open>An area in front that the range does not touch.\<close>

lemma unmapped_Cons:
  assumes u: "unmapped start fin vs t e vs' t'" and ok: "vmas_ok (v # vs)" and out: "vend v \<le> start"
  shows "unmapped start fin (v # vs) t e (v # vs') t'"
proof (rule unmappedI)
  show "vmas_ok (v # vs')" using ok unmappedD(1) [OF u] unmappedD(2) [OF u, of "vend v"] by (simp add: vmas_ok_Cons)
  show "\<forall>x \<in> set (v # vs'). b \<le> vstart x" if "\<forall>x \<in> set (v # vs). b \<le> vstart x" for b
    using unmappedD(2) [OF u, of b] that by simp
  fix a assume a: "aligned a" "a < USER_VA_END"
  show "view (v # vs') a = view (v # vs) a \<or> start \<le> a \<and> a < fin \<and> view (v # vs') a = None"
    using unmappedD(3) [OF u a] out by (auto simp: view_Cons covers_def)
  show "view (v # vs') a = None" if "e = None" "start \<le> a" "a < fin"
    using unmappedD(4) [OF u a that] out that by (auto simp: view_Cons covers_def)
  show "live_pte t a \<and> view (v # vs') a = view (v # vs) a" if "live_pte t' a"
    using unmappedD(5) [OF u a that] by (simp add: view_Cons)
  show "user_pte t' a = user_pte t a" if "\<not> (start \<le> a \<and> a < fin)" by (rule unmappedD(6) [OF u a that])
qed

lemma unmapped_same: "vmas_ok vs \<Longrightarrow> (\<And>a. aligned a \<Longrightarrow> start \<le> a \<Longrightarrow> a < fin \<Longrightarrow> e = None \<Longrightarrow> view vs a = None) \<Longrightarrow> unmapped start fin vs t e vs t"
  by (rule unmappedI) auto

lemma zapped_live: "zapped va fin t t' \<Longrightarrow> aligned a \<Longrightarrow> a < USER_VA_END \<Longrightarrow> live_pte t' a \<longleftrightarrow> live_pte t a \<and> \<not> (va \<le> unat a \<and> unat a < fin)"
  by (auto simp: zapped_def live_pte_def split: option.splits)

lemma user_bound: "a \<le> USER_VA_END \<Longrightarrow> unat a \<le> 2 ^ 39"
  by (simp add: USER_VA_END_def word_le_nat_alt)

lemma zap_area:
  assumes "zap_range w m (unat (vstart v)) (unat (vend v)) = Inr (m', w')" "area_ok v"
  shows "same_mm m m'"
    "aligned a \<Longrightarrow> a < USER_VA_END \<Longrightarrow> live_pte (pgd m') a \<longleftrightarrow> live_pte (pgd m) a \<and> \<not> covers v a"
    "aligned a \<Longrightarrow> a < USER_VA_END \<Longrightarrow> \<not> covers v a \<Longrightarrow> user_pte (pgd m') a = user_pte (pgd m) a"
proof -
  have z: "same_mm m m'" "zapped (unat (vstart v)) (unat (vend v)) (pgd m) (pgd m')"
    using zap_range_spec [OF assms(1)] assms(2) user_bound [of "vend v"] by (auto simp: area_ok_def aligned_def)
  show "same_mm m m'" by (rule z)
  show "live_pte (pgd m') a \<longleftrightarrow> live_pte (pgd m) a \<and> \<not> covers v a" if "aligned a" "a < USER_VA_END"
    using zapped_live [OF z(2) that] by (simp add: covers_def word_le_nat_alt word_less_nat_alt)
  show "user_pte (pgd m') a = user_pte (pgd m) a" if "aligned a" "a < USER_VA_END" "\<not> covers v a"
    using z(2) that by (auto simp: zapped_def covers_def word_le_nat_alt word_less_nat_alt)
qed

text \<open>The two ways in which the loop removes an area: to its end, or up to the end of the range.\<close>

lemma unmapped_drop:
  assumes u: "unmapped start fin vs (pgd m1) e vs' t'" and z: "zap_range w m (unat (vstart v)) (unat (vend v)) = Inr (m1, w1)"
    and ok: "vmas_ok (v # vs)" and inside: "start \<le> vstart v" "vend v \<le> fin"
  shows "unmapped start fin (v # vs) (pgd m) e vs' t'"
proof (rule unmappedI)
  have av: "area_ok v" using ok by (simp add: vmas_ok_Cons)
  show "vmas_ok vs'" by (rule unmappedD(1) [OF u])
  show "\<forall>x \<in> set vs'. b \<le> vstart x" if "\<forall>x \<in> set (v # vs). b \<le> vstart x" for b
    using unmappedD(2) [OF u, of b] that by simp
  fix a assume a: "aligned a" "a < USER_VA_END"
  have rng: "covers v a \<Longrightarrow> start \<le> a \<and> a < fin" using inside by (auto simp: covers_def)
  have none: "covers v a \<Longrightarrow> view vs a = None" "\<And>w. covers v a \<Longrightarrow> view vs' a = None"
    using ok unmappedD(3) [OF u a] view_below [of vs "vend v" a] by (auto simp: vmas_ok_Cons covers_def)
  show "view vs' a = view (v # vs) a \<or> start \<le> a \<and> a < fin \<and> view vs' a = None"
    using unmappedD(3) [OF u a] rng none by (auto simp: view_Cons)
  show "view vs' a = None" if "e = None" "start \<le> a" "a < fin" by (rule unmappedD(4) [OF u a that])
  show "live_pte (pgd m) a \<and> view vs' a = view (v # vs) a" if "live_pte t' a"
    using unmappedD(5) [OF u a that] zap_area(2) [OF z av a] by (simp add: view_Cons)
  show "user_pte t' a = user_pte (pgd m) a" if "\<not> (start \<le> a \<and> a < fin)"
    using unmappedD(6) [OF u a that] zap_area(3) [OF z av a] rng that by auto
qed

lemma vmas_ok_split:
  assumes "vma_split v addr w = (Some (lo, hi), w1)" "vmas_ok (v # vs)" "aligned addr" "vstart v < addr" "addr < vend v"
  shows "vmas_ok (lo # hi # vs)"
proof -
  have av: "area_ok v" using assms(2) by (simp add: vmas_ok_Cons)
  note sp = vma_split_spec [OF assms(1) av assms(3-5)]
  have "vstart hi < vend hi" using sp(2) by (simp add: area_ok_def)
  then show ?thesis using assms(2) sp(1-6) by (fastforce simp: vmas_ok_Cons)
qed

lemma unmapped_split:
  assumes u: "unmapped start fin (lo # hi # vs) t e vs' t'"
    and sp: "vma_split v addr w = (Some (lo, hi), w1)" "area_ok v" "aligned addr" "vstart v < addr" "addr < vend v"
  shows "unmapped start fin (v # vs) t e vs' t'"
proof (rule unmappedI)
  note s = vma_split_spec [OF sp]
  show "vmas_ok vs'" by (rule unmappedD(1) [OF u])
  show "\<forall>x \<in> set vs'. b \<le> vstart x" if "\<forall>x \<in> set (v # vs). b \<le> vstart x" for b
    using unmappedD(2) [OF u, of b] that s(3,5) sp(4) by auto
  fix a assume a: "aligned a" "a < USER_VA_END"
  note vw = view_split [OF sp a(1), of vs]
  show "view vs' a = view (v # vs) a \<or> start \<le> a \<and> a < fin \<and> view vs' a = None" using unmappedD(3) [OF u a] vw by simp
  show "view vs' a = None" if "e = None" "start \<le> a" "a < fin" by (rule unmappedD(4) [OF u a that])
  show "live_pte t a \<and> view vs' a = view (v # vs) a" if "live_pte t' a" using unmappedD(5) [OF u a that] vw by simp
  show "user_pte t' a = user_pte t a" if "\<not> (start \<le> a \<and> a < fin)" by (rule unmappedD(6) [OF u a that])
qed

lemma unmap_list_spec:
  assumes "unmap_list start fin vs m w = Inr (e, vs', m', w')" "vmas_ok vs" "aligned start" "aligned fin"
  shows "unmapped start fin vs (pgd m) e vs' (pgd m') \<and> same_mm m m'"
  using assms
proof (induction start fin vs m w arbitrary: e vs' m' w' rule: unmap_list.induct)
  case (1 start fin m w)
  then show ?case by (auto simp: unmap_list.simps intro: unmapped_same)
next
  case (2 start fin v vs m w)
  note st = unmap_list.simps(2) [of start fin v vs m w]
  have av: "area_ok v" "vmas_ok vs" using 2(5) by (simp_all add: vmas_ok_Cons)
  consider (before) "vend v \<le> start" | (behind) "\<not> vend v \<le> start" "fin \<le> vstart v"
    | (low) "\<not> vend v \<le> start" "\<not> fin \<le> vstart v" "vstart v < start"
    | (high) "\<not> vend v \<le> start" "\<not> fin \<le> vstart v" "\<not> vstart v < start" "fin < vend v"
    | (inside) "\<not> vend v \<le> start" "\<not> fin \<le> vstart v" "\<not> vstart v < start" "\<not> fin < vend v"
    by blast
  then show ?case
  proof cases
    case before
    then obtain rest where r: "unmap_list start fin vs m w = Inr (e, rest, m', w')" "vs' = v # rest"
      using 2(4) by (cases "unmap_list start fin vs m w") (auto simp: st)
    show ?thesis using 2(1) [OF before r(1) av(2) 2(6-7)] unmapped_Cons [OF _ 2(5) before] r(2) by blast
  next
    case behind
    then have "vs' = v # vs \<and> m' = m" using 2(4) by (simp add: st)
    moreover have "view (v # vs) a = None" if "a < fin" for a
      using behind 2(5) that view_below [of "v # vs" "vstart v" a] by (force simp: vmas_ok_Cons area_ok_def)
    ultimately show ?thesis using unmapped_same [OF 2(5), of start fin e] by simp
  next
    case low
    show ?thesis
    proof (cases "vma_split v start w")
      case (Pair sp w1)
      show ?thesis
      proof (cases sp)
        case None
        then have "vs' = v # vs \<and> m' = m \<and> e = Some ENOMEM" using 2(4) low Pair by (simp add: st)
        then show ?thesis using unmapped_same [OF 2(5), where e = "Some ENOMEM"] by simp
      next
        case (Some lh)
        obtain lo hi where lh: "lh = (lo, hi)" by fastforce
        have sp': "vma_split v start w = (Some (lo, hi), w1)" using Pair Some lh by simp
        have lt: "start < vend v" using low by simp
        note s = vma_split_spec [OF sp' av(1) 2(6) low(3) lt] and okl = vmas_ok_split [OF sp' 2(5) 2(6) low(3) lt]
        obtain rest where r: "unmap_list start fin (hi # vs) m w1 = Inr (e, rest, m', w')" "vs' = lo # rest"
          using 2(4) low sp' by (cases "unmap_list start fin (hi # vs) m w1") (auto simp: st)
        have okh: "vmas_ok (hi # vs)" using okl by (simp add: vmas_ok_Cons)
        have ih: "unmapped start fin (hi # vs) (pgd m) e rest (pgd m') \<and> same_mm m m'"
          using 2(2) [OF low sp' [symmetric] refl refl r(1) okh 2(6-7)] .
        have "unmapped start fin (lo # hi # vs) (pgd m) e (lo # rest) (pgd m')"
          using unmapped_Cons [OF _ okl] ih s(4) by auto
        then have "unmapped start fin (v # vs) (pgd m) e (lo # rest) (pgd m')"
          by (rule unmapped_split [OF _ sp' av(1) 2(6) low(3) lt])
        then show ?thesis using ih r(2) by simp
      qed
    qed
  next
    case high
    show ?thesis
    proof (cases "vma_split v fin w")
      case (Pair sp w1)
      show ?thesis
      proof (cases sp)
        case None
        then have "vs' = v # vs \<and> m' = m \<and> e = Some ENOMEM" using 2(4) high Pair by (simp add: st)
        then show ?thesis using unmapped_same [OF 2(5), where e = "Some ENOMEM"] by simp
      next
        case (Some lh)
        obtain lo hi where lh: "lh = (lo, hi)" by fastforce
        have sp': "vma_split v fin w = (Some (lo, hi), w1)" using Pair Some lh by simp
        have lt: "vstart v < fin" using high by simp
        note s = vma_split_spec [OF sp' av(1) 2(7) lt high(4)] and okl = vmas_ok_split [OF sp' 2(5) 2(7) lt high(4)]
        obtain w2 where z: "zap_range w1 m (unat (vstart lo)) (unat (vend lo)) = Inr (m', w2)" and r: "vs' = hi # vs" "e = None"
          using 2(4) high sp' by (cases "zap_range w1 m (unat (vstart lo)) (unat (vend lo))") (auto simp: st)
        have okh: "vmas_ok (hi # vs)" "\<forall>x \<in> set (hi # vs). fin \<le> vstart x" using okl s(4) by (simp_all add: vmas_ok_Cons)
        have "unmapped start fin (hi # vs) (pgd m') None (hi # vs) (pgd m')"
          using unmapped_same [OF okh(1)] view_below [OF okh] by blast
        then have "unmapped start fin (lo # hi # vs) (pgd m) None (hi # vs) (pgd m')"
          using unmapped_drop [OF _ z okl] s(3,4) high(3) by auto
        then have "unmapped start fin (v # vs) (pgd m) None (hi # vs) (pgd m')"
          by (rule unmapped_split [OF _ sp' av(1) 2(7) lt high(4)])
        then show ?thesis using r zap_area(1) [OF z s(1)] by simp
      qed
    qed
  next
    case inside
    then obtain m1 w1 where z: "zap_range w m (unat (vstart v)) (unat (vend v)) = Inr (m1, w1)"
      and r: "unmap_list start fin vs m1 (vma_free v w1) = Inr (e, vs', m', w')"
      using 2(4) by (cases "zap_range w m (unat (vstart v)) (unat (vend v))") (auto simp: st)
    note ih = 2(3) [OF inside r av(2) 2(6-7)]
    then show ?thesis using unmapped_drop [OF _ z 2(5)] inside zap_area(1) [OF z av(1)] same_mm_trans by auto
  qed
qed

lemma aligned_iff_mod: "aligned a \<longleftrightarrow> a AND 0xfff = 0"
proof -
  have "a AND 0xfff = take_bit 12 a" by (simp add: take_bit_eq_mask mask_eq_exp_minus_1)
  moreover have "unat (take_bit 12 a) = unat a mod 2 ^ 12" by (metis unsigned_take_bit_eq take_bit_eq_mod)
  ultimately show ?thesis by (simp add: aligned_def word_unat_eq_iff dvd_eq_mod_eq_0)
qed

lemma page_off_iff: "has_flag a PAGE_OFF \<longleftrightarrow> \<not> aligned a"
  by (simp add: has_flag_def PAGE_OFF_def aligned_iff_mod)

lemma aligned_add: "aligned a \<Longrightarrow> aligned b \<Longrightarrow> aligned (a + b)"
  by (simp add: aligned_def unat_word_ariths dvd_mod)


lemma aligned_down: "aligned (ALIGN_DOWN x PAGE_SIZE)"
  using unat_ALIGN_DOWN [OF PAGE_SIZE_pow2, of x] by (simp add: aligned_def dvd_eq_mod_eq_0 mod_diff_eq minus_mod_eq_mult_div)

lemma aligned_up: "aligned (ALIGN_UP x PAGE_SIZE)"
  by (simp add: ALIGN_UP_DOWN aligned_down)

text \<open>
  An address space is well formed when its areas are, its limits make sense and every page in its
  tables is in an area.
\<close>

definition mm_ok :: "mm \<Rightarrow> bool" where
  "mm_ok m \<longleftrightarrow> vmas_ok (vmas m) \<and> aligned (mmap_base m) \<and> mmap_base m \<le> USER_VA_END \<and> brk_start m \<le> brk m \<and> (\<forall>a. aligned a \<and> a < USER_VA_END \<and> live_pte (pgd m) a \<longrightarrow> view (vmas m) a \<noteq> None)"

lemma unmap_region_spec:
  assumes "unmap_region m start fin w = Inr (e, m', w')" "mm_ok m" "aligned start" "aligned fin"
  shows "unmapped start fin (vmas m) (pgd m) e (vmas m') (pgd m')" "mm_ok m'"
proof -
  obtain vs m1 where r: "unmap_list start fin (vmas m) m w = Inr (e, vs, m1, w')" "m' = m1\<lparr>vmas := vs\<rparr>"
    using assms(1) by (cases "unmap_list start fin (vmas m) m w") (auto simp: unmap_region_def)
  have u: "unmapped start fin (vmas m) (pgd m) e vs (pgd m1)" and sm: "same_mm m m1"
    using unmap_list_spec [OF r(1)] assms(2-4) by (simp_all add: mm_ok_def)
  then show "unmapped start fin (vmas m) (pgd m) e (vmas m') (pgd m')" using r(2) by simp
  have "mmap_base m' = mmap_base m" "brk_start m' = brk_start m" "brk m' = brk m"
    using sm r(2) by (auto simp: same_mm_def)
  then show "mm_ok m'" using unmappedD(1,5) [OF u] assms(2) r(2) by (simp add: mm_ok_def)
qed

text \<open>
  C28: munmap.  In a well-formed address space do\_munmap keeps the address space well formed.  It
  rejects an unaligned address, a zero length and a range that wraps or leaves the user range, changing
  nothing.  Otherwise no page outside the range changes, neither what is mapped there nor its page
  table entry, on success nothing is mapped in the range and no page table entry there is valid,
  and the only other outcome is ENOMEM.
\<close>

theorem do_munmap_correct:
  assumes "mm_ok m" "do_munmap m addr len w = Inr (e, m', w')"
  defines "fin \<equiv> addr + ALIGN_UP len PAGE_SIZE"
  shows "mm_ok m' \<and>
    (if \<not> aligned addr \<or> len = 0 \<or> fin > USER_VA_END \<or> fin < addr then e = Some EINVAL \<and> m' = m \<and> w' = w
     else (\<forall>a. aligned a \<and> a < USER_VA_END \<longrightarrow>
       (if addr \<le> a \<and> a < fin then e = None \<longrightarrow> view (vmas m') a = None \<and> \<not> live_pte (pgd m') a
        else view (vmas m') a = view (vmas m) a \<and> user_pte (pgd m') a = user_pte (pgd m) a)))"
proof (cases "\<not> aligned addr \<or> len = 0 \<or> fin > USER_VA_END \<or> fin < addr")
  case True
  then show ?thesis using assms(1,2) by (auto simp: do_munmap_def page_off_iff Let_def fin_def split: if_splits)
next
  case False
  then have r: "unmap_region m addr fin w = Inr (e, m', w')"
    using assms(2) by (simp add: do_munmap_def page_off_iff Let_def fin_def)
  have al: "aligned addr" "aligned fin" using False aligned_add aligned_up by (auto simp: fin_def)
  note u = unmap_region_spec [OF r assms(1) al]
  have "if addr \<le> a \<and> a < fin then e = None \<longrightarrow> view (vmas m') a = None \<and> \<not> live_pte (pgd m') a
      else view (vmas m') a = view (vmas m) a \<and> user_pte (pgd m') a = user_pte (pgd m) a"
    if a: "aligned a" "a < USER_VA_END" for a
    using unmappedD(3,4,6) [OF u(1) a] u(2) a by (auto simp: mm_ok_def)
  then show ?thesis using u(2) False by auto
qed


section \<open>Mapping\<close>


lemma set_vma_insert [simp]: "set (vma_insert vs nv) = insert nv (set vs)"
  by (induction vs) auto






lemma ALIGN_UP_id: "aligned x \<Longrightarrow> x \<le> USER_VA_END \<Longrightarrow> ALIGN_UP x PAGE_SIZE = x"
proof -
  assume a: "aligned x" "x \<le> USER_VA_END"
  obtain k where k: "unat x = 4096 * k" using a(1) by (auto simp: aligned_def elim!: dvdE)
  have "unat (ALIGN_UP x PAGE_SIZE) = (unat x + (2 ^ 12 - 1)) div 2 ^ 12 * 2 ^ 12"
    using user_bound [OF a(2)] by (intro unat_ALIGN_UP [OF PAGE_SIZE_pow2]) auto
  also have "\<dots> = unat x" using k by simp
  finally show ?thesis by (simp add: word_unat_eq_iff)
qed






lemma kalloc_fields [simp]: "pgs (snd (kalloc w)) = pgs w" "files (snd (kalloc w)) = files w"
  by (auto simp: kalloc_def split: list.splits)





lemma has_flag_or_left: "has_flag (x OR y) k \<longleftrightarrow> has_flag x k \<or> has_flag y k"
  by (auto simp: has_flag_def bit_eq_iff bit_simps)





section \<open>Ranges that wrap or leave the user range\<close>

lemma find_intersect_above: "\<forall>v \<in> set vs. e \<le> vstart v \<Longrightarrow> vma_find_intersect vs s e = None"
  by (cases vs) auto

lemma find_intersect_below: "\<forall>v \<in> set vs. vend v \<le> s \<Longrightarrow> vma_find_intersect vs s e = None"
  by (induction vs) (auto simp: not_less)

lemma find_beyond: "\<forall>v \<in> set vs. vend v \<le> a \<Longrightarrow> vma_find vs a = None"
  by (induction vs) (auto simp: not_less)

lemma map_vma_bad:
  assumes "kallocs w = True # ks" "\<not> (s < e \<and> e \<le> USER_VA_END)"
  shows "\<exists>m' w'. map_vma m s e fl None 0 0 w = (None, m', w') \<and> \<not> vmas_ok (vmas m')"
  using assms by (auto simp: map_vma_def kalloc_def vmas_ok_def list_all_iff area_ok_def)

text \<open>
  C31: Missing range checks.  A fixed mapping whose end wraps past zero is accepted and leaves an area
  that ends below its start; growing a mapping with mremap to a length that rounds up to zero unmaps it
  and reports success; and brk accepts a break far above the user range when no area lies above the
  heap, leaving an area outside the user range.
\<close>

theorem vm_range_checks_missing:
  assumes "kallocs w = True # ks" "\<forall>v \<in> set (vmas m). 0x1000 \<le> vstart v \<and> vend v \<le> brk_start m"
    "brk m = brk_start m" "aligned (brk_start m)" "brk_start m < USER_VA_END"
  shows "(\<exists>m' w'. do_mmap m 0xfffffffffffff000 0x2000 0 (MAP_FIXED OR MAP_PRIVATE OR MAP_ANONYMOUS) None 0 w
        = Inr (Inr 0xfffffffffffff000, m', w') \<and> \<not> vmas_ok (vmas m'))
    \<and> (\<exists>m' w'. do_brk m 0x4000000000000000 w = Inr (0x4000000000000000, m', w') \<and> \<not> vmas_ok (vmas m'))
    \<and> (\<forall>i. vma_find (vmas m) old = Some i \<and> aligned old \<and> old + 0x1000 \<le> vend (vmas m ! i) \<and> \<not> has_flag (vflags (vmas m ! i)) VM_IO
        \<longrightarrow> do_mremap m old 0x1000 0xffffffffffffffff 0 w
          = kbind (do_munmap m old 0x1000 w) (\<lambda>(e, m1, w1). Inr (Inr old, m1, w1)))"
proof (intro conjI)
  let ?fl = "MAP_FIXED OR MAP_PRIVATE OR MAP_ANONYMOUS"
  have c: "ALIGN_UP 0x2000 PAGE_SIZE = 0x2000" "ALIGN_UP 0xffffffffffffffff PAGE_SIZE = 0" "ALIGN_UP 0x1000 PAGE_SIZE = 0x1000"
    "ALIGN_UP 0x4000000000000000 PAGE_SIZE = 0x4000000000000000"
    by (simp_all add: ALIGN_UP_def PAGE_SIZE_def)
  have f: "?fl AND MAP_TYPE = MAP_PRIVATE" "has_flag ?fl (MAP_FIXED OR MAP_FIXED_NOREPLACE)" "has_flag ?fl MAP_ANONYMOUS"
    "\<not> has_flag ?fl MAP_POPULATE" "aligned 0xfffffffffffff000" "aligned 0"
    by (simp_all add: MAP_FIXED_def MAP_PRIVATE_def MAP_ANONYMOUS_def MAP_TYPE_def MAP_FIXED_NOREPLACE_def MAP_POPULATE_def
        has_flag_def aligned_iff_mod)
  have z: "(0x10000000000001000 :: u64) = 0x1000" by simp
  have k: "\<not> (0xfffffffffffff000 < USER_MIN_ADDR)" "\<not> (USER_VA_END < 0x1000)" "\<not> USER_VA_END < (0x2000 :: u64)" "MAP_PRIVATE \<noteq> MAP_SHARED"
    by (simp_all add: USER_MIN_ADDR_def USER_VA_END_def MAP_PRIVATE_def MAP_SHARED_def)
  have "mmap_addr m 0xfffffffffffff000 0x2000 ?fl w = Inr (Inr 0xfffffffffffff000, m, w)"
    using f k find_intersect_above [of "vmas m" "0x1000"] assms(2) by (simp add: mmap_addr_def page_off_iff z)
  moreover obtain m' w' where "map_vma m 0xfffffffffffff000 0x1000 (prot_to_vm 0) None 0 0 w = (None, m', w')" "\<not> vmas_ok (vmas m')"
    using map_vma_bad [OF assms(1), where s = "0xfffffffffffff000" and e = "0x1000" and m = m and fl = "prot_to_vm 0"] by (auto simp: word_less_nat_alt)
  ultimately show "\<exists>m' w'. do_mmap m 0xfffffffffffff000 0x2000 0 ?fl None 0 w
      = Inr (Inr 0xfffffffffffff000, m', w') \<and> \<not> vmas_ok (vmas m')"
    using f k c by (simp add: do_mmap_def Let_def page_off_iff z)
  have b: "ALIGN_UP (brk_start m) PAGE_SIZE = brk_start m" using assms(4,5) by (intro ALIGN_UP_id) auto
  have g: "brk_start m < 0x4000000000000000" using assms(5) by (simp add: USER_VA_END_def word_less_nat_alt)
  then have ng: "\<not> 0x4000000000000000 < brk_start m" by simp
  have ni: "vma_find_intersect (vmas m) (brk_start m) e = None" for e using find_intersect_below assms(2) by blast
  obtain m' w' where "map_vma m (brk_start m) 0x4000000000000000 (VM_READ OR VM_WRITE) None 0 0 w = (None, m', w')" "\<not> vmas_ok (vmas m')"
    using map_vma_bad [OF assms(1), where s = "brk_start m" and e = "0x4000000000000000" and m = m and fl = "VM_READ OR VM_WRITE"] by (auto simp: USER_VA_END_def)
  then have "do_brk m 0x4000000000000000 w = Inr (0x4000000000000000, m'\<lparr>brk := 0x4000000000000000\<rparr>, w')"
    using b g ng ni assms(3) c by (simp add: do_brk_def Let_def)
  then show "\<exists>m' w'. do_brk m 0x4000000000000000 w = Inr (0x4000000000000000, m', w') \<and> \<not> vmas_ok (vmas m')"
    using \<open>\<not> vmas_ok (vmas m')\<close> by auto
  show "\<forall>i. vma_find (vmas m) old = Some i \<and> aligned old \<and> old + 0x1000 \<le> vend (vmas m ! i) \<and> \<not> has_flag (vflags (vmas m ! i)) VM_IO
        \<longrightarrow> do_mremap m old 0x1000 0xffffffffffffffff 0 w
          = kbind (do_munmap m old 0x1000 w) (\<lambda>(e, m1, w1). Inr (Inr old, m1, w1))"
    using c by (auto simp: do_mremap_def Let_def page_off_iff not_less)
qed


section \<open>Copy on write\<close>

definition in_use :: "pgstate \<Rightarrow> nat \<Rightarrow> bool" where
  "in_use s p \<longleftrightarrow> (\<forall>z < NR_ZONES. p \<notin> free_set s z)"

definition frame_data :: "vworld \<Rightarrow> nat \<Rightarrow> nat \<Rightarrow> u64" where
  "frame_data w p i = ram (pgs w) (p * 512 + i)"

text \<open>The page allocator works and its frames fit the address field of a descriptor.\<close>

definition frames_ok :: "vworld \<Rightarrow> bool" where
  "frames_ok w \<longleftrightarrow> pg_inv (pgs w) \<and> base_pfn (pgs w) + map_pfns (pgs w) \<le> 2 ^ 36"

text \<open>What a step that allocates pages leaves alone: every frame in use.\<close>

definition keeps_frames :: "vworld \<Rightarrow> vworld \<Rightarrow> bool" where
  "keeps_frames w w' \<longleftrightarrow> frames_ok w' \<and> (\<forall>q. in_use (pgs w) q \<longrightarrow>
     in_use (pgs w') q \<and> page_refs w' q = page_refs w q \<and> (\<forall>i < 512. frame_data w' q i = frame_data w q i))"

lemma keeps_frames_refl: "frames_ok w \<Longrightarrow> keeps_frames w w"
  by (simp add: keeps_frames_def)

lemma keeps_frames_trans: "keeps_frames a b \<Longrightarrow> keeps_frames b c \<Longrightarrow> keeps_frames a c"
  by (simp add: keeps_frames_def)

lemma cell_outside: "q \<noteq> p \<Longrightarrow> i < 512 \<Longrightarrow> q * 512 + i < p * 512 \<or> (p + 1) * 512 \<le> q * 512 + i" for p q i :: nat
proof -
  assume "q \<noteq> p" "i < 512"
  then consider "q + 1 \<le> p" | "p + 1 \<le> q" by linarith
  then show ?thesis
  proof cases
    case 1
    then have "(q + 1) * 512 \<le> p * 512" by (rule mult_le_mono1)
    then show ?thesis using \<open>i < 512\<close> by simp
  next
    case 2
    then have "(p + 1) * 512 \<le> q * 512" by (rule mult_le_mono1)
    then show ?thesis by simp
  qed
qed

lemma free_one_zone:
  assumes "pg_inv s" "y < NR_ZONES" "z < NR_ZONES" "p \<in> free_set s y" "p \<in> free_set s z"
  shows "y = z"
proof (rule ccontr)
  assume ne: "y \<noteq> z"
  have c: "core s" using assms(1) by (simp add: pg_inv_def)
  obtain q k q' k' where b: "(q, k) \<in> fblocks s y" "p \<in> blk q k" "(q', k') \<in> fblocks s z" "p \<in> blk q' k'"
    using assms(4,5) by (auto simp: free_set_def)
  have "good_blk s y q k" "good_blk s z q' k'"
    using blocks_okD(1) [OF coreD(2) [OF c assms(2)] b(1)] blocks_okD(1) [OF coreD(2) [OF c assms(3)] b(3)] by simp_all
  moreover have "zone_bounds s" using c by (simp add: core_def)
  ultimately show False using zones_apart [OF _ assms(2,3) ne] b(2,4) by blast
qed

lemma new_page_spec:
  assumes "frames_ok w" "new_page g w = Inr (r, w')"
  shows "case r of None \<Rightarrow> w' = w
    | Some p \<Rightarrow> keeps_frames w w' \<and> \<not> in_use (pgs w) p \<and> in_use (pgs w') p \<and> page_refs w' p = 1 \<and> p < 2 ^ 36"
proof -
  have inv: "pg_inv (pgs w)" using assms(1) by (simp add: frames_ok_def)
  from inv show ?thesis
  proof (cases rule: alloc_pages_cases [where g = g and n = 0])
    case none
    then show ?thesis using assms(2) by (auto simp: new_page_def)
  next
    case (some z p t)
    let ?s' = "if has_flag g GFP_ZERO then clear_pages (set_porder (set_refcounts t p (2 ^ 0) 1) p 0) p (2 ^ 0)
         else set_porder (set_refcounts t p (2 ^ 0) 1) p 0"
    have rw: "r = Some p" "w' = w\<lparr>pgs := ?s'\<rparr>" using assms(2) some(4) by (auto simp: new_page_def)
    note f = finish_alloc [OF some(3) refl, where g = "has_flag g GFP_ZERO"]
    have b: "blk p 0 = {p}" by (auto simp: blk_def)
    have z: "z < NR_ZONES" "p \<in> free_set (pgs w) z" using some(3) b by (auto simp: taken_def)
    have bm: "base_pfn ?s' = base_pfn (pgs w)" "map_pfns ?s' = map_pfns (pgs w)"
      using some(3) by (auto simp: taken_def pg_keeps_def set_porder_def)
    have "p < base_pfn (pgs w) + map_pfns (pgs w)"
      using free_set_bound(1) [of "pgs w" z] inv z by (auto simp: pg_inv_def)
    then have p: "p < 2 ^ 36" using assms(1) by (simp add: frames_ok_def)
    have "p \<notin> free_set ?s' y" if "y < NR_ZONES" for y
      using free_one_zone [OF inv that z(1) _ z(2)] by (cases "y = z") (auto simp: f(3) b)
    then have up: "in_use ?s' p" by (simp add: in_use_def)
    have keep: "in_use ?s' q \<and> refcount (mem_map ?s' q) = refcount (mem_map (pgs w) q)
        \<and> (\<forall>i < 512. ram ?s' (q * 512 + i) = ram (pgs w) (q * 512 + i))" if q: "in_use (pgs w) q" for q
    proof -
      have ne: "q \<noteq> p" using q z by (auto simp: in_use_def)
      have "in_use ?s' q" using q by (simp add: in_use_def f(3))
      moreover have "refcount (mem_map ?s' q) = refcount (mem_map (pgs w) q)" using ne b by (intro f(5)) simp
      moreover have "ram ?s' (q * 512 + i) = ram (pgs w) (q * 512 + i)" if "i < 512" for i
        using cell_outside [OF ne that] by (intro f(8)) simp
      ultimately show ?thesis by blast
    qed
    have "refcount (mem_map ?s' p) = 1" using b by (intro f(4)) simp
    moreover have "frames_ok w'" using f(1) bm assms(1) by (simp add: frames_ok_def rw(2))
    moreover have "\<not> in_use (pgs w) p" using z by (auto simp: in_use_def)
    ultimately show ?thesis using keep up p unfolding rw(1) option.case keeps_frames_def
      by (simp add: rw(2) frame_data_def page_refs_def)
  qed
qed

lemma new_page_total:
  assumes "frames_ok w"
  shows "\<exists>r w'. new_page g w = Inr (r, w')"
proof -
  have "pg_inv (pgs w)" using assms by (simp add: frames_ok_def)
  then show ?thesis by (cases rule: alloc_pages_cases [where g = g and n = 0]) (simp_all add: new_page_def)
qed

lemma new_page_SomeD:
  assumes "frames_ok w" "new_page g w = Inr (Some p, w')"
  shows "keeps_frames w w'" "\<not> in_use (pgs w) p" "in_use (pgs w') p" "page_refs w' p = 1" "p < 2 ^ 36"
  using new_page_spec [OF assms] by simp_all

lemma keeps_framesD:
  assumes "keeps_frames w w'"
  shows "frames_ok w'" "in_use (pgs w) q \<Longrightarrow> in_use (pgs w') q" "in_use (pgs w) q \<Longrightarrow> page_refs w' q = page_refs w q"
    "in_use (pgs w) q \<Longrightarrow> i < 512 \<Longrightarrow> frame_data w' q i = frame_data w q i"
  using assms by (simp_all add: keeps_frames_def)

lemma user_pte_alloc_present:
  "user_pte t va = Some v \<Longrightarrow> user_pte_alloc w t va = Inr (True, t, w)"
  by (auto simp: user_pte_def user_pte_alloc_def split: option.splits)

lemma user_pte_alloc_keeps:
  assumes "frames_ok w" "user_pte_alloc w t va = Inr (ok, t', w')"
  shows "keeps_frames w w' \<and> (ok \<longrightarrow> user_pte t' va \<noteq> None)"
proof -
  have step: "keeps_frames w1 w2" if "frames_ok w1" "new_page GFP_ZERO w1 = Inr (f, w2)" for w1 f w2
    using new_page_spec [OF that] that(1) by (cases f) (simp_all add: keeps_frames_refl)
  have none: "w2 = w1" if "frames_ok w1" "new_page GFP_ZERO w1 = Inr (None, w2)" for w1 w2
    using new_page_spec [OF that] by simp
  show ?thesis
  proof (cases "t (L1_INDEX va)")
    case (Some e)
    then show ?thesis using assms step keeps_frames_refl [OF assms(1)]
      by (cases e; cases "snd e (L2_INDEX va)"; cases "new_page GFP_ZERO w")
        (auto simp: user_pte_alloc_def user_pte_def split: option.splits)
  next
    case None
    obtain f w1 where n: "new_page GFP_ZERO w = Inr (f, w1)" using new_page_total [OF assms(1)] by blast
    have k: "keeps_frames w w1" by (rule step [OF assms(1) n])
    obtain g w2 where n2: "new_page GFP_ZERO w1 = Inr (g, w2)" using new_page_total keeps_framesD(1) [OF k] by blast
    have "keeps_frames w w2" using keeps_frames_trans [OF k step [OF keeps_framesD(1) [OF k] n2]] .
    then show ?thesis using assms(2) None k n n2
      by (auto simp: user_pte_alloc_def user_pte_def split: option.splits)
  qed
qed

lemma frame_data_copy:
  "i < 512 \<Longrightarrow> frame_data (copy_page d s w) q i = (if q = d then frame_data w s i else frame_data w q i)"
  by (simp add: frame_data_def copy_page_def fill_cells_def)

lemma page_refs_copy [simp]: "page_refs (copy_page d s w) q = page_refs w q"
  by (simp add: page_refs_def copy_page_def fill_cells_def)

lemma put_page_shared:
  assumes "2 \<le> page_refs w p"
  obtains w' where "put_page p w = Inr w'" "frame_data w' = frame_data w"
    "\<And>q. page_refs w' q = (if q = p then page_refs w p - 1 else page_refs w q)"
  using assms by (auto simp: put_page_def page_put_def page_refs_def frame_data_def fun_eq_iff)

lemma page_get_frame:
  "frames_ok (w\<lparr>pgs := page_get (pgs w) p\<rparr>) = frames_ok w"
  "in_use (page_get (pgs w) p) q = in_use (pgs w) q"
  "frame_data (w\<lparr>pgs := page_get (pgs w) p\<rparr>) = frame_data w"
  "page_refs (w\<lparr>pgs := page_get (pgs w) p\<rparr>) q = page_refs w q + (if q = p then 1 else 0)"
proof -
  have "core (page_get s p) = core s" "free_set (page_get s p) = free_set s" "counted (page_get s p) = counted s" for s
    using core_cong [of "page_get s p" s] by (simp_all add: page_get_def counted_def)
  then show "frames_ok (w\<lparr>pgs := page_get (pgs w) p\<rparr>) = frames_ok w" "in_use (page_get (pgs w) p) q = in_use (pgs w) q"
    by (simp_all add: frames_ok_def pg_inv_def in_use_def) (simp_all add: page_get_def)
qed (simp_all add: page_get_def frame_data_def page_refs_def fun_eq_iff)

text \<open>A descriptor built from a frame and the protection of an area.\<close>

lemma pte_prot_split:
  "\<exists>x. pte_prot f = x \<and> x AND PTE_ADDR_MASK = 0 \<and> pte_valid x \<and> (has_flag f VM_WRITE \<longrightarrow> \<not> has_flag x PTE_RDONLY)"
  by (simp add: pte_prot_def Let_def pte_defs pte_valid_def has_flag_def)

lemma pfn_pa_fits:
  assumes "p < 2 ^ 36"
  shows "pfn_pa p AND PTE_ADDR_MASK = pfn_pa p" "unat (pfn_pa p) = p * 4096" "pfn_pa p AND 0xfff = 0"
proof -
  have "p * 4096 < 2 ^ 64" using assms by simp
  then show "unat (pfn_pa p) = p * 4096" by (simp only: pfn_pa_def unat_of_nat) simp
  have e: "pfn_pa p = push_bit 12 (of_nat p)" by (simp add: pfn_pa_def push_bit_eq_mult)
  show "pfn_pa p AND 0xfff = 0"
  proof -
    have "(0xfff :: u64) = mask 12" by (simp add: mask_eq_exp_minus_1)
    then show ?thesis by (simp add: e bit_eq_iff bit_simps)
  qed
  have "take_bit 36 (of_nat p :: u64) = of_nat p"
    using assms by (simp add: take_bit_of_nat take_bit_nat_eq_self)
  then have "of_nat p AND mask 36 = (of_nat p :: u64)" by (simp add: take_bit_eq_mask)
  moreover have "PTE_ADDR_MASK = push_bit 12 (mask 36)" by (simp add: PTE_ADDR_MASK_def mask_eq_exp_minus_1)
  ultimately show "pfn_pa p AND PTE_ADDR_MASK = pfn_pa p"
    using push_bit_and [of 12 "of_nat p :: u64" "mask 36"] unfolding e by argo
qed

lemma frame_pte:
  assumes "p < 2 ^ 36" and "x = pfn_pa p OR pte_prot f"
  shows "pte_pfn x = p" "pte_valid x" "has_flag f VM_WRITE \<Longrightarrow> \<not> has_flag x PTE_RDONLY"
proof -
  note p = pfn_pa_fits [OF assms(1)]
  have "x AND PTE_ADDR_MASK = pfn_pa p"
    using pte_prot_split [of f] p(1) by (simp add: assms(2) bit.conj_disj_distrib2)
  then show "pte_pfn x = p" using p(2) by (simp add: pte_pfn_def pte_addr_def)
  show "pte_valid x" using pte_prot_split [of f]
    by (simp add: assms(2) pte_valid_def has_flag_or_left)
  have "pfn_pa p AND PTE_RDONLY = pfn_pa p AND (0xfff AND PTE_RDONLY)" by (simp add: pte_defs)
  also have "\<dots> = (pfn_pa p AND 0xfff) AND PTE_RDONLY" by (rule and.assoc [symmetric])
  also have "\<dots> = 0" by (simp only: p(3)) simp
  finally show "\<not> has_flag x PTE_RDONLY" if "has_flag f VM_WRITE"
    using pte_prot_split [of f] that by (simp add: assms(2) has_flag_def bit.conj_disj_distrib2)
qed

lemma fault_in_present:
  assumes "user_pte (pgd m) va = Some old" "pte_valid old" "has_flag old PTE_RDONLY"
  shows "fault_in m v va True w = fault_cow m v va old w"
  using assms by (simp add: fault_in_def user_pte_alloc_present)

text \<open>A write to a frame that is shared: the writer gets a copy, everybody else keeps the frame.\<close>

definition cow_copied :: "u64 \<Rightarrow> u64 \<Rightarrow> vworld \<Rightarrow> mm \<Rightarrow> vworld \<Rightarrow> bool" where
  "cow_copied va old w m' w' \<longleftrightarrow>
     (\<exists>new. user_pte (pgd m') va = Some new \<and> pte_valid new \<and> \<not> has_flag new PTE_RDONLY \<and>
        \<not> in_use (pgs w) (pte_pfn new) \<and> page_refs w' (pte_pfn new) = 1 \<and>
        (\<forall>i < 512. frame_data w' (pte_pfn new) i = frame_data w (pte_pfn old) i)) \<and>
     (\<forall>q. in_use (pgs w) q \<longrightarrow>
        (\<forall>i < 512. frame_data w' q i = frame_data w q i) \<and>
        page_refs w' q = (if q = pte_pfn old then page_refs w q - 1 else page_refs w q))"

lemma fault_cow_copies:
  assumes "frames_ok w" "user_pte (pgd m) va = Some old" "has_flag (vflags v) VM_WRITE" "\<not> has_flag old PTE_SW_SHARED"
    and use: "in_use (pgs w) (pte_pfn old)" and refs: "page_refs w (pte_pfn old) \<ge> 2"
  shows "fault_cow m v va old w = Inr (Some ENOMEM, m, w)
    \<or> (\<exists>m' w'. fault_cow m v va old w = Inr (None, m', w') \<and> cow_copied va old w m' w')"
proof -
  let ?p = "pte_pfn old"
  obtain r w1 where n: "new_page 0 w = Inr (r, w1)" using new_page_total [OF assms(1)] by blast
  show ?thesis
  proof (cases r)
    case None
    then show ?thesis using new_page_spec [OF assms(1) n] n assms refs by (simp add: fault_cow_def)
  next
    case (Some np)
    note sp = new_page_SomeD [OF assms(1) n [unfolded Some]]
    note k = keeps_framesD [OF sp(1)]
    let ?w2 = "copy_page np ?p w1" and ?new = "pfn_pa np OR pte_prot (vflags v)"
    have ne: "np \<noteq> ?p" using use sp(2) by blast
    have "page_refs ?w2 ?p \<ge> 2" using refs k(3) [OF use] by simp
    then obtain w3 where w3: "put_page ?p ?w2 = Inr w3" "frame_data w3 = frame_data ?w2"
        "\<And>q. page_refs w3 q = (if q = ?p then page_refs ?w2 ?p - 1 else page_refs ?w2 q)"
      using put_page_shared [where w = ?w2 and p = ?p] by metis
    let ?m' = "m\<lparr>pgd := set_pte (pgd m) va ?new\<rparr>"
    have run: "fault_cow m v va old w = Inr (None, ?m', w3)"
      using assms refs n Some w3(1) by (simp add: fault_cow_def)
    note f = frame_pte [OF sp(5) refl, of "vflags v"]
    have "user_pte (pgd ?m') va = Some ?new" by (simp add: user_pte_set assms(2))
    moreover have "page_refs w3 np = 1" using ne sp(4) by (simp add: w3(3))
    moreover have "\<forall>i < 512. frame_data w3 np i = frame_data w ?p i"
      using k(4) [OF use] by (simp add: w3(2) frame_data_copy)
    moreover have "(\<forall>i < 512. frame_data w3 q i = frame_data w q i) \<and>
        page_refs w3 q = (if q = ?p then page_refs w q - 1 else page_refs w q)" if q: "in_use (pgs w) q" for q
      using k(3,4) [OF q] sp(2) q by (auto simp: w3(2,3) frame_data_copy)
    ultimately have "cow_copied va old w ?m' w3"
      unfolding cow_copied_def using f(2) f(3) [OF assms(3)] sp(2) by (intro conjI exI [of _ ?new]) (simp_all add: f(1))
    with run show ?thesis by blast
  qed
qed

text \<open>C30: When fork copies a page of a private writable area, parent and child share the frame
  read-only.  Whichever of the two then writes first is served: it gets a fresh writable frame with
  the same contents (or \<open>ENOMEM\<close> with nothing changed), the other keeps its frame, and the contents
  of no frame that was in use change.\<close>

theorem fork_write_isolated:
  assumes "frames_ok w" "user_pte (pgd par) va = Some pv" "pte_valid pv" "\<not> has_flag pv PTE_SW_SHARED"
    and "has_flag (vflags v) VM_WRITE" "\<not> has_flag (vflags v) VM_SHARED"
    and "in_use (pgs w) (pte_pfn pv)" "page_refs w (pte_pfn pv) \<ge> 1"
    and "dup_page v va par ch w = Inr (True, par', ch', w')"
  shows "\<exists>old. user_pte (pgd par') va = Some old \<and> user_pte (pgd ch') va = Some old \<and> pte_pfn old = pte_pfn pv
    \<and> (\<forall>i < 512. frame_data w' (pte_pfn pv) i = frame_data w (pte_pfn pv) i)
    \<and> (\<forall>m \<in> {par', ch'}. fault_in m v va True w' = Inr (Some ENOMEM, m, w')
        \<or> (\<exists>m2 w2. fault_in m v va True w' = Inr (None, m2, w2) \<and> cow_copied va old w' m2 w2))"
proof -
  let ?old = "pv OR (PTE_RDONLY OR PTE_SW_COW)" and ?p = "pte_pfn pv"
  obtain t w1 where a: "user_pte_alloc w (pgd ch) va = Inr (True, t, w1)"
      "w' = w1\<lparr>pgs := page_get (pgs w1) ?p\<rparr>"
      "par' = par\<lparr>pgd := set_pte (pgd par) va ?old\<rparr>"
      "pgd ch' = set_pte t va ?old"
    using assms by (cases "user_pte_alloc w (pgd ch) va") (auto simp: dup_page_def Let_def split: if_splits)
  have k: "keeps_frames w w1" and t: "user_pte t va \<noteq> None" using user_pte_alloc_keeps [OF assms(1) a(1)] by simp_all
  note k = keeps_framesD [OF k]
  have pp: "pte_pfn ?old = ?p" by (simp add: pte_pfn_def pte_addr_def pte_defs bit.conj_disj_distrib2)
  have fl: "pte_valid ?old" "has_flag ?old PTE_RDONLY" "\<not> has_flag ?old PTE_SW_SHARED"
    using assms(3,4) by (simp_all add: pte_valid_def has_flag_or_left) (simp_all add: has_flag_def pte_defs)
  have pars: "user_pte (pgd par') va = Some ?old" by (simp add: a(3) user_pte_set assms(2))
  have chs: "user_pte (pgd ch') va = Some ?old" using t by (auto simp: a(4) user_pte_set)
  have ok: "frames_ok w'" and use: "in_use (pgs w') ?p"
    using k(1) k(2) [OF assms(7)] by (simp_all add: a(2) page_get_frame)
  have refs: "page_refs w' ?p \<ge> 2" using k(3) [OF assms(7)] assms(8) by (simp add: a(2) page_get_frame)
  have data: "\<forall>i < 512. frame_data w' ?p i = frame_data w ?p i"
    using k(4) [OF assms(7)] by (simp add: a(2) page_get_frame)
  have "fault_in m v va True w' = Inr (Some ENOMEM, m, w')
      \<or> (\<exists>m2 w2. fault_in m v va True w' = Inr (None, m2, w2) \<and> cow_copied va ?old w' m2 w2)"
    if "user_pte (pgd m) va = Some ?old" for m
    using fault_cow_copies [OF ok that assms(5) fl(3)] use refs
    unfolding fault_in_present [OF that fl(1,2)] pp by simp
  with pars chs pp data show ?thesis by (intro exI [of _ ?old]) simp
qed


section \<open>Instances\<close>

text \<open>An address space with one private area of two pages, and a kernel with two free frames.\<close>

definition demo_area :: vma where
  "demo_area = \<lparr>vstart = 0x400000, vend = 0x402000, vflags = VM_READ OR VM_WRITE, vfile = None, file_off = 0,
     file_bytes = 0, io_base = 0\<rparr>"

definition demo_mm :: mm where
  "demo_mm = mm_zero\<lparr>vmas := [demo_area], brk_start := 0x402000, brk := 0x402000, mmap_base := 0x7000000000\<rparr>"

definition demo_world :: vworld where
  "demo_world = \<lparr>pgs = pair_free, files = (\<lambda>_. 0), kallocs = [True, True], asid_state = asids_init, mmfr0 = 0,
     pread = (\<lambda>_ _ _. Inl EIO)\<rparr>"

lemma demo_mm_ok: "mm_ok demo_mm"
  by (simp add: mm_ok_def demo_mm_def demo_area_def mm_zero_def vmas_ok_def area_ok_def USER_VA_END_def aligned_def
      live_pte_def user_pte_def)

lemma demo_munmap: "\<exists>m' w'. do_munmap demo_mm 0x400000 0x1000 demo_world = Inr (None, m', w')"
  by (simp add: do_munmap_def demo_mm_def demo_area_def demo_world_def mm_zero_def ALIGN_UP_def PAGE_SIZE_def PAGE_OFF_def
      has_flag_def USER_VA_END_def unmap_region_def unmap_list.simps vma_split_def vma_clone_def kalloc_def Let_def
      zap_range.simps L1_INDEX_def)

theorem do_munmap_correct_witness:
  "\<exists>m' w'. do_munmap demo_mm 0x400000 0x1000 demo_world = Inr (None, m', w') \<and> mm_ok m' \<and>
     view (vmas m') 0x400000 = None \<and> view (vmas m') 0x401000 = view (vmas demo_mm) 0x401000"
proof -
  obtain m' w' where r: "do_munmap demo_mm 0x400000 0x1000 demo_world = Inr (None, m', w')" using demo_munmap by blast
  have a: "aligned 0x400000" "aligned 0x401000" "(0x400000 :: u64) < USER_VA_END" "(0x401000 :: u64) < USER_VA_END"
    "\<not> USER_VA_END < (0x401000 :: u64)" "(0x400000 :: u64) + ALIGN_UP 0x1000 PAGE_SIZE = 0x401000"
    by (simp_all add: aligned_def USER_VA_END_def ALIGN_UP_def PAGE_SIZE_def)
  note t = do_munmap_correct [OF demo_mm_ok r, unfolded a(6)]
  show ?thesis using r t a by (intro exI [of _ m'] exI [of _ w']) (auto dest: spec [of _ "0x400000"] spec [of _ "0x401000"])
qed



theorem vm_range_checks_missing_witness:
  "\<exists>m' w'. do_brk demo_mm 0x4000000000000000 demo_world = Inr (0x4000000000000000, m', w') \<and> \<not> vmas_ok (vmas m') \<and>
     do_mremap demo_mm 0x400000 0x1000 0xffffffffffffffff 0 demo_world
       = kbind (do_munmap demo_mm 0x400000 0x1000 demo_world) (\<lambda>(e, m1, w1). Inr (Inr 0x400000, m1, w1))"
proof -
  have h: "kallocs demo_world = True # [True]"
    "\<forall>v \<in> set (vmas demo_mm). 0x1000 \<le> vstart v \<and> vend v \<le> brk_start demo_mm"
    "brk demo_mm = brk_start demo_mm" "aligned (brk_start demo_mm)" "brk_start demo_mm < USER_VA_END"
    by (simp_all add: demo_world_def demo_mm_def demo_area_def USER_VA_END_def aligned_def)
  have o: "vma_find (vmas demo_mm) 0x400000 = Some 0 \<and> aligned 0x400000 \<and> 0x400000 + 0x1000 \<le> vend (vmas demo_mm ! 0) \<and>
      \<not> has_flag (vflags (vmas demo_mm ! 0)) VM_IO"
    by (simp add: demo_mm_def demo_area_def aligned_def has_flag_def vm_flag_defs)
  show ?thesis using vm_range_checks_missing [OF h, of "0x400000"] o by blast
qed

text \<open>Page tables that map the first page of the area to the given descriptor.\<close>

definition demo_tables :: "u64 \<Rightarrow> l1_table" where
  "demo_tables d = (\<lambda>i. None)(0 := Some (1048580, (\<lambda>i. None)(2 := Some (1048581, (\<lambda>i. 0)(0 := d)))))"

definition demo_pte :: u64 where
  "demo_pte = pfn_pa 1048578 OR pte_prot (vflags demo_area)"

lemma demo_pte_ok: "pte_pfn demo_pte = 1048578" "pte_valid demo_pte" "\<not> has_flag demo_pte PTE_SW_SHARED"
  using frame_pte [of 1048578 demo_pte "vflags demo_area"]
  by (simp_all add: demo_pte_def demo_area_def) (simp add: has_flag_def pfn_pa_def pte_prot_def vm_flag_defs pte_defs Let_def)

lemma demo_frame: "in_use (pgs demo_world) 1048578" "page_refs demo_world 1048578 = 1" "frames_ok demo_world"
proof -
  have "free_area (zones pair_free z) = (\<lambda>_. [])" if "z \<noteq> 2" for z
    using that by (simp add: pair_free_def free_block_def buddy_merge.simps all_busy_def zone_table_def pfn_zone_def
      add_free_cnt_def add_free_def del_free_def pfn_valid_def MAX_ORDER_def has_flag_def set_flag_def
      clear_flag_def pg_flag_defs boot_page_def Let_def unset_pow2 fun_eq_iff)
  then have "1048578 \<notin> free_set pair_free z" for z
    using pair_free_inv(2) by (cases "z = 2") (auto simp: free_set_def fblocks_def)
  then show "in_use (pgs demo_world) 1048578" by (auto simp: in_use_def demo_world_def)
  show "page_refs demo_world 1048578 = 1"
    by (simp add: page_refs_def demo_world_def pair_free_def free_block_def buddy_merge.simps all_busy_def zone_table_def pfn_zone_def
      add_free_cnt_def add_free_def del_free_def pfn_valid_def MAX_ORDER_def has_flag_def set_flag_def
      clear_flag_def pg_flag_defs boot_page_def Let_def unset_pow2 fun_eq_iff)
  show "frames_ok demo_world"
    using pair_free_inv(1)
    by (simp add: frames_ok_def demo_world_def pair_free_def free_block_def buddy_merge.simps all_busy_def zone_table_def pfn_zone_def
      add_free_cnt_def add_free_def del_free_def pfn_valid_def MAX_ORDER_def has_flag_def set_flag_def
      clear_flag_def pg_flag_defs boot_page_def Let_def unset_pow2 fun_eq_iff)
qed

theorem fork_write_isolated_witness:
  "\<exists>par ch w old. dup_page demo_area 0x400000 (demo_mm\<lparr>pgd := demo_tables demo_pte\<rparr>) (demo_mm\<lparr>pgd := demo_tables 0\<rparr>) demo_world
     = Inr (True, par, ch, w) \<and> user_pte (pgd par) 0x400000 = Some old \<and> user_pte (pgd ch) 0x400000 = Some old \<and>
     pte_pfn old = 1048578 \<and>
     (fault_in ch demo_area 0x400000 True w = Inr (Some ENOMEM, ch, w)
      \<or> (\<exists>ch2 w2. fault_in ch demo_area 0x400000 True w = Inr (None, ch2, w2) \<and> cow_copied 0x400000 old w ch2 w2))"
proof -
  let ?par = "demo_mm\<lparr>pgd := demo_tables demo_pte\<rparr>" and ?ch = "demo_mm\<lparr>pgd := demo_tables 0\<rparr>"
  have u: "user_pte (demo_tables d) 0x400000 = Some d" for d
    by (simp add: user_pte_def demo_tables_def L1_INDEX_def L2_INDEX_def L3_INDEX_def drop_bit_eq_div)
  have fl: "has_flag (vflags demo_area) VM_WRITE" "\<not> has_flag (vflags demo_area) VM_SHARED"
    by (simp_all add: demo_area_def has_flag_def vm_flag_defs)
  obtain par ch w where d: "dup_page demo_area 0x400000 ?par ?ch demo_world = Inr (True, par, ch, w)"
    using demo_pte_ok u by (simp add: dup_page_def user_pte_alloc_present [OF u] Let_def)
  have "user_pte (pgd ?par) 0x400000 = Some demo_pte" by (simp add: u)
  from fork_write_isolated [OF demo_frame(3) this demo_pte_ok(2,3) fl _ _ d] d demo_frame demo_pte_ok(1)
  show ?thesis by auto
qed
end
