(* ===== verification/Olux_File.thy ===== *)
theory Olux_File
  imports Olux_Prelude
begin

text \<open>
  Open files and descriptor tables (fs/file.c) and the system calls that only work on them (fs/syscalls.c).
  A file object keeps its reference count when it is freed, so that a use after free is visible.  The release
  operation of a file belongs to its driver and is the argument \<open>rel\<close>.  An operation with result \<open>None\<close> has no
  defined outcome: a release operation does not return, or an array is accessed outside its bounds.
\<close>

unbundle bit_operations_syntax

section \<open>State\<close>

definition O_RDONLY :: u32 where "O_RDONLY = 0"
definition O_WRONLY :: u32 where "O_WRONLY = 1"
definition O_RDWR :: u32 where "O_RDWR = 2"
definition O_ACCMODE :: u32 where "O_ACCMODE = 3"
definition O_APPEND :: u32 where "O_APPEND = 0x400"
definition O_NONBLOCK :: u32 where "O_NONBLOCK = 0x800"
definition O_ASYNC :: u32 where "O_ASYNC = 0x2000"
definition O_DIRECT :: u32 where "O_DIRECT = 0x10000"
definition O_NOATIME :: u32 where "O_NOATIME = 0x40000"
definition O_CLOEXEC :: u32 where "O_CLOEXEC = 0x80000"
definition FMODE_READ :: u32 where "FMODE_READ = 1"
definition FMODE_WRITE :: u32 where "FMODE_WRITE = 2"

text \<open>What the operations of a file are: the end of a channel (channel number and side), or anything else.\<close>

datatype fkind = PlainFile | ChanFile nat bool

record fobj =
  f_refs :: int
  f_freed :: bool
  f_kind :: fkind
  f_flags :: u32
  f_mode :: u32

record fdtable =
  t_refs :: int
  t_max :: nat
  fd :: "nat option list"
  cloexec :: "u64 list"

text \<open>
  The file objects by address, the outcomes of the coming small allocations, the number of blocks allocated
  and not freed, the descriptor table and the descriptor limit of the current process, and the files whose
  path and inode were given back.
\<close>

record fworld =
  fobjs :: "nat \<Rightarrow> fobj"
  nfiles :: nat
  allocs :: "bool list"
  heap :: int
  tab :: "fdtable option"
  nofile :: u64
  puts :: "nat list"

primrec ofold :: "('x \<Rightarrow> 's \<Rightarrow> 's option) \<Rightarrow> 'x list \<Rightarrow> 's \<Rightarrow> 's option" where
  "ofold g [] s = Some s"
| "ofold g (x # xs) s = Option.bind (g x s) (ofold g xs)"

lemma ofold_append: "ofold g (xs @ ys) s = Option.bind (ofold g xs s) (ofold g ys)"
proof (induction xs arbitrary: s)
  case (Cons x xs)
  then show ?case by (cases "g x s") simp_all
qed simp

definition kzalloc_ok :: "'a fworld_scheme \<Rightarrow> bool \<times> 'a fworld_scheme" where
  "kzalloc_ok w =
     (case allocs w of
        [] \<Rightarrow> (False, w)
      | ok # rest \<Rightarrow> (ok, w\<lparr>allocs := rest, heap := heap w + (if ok then 1 else 0)\<rparr>))"

definition kfreed :: "bool \<Rightarrow> 'a fworld_scheme \<Rightarrow> 'a fworld_scheme" where
  "kfreed b w = (if b then w\<lparr>heap := heap w - 1\<rparr> else w)"


section \<open>File objects\<close>

definition upd_file :: "nat \<Rightarrow> (fobj \<Rightarrow> fobj) \<Rightarrow> 'a fworld_scheme \<Rightarrow> 'a fworld_scheme" where
  "upd_file f g w = w\<lparr>fobjs := (fobjs w)(f := g (fobjs w f))\<rparr>"

definition file_alloc :: "'a fworld_scheme \<Rightarrow> nat option \<times> 'a fworld_scheme" where
  "file_alloc w =
     (case kzalloc_ok w of
        (False, w1) \<Rightarrow> (None, w1)
      | (True, w1) \<Rightarrow>
          (Some (nfiles w1),
           w1\<lparr>fobjs := (fobjs w1)(nfiles w1 := \<lparr>f_refs = 1, f_freed = False, f_kind = PlainFile, f_flags = 0, f_mode = 0\<rparr>),
              nfiles := nfiles w1 + 1\<rparr>))"

definition file_get :: "nat \<Rightarrow> 'a fworld_scheme \<Rightarrow> 'a fworld_scheme" where
  "file_get f = upd_file f (\<lambda>x. x\<lparr>f_refs := f_refs x + 1\<rparr>)"

definition file_put :: "(nat \<Rightarrow> 'a fworld_scheme \<Rightarrow> 'a fworld_scheme option) \<Rightarrow> nat option \<Rightarrow> 'a fworld_scheme \<Rightarrow> 'a fworld_scheme option" where
  "file_put rel fo w =
     (case fo of
        None \<Rightarrow> Some w
      | Some f \<Rightarrow>
          let w1 = upd_file f (\<lambda>x. x\<lparr>f_refs := f_refs x - 1\<rparr>) w in
          if f_refs (fobjs w1 f) > 0 then Some w1
          else Option.bind (rel f w1) (\<lambda>w2.
            Some (kfreed True (upd_file f (\<lambda>x. x\<lparr>f_freed := True\<rparr>) (w2\<lparr>puts := puts w2 @ [f]\<rparr>)))))"


section \<open>Descriptor tables\<close>

definition div_round_up :: "nat \<Rightarrow> nat \<Rightarrow> nat" where
  "div_round_up n d = (n + d - 1) div d"

definition fdtable_alloc :: "nat \<Rightarrow> 'a fworld_scheme \<Rightarrow> fdtable option \<times> 'a fworld_scheme" where
  "fdtable_alloc mx w =
     (case kzalloc_ok w of
        (False, w1) \<Rightarrow> (None, w1)
      | (True, w1) \<Rightarrow>
          (case kzalloc_ok w1 of (ok2, w2) \<Rightarrow>
             (case kzalloc_ok w2 of (ok3, w3) \<Rightarrow>
                if \<not> ok2 \<or> \<not> ok3 then (None, kfreed True (kfreed ok3 (kfreed ok2 w3)))
                else (Some \<lparr>t_refs = 1, t_max = mx, fd = replicate mx None, cloexec = replicate (div_round_up mx 64) 0\<rparr>, w3))))"

definition get_slot :: "nat option \<Rightarrow> 'a fworld_scheme \<Rightarrow> 'a fworld_scheme" where
  "get_slot s w = (case s of None \<Rightarrow> w | Some f \<Rightarrow> file_get f w)"

definition fdtable_dup :: "fdtable \<Rightarrow> 'a fworld_scheme \<Rightarrow> fdtable option \<times> 'a fworld_scheme" where
  "fdtable_dup src w =
     (case fdtable_alloc (t_max src) w of
        (None, w1) \<Rightarrow> (None, w1)
      | (Some t, w1) \<Rightarrow>
          (Some (t\<lparr>fd := take (t_max src) (fd src), cloexec := take (div_round_up (t_max src) 64) (cloexec src)\<rparr>),
           fold get_slot (take (t_max src) (fd src)) w1))"

text \<open>The table is returned when other references to it are left.\<close>

definition fdtable_put :: "(nat \<Rightarrow> 'a fworld_scheme \<Rightarrow> 'a fworld_scheme option) \<Rightarrow> fdtable option \<Rightarrow> 'a fworld_scheme \<Rightarrow> (fdtable option \<times> 'a fworld_scheme) option" where
  "fdtable_put rel to w =
     (case to of
        None \<Rightarrow> Some (None, w)
      | Some t \<Rightarrow>
          let t1 = t\<lparr>t_refs := t_refs t - 1\<rparr> in
          if t_refs t1 > 0 then Some (Some t1, w)
          else Option.bind (ofold (file_put rel) (take (t_max t) (fd t)) w) (\<lambda>w1.
            Some (None, kfreed True (kfreed True (kfreed True w1)))))"

definition ce_bit :: "fdtable \<Rightarrow> nat \<Rightarrow> bool" where
  "ce_bit t i \<longleftrightarrow> has_flag (cloexec t ! (i div 64)) (push_bit (i mod 64) 1)"

definition set_ce :: "nat \<Rightarrow> bool \<Rightarrow> fdtable \<Rightarrow> fdtable" where
  "set_ce i b t =
     t\<lparr>cloexec := (cloexec t)[i div 64 :=
        (if b then cloexec t ! (i div 64) OR push_bit (i mod 64) 1
         else cloexec t ! (i div 64) AND NOT (push_bit (i mod 64) 1))]\<rparr>"

definition coe_step :: "(nat \<Rightarrow> 'a fworld_scheme \<Rightarrow> 'a fworld_scheme option) \<Rightarrow> nat \<Rightarrow> fdtable \<times> 'a fworld_scheme \<Rightarrow> (fdtable \<times> 'a fworld_scheme) option" where
  "coe_step rel i = (\<lambda>(t, w).
     if fd t ! i \<noteq> None \<and> ce_bit t i
     then Option.bind (file_put rel (fd t ! i) w) (\<lambda>w1. Some (set_ce i False (t\<lparr>fd := (fd t)[i := None]\<rparr>), w1))
     else Some (t, w))"

definition fdtable_close_on_exec :: "(nat \<Rightarrow> 'a fworld_scheme \<Rightarrow> 'a fworld_scheme option) \<Rightarrow> fdtable \<Rightarrow> 'a fworld_scheme \<Rightarrow> (fdtable \<times> 'a fworld_scheme) option" where
  "fdtable_close_on_exec rel t w = ofold (coe_step rel) [0..<t_max t] (t, w)"

definition slot :: "fdtable \<Rightarrow> int \<Rightarrow> nat option" where
  "slot t i = (if i < 0 \<or> i \<ge> int (t_max t) then None else fd t ! nat i)"

definition fget :: "int \<Rightarrow> 'a fworld_scheme \<Rightarrow> nat option \<times> 'a fworld_scheme" where
  "fget i w =
     (case tab w of
        None \<Rightarrow> (None, w)
      | Some t \<Rightarrow> (case slot t i of None \<Rightarrow> (None, w) | Some f \<Rightarrow> (Some f, file_get f w)))"

function fd_scan :: "fdtable \<Rightarrow> nat \<Rightarrow> nat \<Rightarrow> nat option" where
  "fd_scan t i limit =
     (if i < limit then if fd t ! i = None then Some i else fd_scan t (i + 1) limit else None)"
  by pat_completeness auto
termination by (relation "measure (\<lambda>(t, i, limit). limit - i)") auto

declare fd_scan.simps [simp del]

text \<open>The first descriptor wanted is not negative: the callers pass constants or a value they checked.\<close>

definition fd_install :: "nat \<Rightarrow> nat \<Rightarrow> bool \<Rightarrow> 'a fworld_scheme \<Rightarrow> nat sysres \<times> 'a fworld_scheme" where
  "fd_install f min_fd ce w =
     (case tab w of
        None \<Rightarrow> (Inl EBADF, w)
      | Some t \<Rightarrow>
          let limit = (if nofile w < of_nat (t_max t) then unat (nofile w) else t_max t) in
          case fd_scan t min_fd limit of
            None \<Rightarrow> (Inl EMFILE, w)
          | Some i \<Rightarrow> (Inr i, w\<lparr>tab := Some (set_ce i ce (t\<lparr>fd := (fd t)[i := Some f]\<rparr>))\<rparr>))"

definition fd_close :: "(nat \<Rightarrow> 'a fworld_scheme \<Rightarrow> 'a fworld_scheme option) \<Rightarrow> int \<Rightarrow> 'a fworld_scheme \<Rightarrow> (errno option \<times> 'a fworld_scheme) option" where
  "fd_close rel i w =
     (case tab w of
        None \<Rightarrow> Some (Some EBADF, w)
      | Some t \<Rightarrow>
          (case slot t i of
             None \<Rightarrow> Some (Some EBADF, w)
           | Some f \<Rightarrow>
               Option.bind (file_put rel (Some f) (w\<lparr>tab := Some (set_ce (nat i) False (t\<lparr>fd := (fd t)[nat i := None]\<rparr>))\<rparr>))
                 (\<lambda>w1. Some (None, w1))))"


section \<open>System calls\<close>

definition as_int :: "u64 \<Rightarrow> int" where
  "as_int x = sint (ucast x :: u32)"

definition sys_close :: "(nat \<Rightarrow> 'a fworld_scheme \<Rightarrow> 'a fworld_scheme option) \<Rightarrow> u64 \<Rightarrow> 'a fworld_scheme \<Rightarrow> (errno option \<times> 'a fworld_scheme) option" where
  "sys_close rel n w = fd_close rel (as_int n) w"

definition sys_dup :: "(nat \<Rightarrow> 'a fworld_scheme \<Rightarrow> 'a fworld_scheme option) \<Rightarrow> u64 \<Rightarrow> 'a fworld_scheme \<Rightarrow> (nat sysres \<times> 'a fworld_scheme) option" where
  "sys_dup rel n w =
     (case fget (as_int n) w of
        (None, w1) \<Rightarrow> Some (Inl EBADF, w1)
      | (Some f, w1) \<Rightarrow>
          (case fd_install f 0 False w1 of
             (Inl e, w2) \<Rightarrow> Option.bind (file_put rel (Some f) w2) (\<lambda>w3. Some (Inl e, w3))
           | (Inr i, w2) \<Rightarrow> Some (Inr i, w2)))"

text \<open>
  The new descriptor is checked after the conversion to an int and used before it: \<open>None\<close> when the index
  lies outside the array.
\<close>

definition sys_dup3 :: "(nat \<Rightarrow> 'a fworld_scheme \<Rightarrow> 'a fworld_scheme option) \<Rightarrow> u64 \<Rightarrow> u64 \<Rightarrow> u64 \<Rightarrow> 'a fworld_scheme \<Rightarrow> (u64 sysres \<times> 'a fworld_scheme) option" where
  "sys_dup3 rel oldfd newfd flags w =
     (if oldfd = newfd then Some (Inl EINVAL, w)
      else if has_flag flags (NOT (ucast O_CLOEXEC)) then Some (Inl EINVAL, w)
      else Option.bind (tab w) (\<lambda>t0.
        if as_int newfd < 0 \<or> as_int newfd \<ge> int (t_max t0) then Some (Inl EBADF, w)
        else case fget (as_int oldfd) w of
          (None, w1) \<Rightarrow> Some (Inl EBADF, w1)
        | (Some f, w1) \<Rightarrow>
            if unat newfd \<ge> length (fd t0) then None
            else Option.bind (file_put rel (fd t0 ! unat newfd) w1) (\<lambda>w2.
              Option.bind (tab w2) (\<lambda>t.
                Some (Inr newfd,
                  w2\<lparr>tab := Some (set_ce (unat newfd) (has_flag flags (ucast O_CLOEXEC)) (t\<lparr>fd := (fd t)[unat newfd := Some f]\<rparr>))\<rparr>)))))"

definition F_DUPFD :: u64 where "F_DUPFD = 0"
definition F_GETFD :: u64 where "F_GETFD = 1"
definition F_SETFD :: u64 where "F_SETFD = 2"
definition F_GETFL :: u64 where "F_GETFL = 3"
definition F_SETFL :: u64 where "F_SETFL = 4"
definition F_GETLK :: u64 where "F_GETLK = 5"
definition F_SETLK :: u64 where "F_SETLK = 6"
definition F_SETLKW :: u64 where "F_SETLKW = 7"
definition F_SETOWN :: u64 where "F_SETOWN = 8"
definition F_GETOWN :: u64 where "F_GETOWN = 9"
definition F_DUPFD_CLOEXEC :: u64 where "F_DUPFD_CLOEXEC = 1030"
definition F_GETPIPE_SZ :: u64 where "F_GETPIPE_SZ = 1032"
definition FD_CLOEXEC :: u64 where "FD_CLOEXEC = 1"

definition acc_bits :: "u32 \<Rightarrow> u32" where
  "acc_bits mode =
     (if has_flag mode FMODE_READ \<and> has_flag mode FMODE_WRITE then O_RDWR
      else if has_flag mode FMODE_WRITE then O_WRONLY else O_RDONLY)"

definition SETFL_BITS :: u32 where
  "SETFL_BITS = O_APPEND OR O_NONBLOCK OR O_ASYNC OR O_DIRECT OR O_NOATIME"

text \<open>
  The command on the referenced file \<open>f\<close>; \<open>uread\<close> and \<open>uwrite\<close> tell whether the lock structure at the user
  address can be read and written.  The bitmap is indexed by the descriptor as it was passed.
\<close>

definition fcntl_cmd ::
  "(nat \<Rightarrow> 'a fworld_scheme \<Rightarrow> 'a fworld_scheme option) \<Rightarrow> (u64 \<Rightarrow> bool) \<Rightarrow> (u64 \<Rightarrow> bool) \<Rightarrow> nat \<Rightarrow> u64 \<Rightarrow> u64 \<Rightarrow> u64 \<Rightarrow> fdtable \<Rightarrow>
     'a fworld_scheme \<Rightarrow> (u64 sysres \<times> 'a fworld_scheme) option" where
  "fcntl_cmd rel uread uwrite f n cmd arg t w =
     (if cmd = F_DUPFD \<or> cmd = F_DUPFD_CLOEXEC then
        if arg \<ge> of_nat (t_max t) then Some (Inl EINVAL, w)
        else (case fd_install f (unat arg) (cmd = F_DUPFD_CLOEXEC) (file_get f w) of
                (Inl e, w1) \<Rightarrow> Option.bind (file_put rel (Some f) w1) (\<lambda>w2. Some (Inl e, w2))
              | (Inr i, w1) \<Rightarrow> Some (Inr (of_nat i), w1))
      else if cmd = F_GETFD then
        if unat n div 64 \<ge> length (cloexec t) then None
        else Some (Inr (if ce_bit t (unat n) then 1 else 0), w)
      else if cmd = F_SETFD then
        if unat n div 64 \<ge> length (cloexec t) then None
        else Some (Inr 0, w\<lparr>tab := Some (set_ce (unat n) (has_flag arg FD_CLOEXEC) t)\<rparr>)
      else if cmd = F_GETFL then
        let x = fobjs w f in
        Some (Inr (ucast (((f_flags x OR acc_bits (f_mode x)) AND NOT O_ACCMODE) OR acc_bits (f_mode x))), w)
      else if cmd = F_SETFL then
        Some (Inr 0, upd_file f (\<lambda>x. x\<lparr>f_flags := (f_flags x AND NOT SETFL_BITS) OR (ucast arg AND SETFL_BITS)\<rparr>) w)
      else if cmd = F_GETLK then
        if \<not> uread arg then Some (Inl EFAULT, w) else if \<not> uwrite arg then Some (Inl EFAULT, w) else Some (Inr 0, w)
      else if cmd = F_SETLK \<or> cmd = F_SETLKW \<or> cmd = F_SETOWN then Some (Inr 0, w)
      else if cmd = F_GETOWN then Some (Inr 0, w)
      else if cmd = F_GETPIPE_SZ then Some (Inr 65536, w)
      else Some (Inl EINVAL, w))"

definition sys_fcntl ::
  "(nat \<Rightarrow> 'a fworld_scheme \<Rightarrow> 'a fworld_scheme option) \<Rightarrow> (u64 \<Rightarrow> bool) \<Rightarrow> (u64 \<Rightarrow> bool) \<Rightarrow> u64 \<Rightarrow> u64 \<Rightarrow> u64 \<Rightarrow>
     'a fworld_scheme \<Rightarrow> (u64 sysres \<times> 'a fworld_scheme) option" where
  "sys_fcntl rel uread uwrite n cmd arg w =
     Option.bind (tab w) (\<lambda>t.
       case fget (as_int n) w of
         (None, w1) \<Rightarrow> Some (Inl EBADF, w1)
       | (Some f, w1) \<Rightarrow>
           Option.bind (fcntl_cmd rel uread uwrite f n cmd arg t w1) (\<lambda>(r, w2).
             Option.bind (file_put rel (Some f) w2) (\<lambda>w3. Some (r, w3))))"


section \<open>Descriptor tables as functions\<close>

definition table_ok :: "fdtable \<Rightarrow> bool" where
  "table_ok t \<longleftrightarrow> length (fd t) = t_max t \<and> length (cloexec t) = div_round_up (t_max t) 64 \<and> t_max t < 2 ^ 31"

lemma word_index: "i < n \<Longrightarrow> i div 64 < div_round_up n 64"
  by (simp add: div_round_up_def less_eq_div_iff_mult_less_eq flip: Suc_le_eq)

lemma ce_bit_iff: "ce_bit t i \<longleftrightarrow> bit (cloexec t ! (i div 64)) (i mod 64)"
  by (simp add: ce_bit_def has_flag_def bit_iff_and_push_bit_not_eq_0)

lemma set_ce_simps [simp]:
  "fd (set_ce i b t) = fd t" "t_max (set_ce i b t) = t_max t" "t_refs (set_ce i b t) = t_refs t"
  "length (cloexec (set_ce i b t)) = length (cloexec t)"
  by (simp_all add: set_ce_def)

lemma ce_bit_set:
  assumes "i div 64 < length (cloexec t)"
  shows "ce_bit (set_ce i b t) j = (if j = i then b else ce_bit t j)"
proof (cases "j div 64 = i div 64")
  case True
  then have "j mod 64 = i mod 64 \<longleftrightarrow> j = i"
    using div_mult_mod_eq [of j 64] div_mult_mod_eq [of i 64] by auto
  moreover have "j mod 64 < 64" by simp
  ultimately show ?thesis using True assms by (auto simp: ce_bit_iff set_ce_def bit_simps)
next
  case False
  then show ?thesis by (auto simp: ce_bit_iff set_ce_def)
qed

lemma ce_bit_fd [simp]: "ce_bit (t\<lparr>fd := x\<rparr>) i = ce_bit t i"
  by (simp add: ce_bit_def)

lemma set_ce_ok: "table_ok (set_ce i b t) = table_ok t"
  by (simp add: table_ok_def)

text \<open>The table with one entry replaced.\<close>

lemma table_update:
  fixes x :: "nat option" and b :: bool
  assumes "table_ok t" "i < t_max t"
  defines "t' \<equiv> set_ce i b (t\<lparr>fd := (fd t)[i := x]\<rparr>)"
  shows "table_ok t'" "t_max t' = t_max t" "j < t_max t \<Longrightarrow> fd t' ! j = (if j = i then x else fd t ! j)"
    "ce_bit t' j = (if j = i then b else ce_bit t j)"
proof -
  have i: "i div 64 < length (cloexec t)" using assms(1,2) word_index by (simp add: table_ok_def)
  show "table_ok t'" using assms(1) by (simp add: t'_def table_ok_def)
  show "t_max t' = t_max t" by (simp add: t'_def)
  show "fd t' ! j = (if j = i then x else fd t ! j)" if "j < t_max t"
    using assms(1,2) that by (auto simp: t'_def table_ok_def)
  show "ce_bit t' j = (if j = i then b else ce_bit t j)" using i by (simp add: t'_def ce_bit_set)
qed

lemma fd_scan_spec:
  "case fd_scan t i limit of
     None \<Rightarrow> \<forall>j. i \<le> j \<and> j < limit \<longrightarrow> fd t ! j \<noteq> None
   | Some k \<Rightarrow> i \<le> k \<and> k < limit \<and> fd t ! k = None \<and> (\<forall>j. i \<le> j \<and> j < k \<longrightarrow> fd t ! j \<noteq> None)"
proof (induction t i limit rule: fd_scan.induct)
  case (1 t i limit)
  show ?case
  proof (cases "i < limit \<and> fd t ! i \<noteq> None")
    case True
    then have s: "fd_scan t i limit = fd_scan t (i + 1) limit" by (subst fd_scan.simps) auto
    have up: "fd t ! j \<noteq> None" if "i \<le> j" "i + 1 \<le> j \<longrightarrow> fd t ! j \<noteq> None" for j
      using that True by (cases "j = i") simp_all
    have ih: "case fd_scan t (i + 1) limit of
        None \<Rightarrow> \<forall>j. i + 1 \<le> j \<and> j < limit \<longrightarrow> fd t ! j \<noteq> None
      | Some k \<Rightarrow> i + 1 \<le> k \<and> k < limit \<and> fd t ! k = None \<and> (\<forall>j. i + 1 \<le> j \<and> j < k \<longrightarrow> fd t ! j \<noteq> None)"
      by (rule 1) (use True in simp_all)
    show ?thesis
    proof (cases "fd_scan t (i + 1) limit")
      case None
      then have "\<And>j. i + 1 \<le> j \<and> j < limit \<longrightarrow> fd t ! j \<noteq> None" using ih by (simp del: not_None_eq)
      then have "\<forall>j. i \<le> j \<and> j < limit \<longrightarrow> fd t ! j \<noteq> None" using up by blast
      then show ?thesis unfolding s None by (simp del: not_None_eq)
    next
      case (Some k)
      then have "i + 1 \<le> k" "k < limit" "fd t ! k = None" "\<And>j. i + 1 \<le> j \<Longrightarrow> j < k \<Longrightarrow> fd t ! j \<noteq> None"
        using ih by (simp_all del: not_None_eq)
      moreover from this have "\<forall>j. i \<le> j \<and> j < k \<longrightarrow> fd t ! j \<noteq> None" using up by blast
      ultimately show ?thesis unfolding s Some by (simp del: not_None_eq)
    qed
  next
    case False
    then have "fd_scan t i limit = (if i < limit then Some i else None)" by (subst fd_scan.simps) simp
    then show ?thesis using False by auto
  qed
qed

text \<open>
  C33: A new descriptor is the lowest free one at or above the one asked for and below the limit of the process
  and of the table; its close-on-exec flag is as asked, no other descriptor changes, and the call fails only
  when there is no free one.
\<close>

theorem fd_install_lowest:
  assumes "tab w = Some t" "table_ok t"
  defines "limit \<equiv> min (t_max t) (unat (nofile w))"
  shows "case fd_install f min_fd ce w of
     (Inl e, w') \<Rightarrow> e = EMFILE \<and> w' = w \<and> (\<forall>j. min_fd \<le> j \<and> j < limit \<longrightarrow> fd t ! j \<noteq> None)
   | (Inr i, w') \<Rightarrow> min_fd \<le> i \<and> i < limit \<and> fd t ! i = None \<and> (\<forall>j. min_fd \<le> j \<and> j < i \<longrightarrow> fd t ! j \<noteq> None) \<and>
       (\<exists>t'. w' = w\<lparr>tab := Some t'\<rparr> \<and> table_ok t' \<and> t_max t' = t_max t \<and>
         (\<forall>j < t_max t. fd t' ! j = (if j = i then Some f else fd t ! j) \<and> ce_bit t' j = (if j = i then ce else ce_bit t j)))"
proof -
  have "unat (of_nat (t_max t) :: u64) = t_max t"
    using assms(2) by (simp add: table_ok_def unat_of_nat)
  then have l: "(if nofile w < of_nat (t_max t) then unat (nofile w) else t_max t) = limit"
    by (auto simp: limit_def word_less_nat_alt)
  note sc = fd_scan_spec [where t = t and i = min_fd and limit = limit]
  show ?thesis
  proof (cases "fd_scan t min_fd limit")
    case None
    then show ?thesis using sc assms(1) l by (simp add: fd_install_def Let_def)
  next
    case (Some i)
    let ?t' = "set_ce i ce (t\<lparr>fd := (fd t)[i := Some f]\<rparr>)"
    have i: "i < t_max t" using sc Some by (simp add: limit_def)
    note u = table_update [OF assms(2) i]
    have "fd_install f min_fd ce w = (Inr i, w\<lparr>tab := Some ?t'\<rparr>)"
      using assms(1) l Some by (simp add: fd_install_def Let_def)
    moreover have "\<exists>t'. w\<lparr>tab := Some ?t'\<rparr> = w\<lparr>tab := Some t'\<rparr> \<and> table_ok t' \<and> t_max t' = t_max t \<and>
         (\<forall>j < t_max t. fd t' ! j = (if j = i then Some f else fd t ! j) \<and> ce_bit t' j = (if j = i then ce else ce_bit t j))"
      using u by (intro exI [of _ ?t']) simp
    ultimately show ?thesis using sc Some by simp
  qed
qed


section \<open>References\<close>

text \<open>Every file of the list has one more reference per occurrence.\<close>

definition more_refs :: "nat option list \<Rightarrow> 'a fworld_scheme \<Rightarrow> 'a fworld_scheme" where
  "more_refs xs w = w\<lparr>fobjs := (\<lambda>f. (fobjs w f)\<lparr>f_refs := f_refs (fobjs w f) + int (count_list xs (Some f))\<rparr>)\<rparr>"

lemma more_refs_simps:
  "more_refs [] w = w" "more_refs (None # xs) w = more_refs xs w"
  "more_refs (Some f # xs) w = more_refs xs (file_get f w)"
  by (simp_all add: more_refs_def file_get_def upd_file_def fun_eq_iff)

lemma fold_get_slot: "fold get_slot xs w = more_refs xs w"
proof (induction xs arbitrary: w)
  case Nil
  show ?case by (simp add: more_refs_simps)
next
  case (Cons x xs)
  then show ?case by (cases x) (simp_all add: more_refs_simps get_slot_def)
qed

lemma file_put_more:
  assumes "0 < f_refs (fobjs (more_refs xs w) f)"
  shows "file_put rel (Some f) (more_refs (Some f # xs) w) = Some (more_refs xs w)"
  using assms by (simp add: file_put_def more_refs_def upd_file_def Let_def fun_eq_iff)

lemma put_more_refs:
  assumes "\<forall>f. Some f \<in> set xs \<longrightarrow> 0 < f_refs (fobjs w f)"
  shows "ofold (file_put rel) xs (more_refs xs w) = Some w"
  using assms
proof (induction xs)
  case Nil
  show ?case by (simp add: more_refs_simps)
next
  case (Cons x xs)
  show ?case
  proof (cases x)
    case None
    then show ?thesis using Cons by (simp add: more_refs_simps file_put_def)
  next
    case (Some f)
    have "0 < f_refs (fobjs w f)" using Cons.prems Some by simp
    then have "0 < f_refs (fobjs (more_refs xs w) f)" by (simp add: more_refs_def)
    then show ?thesis using Cons Some by (simp add: file_put_more)
  qed
qed

text \<open>
  C32: fork and exit.  Duplicating a descriptor table gives a table with the same descriptors and flags and one more
  reference to a file for each descriptor that names it; releasing the copy again gives back exactly these
  references and all memory, and releases no file.
\<close>

theorem fdtable_dup_put_roundtrip:
  assumes "table_ok t" "allocs w = True # True # True # as" "\<forall>f. Some f \<in> set (fd t) \<longrightarrow> 1 \<le> f_refs (fobjs w f)"
  shows "\<exists>t' w'. fdtable_dup t w = (Some t', w') \<and> table_ok t' \<and> t_max t' = t_max t \<and> fd t' = fd t \<and> cloexec t' = cloexec t \<and>
    (\<forall>f. f_refs (fobjs w' f) = f_refs (fobjs w f) + int (count_list (fd t) (Some f))) \<and>
    fdtable_put rel (Some t') w' = Some (None, w\<lparr>allocs := as\<rparr>)"
proof -
  let ?t' = "t\<lparr>t_refs := 1\<rparr>" and ?w = "w\<lparr>allocs := as, heap := 3 + heap w\<rparr>"
  have dup: "fdtable_dup t w = (Some ?t', more_refs (fd t) ?w)"
    using assms(1,2)
    by (simp add: fdtable_dup_def fdtable_alloc_def kzalloc_ok_def table_ok_def fold_get_slot)
  have "ofold (file_put rel) (fd t) (more_refs (fd t) ?w) = Some ?w"
    using assms(3) by (intro put_more_refs) auto
  then have "fdtable_put rel (Some ?t') (more_refs (fd t) ?w) = Some (None, w\<lparr>allocs := as\<rparr>)"
    using assms(1) by (simp add: fdtable_put_def Let_def table_ok_def kfreed_def)
  then show ?thesis using dup assms(1)
    by (intro exI [of _ ?t'] exI [of _ "more_refs (fd t) ?w"]) (simp add: table_ok_def more_refs_def)
qed

text \<open>
  exec.  Closing the descriptors marked close-on-exec empties exactly these, clears their marks, and leaves every
  other descriptor and mark; it always returns when the release operations do.
\<close>

lemma close_on_exec_correct:
  assumes "table_ok t" "\<And>f w. rel f w \<noteq> None"
  shows "\<exists>t' w'. fdtable_close_on_exec rel t w = Some (t', w') \<and> table_ok t' \<and> t_max t' = t_max t \<and>
    (\<forall>i < t_max t. fd t' ! i = (if ce_bit t i then None else fd t ! i) \<and>
      ce_bit t' i = (ce_bit t i \<and> fd t ! i = None))"
proof -
  have put: "file_put rel x w \<noteq> None" for x w
    by (cases x) (simp_all add: file_put_def Let_def assms(2) bind_eq_None_conv del: not_None_eq)
  have "\<exists>t' w'. ofold (coe_step rel) [0..<n] (t, w) = Some (t', w') \<and> table_ok t' \<and> t_max t' = t_max t \<and>
    (\<forall>i < t_max t. fd t' ! i = (if i < n \<and> ce_bit t i then None else fd t ! i) \<and>
      ce_bit t' i = (ce_bit t i \<and> (i < n \<longrightarrow> fd t ! i = None)))" if "n \<le> t_max t" for n
    using that
  proof (induction n)
    case 0
    then show ?case using assms(1) by simp
  next
    case (Suc n)
    then obtain t1 w1 where ih: "ofold (coe_step rel) [0..<n] (t, w) = Some (t1, w1)" "table_ok t1" "t_max t1 = t_max t"
      "\<forall>i < t_max t. fd t1 ! i = (if i < n \<and> ce_bit t i then None else fd t ! i) \<and>
        ce_bit t1 i = (ce_bit t i \<and> (i < n \<longrightarrow> fd t ! i = None))"
      by auto
    have n: "n < t_max t1" "fd t1 ! n = fd t ! n" "ce_bit t1 n = ce_bit t n" using ih Suc.prems by auto
    show ?case
    proof (cases "fd t1 ! n \<noteq> None \<and> ce_bit t1 n")
      case True
      obtain w2 where w2: "file_put rel (fd t1 ! n) w1 = Some w2" using put by blast
      let ?t2 = "set_ce n False (t1\<lparr>fd := (fd t1)[n := None]\<rparr>)"
      note u = table_update [OF ih(2) n(1), where b = False and x = None]
      have "ofold (coe_step rel) [0..<Suc n] (t, w) = Some (?t2, w2)"
        using True ih(1) w2 by (simp add: ofold_append coe_step_def)
      then show ?thesis using u ih(3,4) True n Suc.prems
        by (intro exI [of _ ?t2] exI [of _ w2]) (auto simp: less_Suc_eq)
    next
      case False
      then have "ofold (coe_step rel) [0..<Suc n] (t, w) = Some (t1, w1)"
        using ih(1) by (auto simp: ofold_append coe_step_def)
      then show ?thesis using ih False n Suc.prems
        by (intro exI [of _ t1] exI [of _ w1]) (auto simp: less_Suc_eq)
    qed
  qed
  from this [of "t_max t"] show ?thesis by (auto simp: fdtable_close_on_exec_def)
qed

text \<open>
  C34: Descriptors beyond 32 bits.  dup3 and the close-on-exec commands of fcntl check the descriptor as an int and use
  all 64 bits of it as an index: a descriptor whose low half is valid and whose high half is not zero passes the
  checks, and the access goes outside the arrays of the table.
\<close>

theorem wide_fd_out_of_bounds:
  assumes "tab w = Some t" "table_ok t" "fd t ! 0 = Some f" "2 \<le> t_max t"
  shows "sys_dup3 rel 0 0x100000001 0 w = None \<and> sys_fcntl rel ur uw 0x100000000 F_SETFD arg w = None
    \<and> sys_fcntl rel ur uw 0x100000000 F_GETFD arg w = None"
proof -
  have g: "fget 0 w = (Some f, file_get f w)" using assms by (simp add: fget_def slot_def)
  have "(t_max t + 63) div 64 \<le> (0x80000000 + 63) div 64"
    using assms(2) by (intro div_le_mono) (simp add: table_ok_def)
  then have b: "length (fd t) < 0x100000000" "length (cloexec t) < 0x4000000"
    using assms(2) by (simp_all add: table_ok_def div_round_up_def)
  have "sys_dup3 rel 0 0x100000001 0 w = None"
    using assms g b by (simp add: sys_dup3_def as_int_def)
  moreover have "sys_fcntl rel ur uw 0x100000000 F_SETFD arg w = None" "sys_fcntl rel ur uw 0x100000000 F_GETFD arg w = None"
    using assms g b by (simp_all add: sys_fcntl_def fcntl_cmd_def as_int_def F_SETFD_def F_GETFD_def F_DUPFD_def F_DUPFD_CLOEXEC_def)
  ultimately show ?thesis by simp
qed


section \<open>Instances\<close>

text \<open>Four descriptors: 0 and 2 name file 0, 1 names file 1 and is marked close-on-exec.\<close>

definition demo_table :: fdtable where
  "demo_table = \<lparr>t_refs = 1, t_max = 4, fd = [Some 0, Some 1, Some 0, None], cloexec = [2]\<rparr>"

definition demo_files :: fworld where
  "demo_files = \<lparr>fobjs = (\<lambda>f. \<lparr>f_refs = (if f = 0 then 2 else 1), f_freed = False, f_kind = PlainFile, f_flags = 0, f_mode = 3\<rparr>),
     nfiles = 2, allocs = [True, True, True], heap = 5, tab = Some demo_table, nofile = 1024, puts = []\<rparr>"

lemma demo_table_ok: "table_ok demo_table"
  by (simp add: table_ok_def demo_table_def div_round_up_def)

lemma demo_ce: "ce_bit demo_table 0 = False" "ce_bit demo_table 1 = True" "ce_bit demo_table 2 = False"
  by (simp_all add: ce_bit_def demo_table_def has_flag_def)

theorem fd_install_lowest_witness:
  "\<exists>w'. fd_install 1 0 True demo_files = (Inr 3, w')"
proof -
  have r: "fd_install 1 0 True demo_files = (Inr 3, snd (fd_install 1 0 True demo_files))"
    by (simp add: fd_install_def demo_files_def demo_table_def fd_scan.simps)
  show ?thesis using fd_install_lowest [OF _ demo_table_ok, of demo_files 1 0 True] r by (auto simp: demo_files_def)
qed

theorem fdtable_dup_put_roundtrip_witness:
  "\<exists>t' w'. fdtable_dup demo_table demo_files = (Some t', w') \<and> f_refs (fobjs w' 0) = 4 \<and>
     fdtable_put (\<lambda>f w. Some w) (Some t') w' = Some (None, demo_files\<lparr>allocs := []\<rparr>)"
proof -
  have "allocs demo_files = True # True # True # []"
    "\<forall>f. Some f \<in> set (fd demo_table) \<longrightarrow> 1 \<le> f_refs (fobjs demo_files f)"
    by (auto simp: demo_files_def)
  from fdtable_dup_put_roundtrip [OF demo_table_ok this, of "\<lambda>f w. Some w"]
  show ?thesis by (fastforce simp: demo_table_def demo_files_def)
qed

theorem wide_fd_out_of_bounds_witness:
  "as_int 0x100000001 = 1 \<and> sys_dup3 (\<lambda>f w. Some w) 0 0x100000001 0 demo_files = None \<and>
     sys_fcntl (\<lambda>f w. Some w) (\<lambda>_. True) (\<lambda>_. True) 0x100000000 F_SETFD 1 demo_files = None"
  using wide_fd_out_of_bounds [OF _ demo_table_ok, of demo_files 0 "\<lambda>f w. Some w" "\<lambda>_. True" "\<lambda>_. True" 1]
  by (simp add: as_int_def demo_files_def demo_table_def)

end
