(* ===== verification/Olux_Channel.thy ===== *)
theory Olux_Channel
  imports Olux_File
begin

text \<open>
  Message channels (kernel/channel.c).  The state extends that of the open files: a channel end is a file, and
  messages carry references to files.  The two sides of a channel are booleans.  What other threads do while a
  thread sleeps is the argument \<open>sleeps\<close>, one entry per sleep with the state on wake-up; when the entries run out
  the thread is still asleep.  The release operation of files that are not channel ends is the argument \<open>oth\<close>.
\<close>

unbundle bit_operations_syntax

section \<open>State\<close>

definition CHAN_MAX_QUEUED :: nat where "CHAN_MAX_QUEUED = 256"
definition CHAN_MAX_BYTES :: u64 where "CHAN_MAX_BYTES = 1024 * 1024"
definition OLUX_MSG_MAX :: u64 where "OLUX_MSG_MAX = 64 * 1024"
definition OLUX_MSG_MAX_FDS :: u64 where "OLUX_MSG_MAX_FDS = 8"

record chan_msg =
  m_len :: u64
  m_files :: "nat list"
  m_pid :: int
  m_uid :: u32
  m_gid :: u32
  m_data :: "u8 list"

record chan =
  q :: "bool \<Rightarrow> chan_msg list"
  nq :: "bool \<Rightarrow> nat"
  qbytes :: "bool \<Rightarrow> u64"
  closed :: "bool \<Rightarrow> bool"
  c_refs :: int
  c_freed :: bool

record olux_msg_info =
  i_len :: u32
  i_nfds :: nat
  i_pid :: int
  i_uid :: u32
  i_gid :: u32

text \<open>What system calls write to user memory.\<close>

datatype uout = OutBytes u64 "u8 list" | OutInts u64 "int list" | OutInfo u64 olux_msg_info

record cworld = fworld +
  chans :: "nat \<Rightarrow> chan"
  nchans :: nat
  wakes :: "(nat \<times> bool) list"
  sigpipes :: nat
  ident :: "(int \<times> u32 \<times> u32) option"
  uouts :: "uout list"

text \<open>User memory: the bytes and the integers that can be read, and the ranges that can be written.\<close>

record umem =
  uread :: "u64 \<Rightarrow> nat \<Rightarrow> u8 list option"
  uread_s32 :: "u64 \<Rightarrow> int option"
  uwritable :: "u64 \<Rightarrow> nat \<Rightarrow> bool"

datatype csleep = CWoken cworld | CSignalled cworld | CTimedOut cworld

datatype 'r outcome = Ret 'r | Asleep

definition upd_chan :: "nat \<Rightarrow> (chan \<Rightarrow> chan) \<Rightarrow> cworld \<Rightarrow> cworld" where
  "upd_chan c g w = w\<lparr>chans := (chans w)(c := g (chans w c))\<rparr>"

definition wake :: "nat \<Rightarrow> bool \<Rightarrow> cworld \<Rightarrow> cworld" where
  "wake c s w = w\<lparr>wakes := wakes w @ [(c, s)]\<rparr>"


section \<open>Release\<close>

definition free_msg :: "(nat option \<Rightarrow> cworld \<Rightarrow> cworld option) \<Rightarrow> chan_msg \<Rightarrow> cworld \<Rightarrow> cworld option" where
  "free_msg put m w = Option.bind (ofold put (map Some (m_files m)) w) (\<lambda>w1. Some (kfreed True w1))"

definition chan_release :: "(nat option \<Rightarrow> cworld \<Rightarrow> cworld option) \<Rightarrow> nat \<Rightarrow> bool \<Rightarrow> cworld \<Rightarrow> cworld option" where
  "chan_release put c me w =
     (let ch = chans w c;
          dropped = q ch me;
          last = (c_refs ch - 1 = 0);
          w1 = upd_chan c (\<lambda>x. x\<lparr>closed := (closed x)(me := True), q := (q x)(me := []), nq := (nq x)(me := 0),
                 qbytes := (qbytes x)(me := 0), c_refs := c_refs x - 1\<rparr>) w
      in Option.bind (ofold (free_msg put) dropped w1) (\<lambda>w2.
           let w3 = wake c (\<not> me) w2;
               w4 = (if last then kfreed True (upd_chan c (\<lambda>x. x\<lparr>c_freed := True\<rparr>) w3) else w3)
           in Some (kfreed True w4)))"

definition release_op :: "(nat \<Rightarrow> cworld \<Rightarrow> cworld) \<Rightarrow> (nat option \<Rightarrow> cworld \<Rightarrow> cworld option) \<Rightarrow> nat \<Rightarrow> cworld \<Rightarrow> cworld option" where
  "release_op oth put f w =
     (case f_kind (fobjs w f) of
        PlainFile \<Rightarrow> Some (oth f w)
      | ChanFile c me \<Rightarrow> chan_release put c me w)"

lemma ofold_mono [partial_function_mono]:
  assumes "\<And>x s. mono_option (\<lambda>F. g F x s)"
  shows "mono_option (\<lambda>F. ofold (g F) xs s)"
proof (induction xs arbitrary: s)
  case Nil
  show ?case by (simp add: option.const_mono)
next
  case (Cons x xs)
  show ?case unfolding ofold.simps by (intro bind_mono assms Cons)
qed

lemma file_put_mono [partial_function_mono]:
  assumes "\<And>f s. mono_option (\<lambda>F. rel F f s)"
  shows "mono_option (\<lambda>F. file_put (rel F) fo w)"
  unfolding file_put_def Let_def
  by (cases fo) (auto intro!: if_mono bind_mono assms option.const_mono)

lemma release_op_mono [partial_function_mono]:
  assumes "\<And>f s. mono_option (\<lambda>F. put F f s)"
  shows "mono_option (\<lambda>F. release_op oth (put F) f w)"
  unfolding release_op_def chan_release_def free_msg_def Let_def
  by (cases "f_kind (fobjs w f)") (auto intro!: bind_mono ofold_mono assms option.const_mono)

text \<open>The last reference to a channel end drops the messages queued for it and the references they carry.\<close>

partial_function (option) fput :: "(nat \<Rightarrow> cworld \<Rightarrow> cworld) \<Rightarrow> nat option \<Rightarrow> cworld \<Rightarrow> cworld option" where
  "fput oth fo w = file_put (\<lambda>f w1. release_op oth (\<lambda>x w2. fput oth x w2) f w1) fo w"

abbreviation crel :: "(nat \<Rightarrow> cworld \<Rightarrow> cworld) \<Rightarrow> nat \<Rightarrow> cworld \<Rightarrow> cworld option" where
  "crel oth \<equiv> release_op oth (fput oth)"



section \<open>Endpoints\<close>

definition chan_poll :: "nat \<Rightarrow> bool \<Rightarrow> cworld \<Rightarrow> u32" where
  "chan_poll c me w =
     (let ch = chans w c; peer = (\<not> me);
          a = (if nq ch me \<noteq> 0 then POLLIN OR POLLRDNORM else 0)
      in if closed ch peer then a OR POLLHUP
         else if nq ch peer < CHAN_MAX_QUEUED \<and> qbytes ch peer < CHAN_MAX_BYTES then a OR (POLLOUT OR POLLWRNORM)
         else a)"

definition is_channel :: "nat \<Rightarrow> cworld \<Rightarrow> bool" where
  "is_channel f w \<longleftrightarrow> f_kind (fobjs w f) \<noteq> PlainFile"

definition chan_init :: chan where
  "chan_init = \<lparr>q = (\<lambda>_. []), nq = (\<lambda>_. 0), qbytes = (\<lambda>_. 0), closed = (\<lambda>_. False), c_refs = 2, c_freed = False\<rparr>"

definition drop_file :: "nat option \<Rightarrow> cworld \<Rightarrow> cworld" where
  "drop_file fo w = (case fo of None \<Rightarrow> w | Some f \<Rightarrow> kfreed True (upd_file f (\<lambda>x. x\<lparr>f_freed := True\<rparr>) w))"

definition chan_end_file :: "nat \<Rightarrow> bool \<Rightarrow> fobj \<Rightarrow> fobj" where
  "chan_end_file c side x = x\<lparr>f_kind := ChanFile c side, f_mode := FMODE_READ OR FMODE_WRITE, f_flags := O_RDWR\<rparr>"

definition chan_create_pair :: "cworld \<Rightarrow> (nat \<times> nat) sysres \<times> cworld" where
  "chan_create_pair w =
     (case kzalloc_ok w of (okc, w1) \<Rightarrow>
      case kzalloc_ok w1 of (oka, w2) \<Rightarrow>
      case kzalloc_ok w2 of (okb, w3) \<Rightarrow>
      case file_alloc w3 of (fa, w4) \<Rightarrow>
      case file_alloc w4 of (fb, w5) \<Rightarrow>
        (case (fa, fb) of
           (Some a, Some b) \<Rightarrow>
             if okc \<and> oka \<and> okb
             then let c = nchans w5;
                      w6 = w5\<lparr>chans := (chans w5)(c := chan_init), nchans := c + 1\<rparr>
                  in (Inr (a, b), upd_file b (chan_end_file c True) (upd_file a (chan_end_file c False) w6))
             else (Inl ENOMEM, drop_file fb (drop_file fa (kfreed okb (kfreed oka (kfreed okc w5)))))
         | _ \<Rightarrow> (Inl ENOMEM, drop_file fb (drop_file fa (kfreed okb (kfreed oka (kfreed okc w5)))))))"


section \<open>Sending\<close>

definition chan_room :: "chan \<Rightarrow> bool \<Rightarrow> u64 \<Rightarrow> bool" where
  "chan_room ch peer len \<longleftrightarrow> nq ch peer < CHAN_MAX_QUEUED \<and> qbytes ch peer + len \<le> CHAN_MAX_BYTES"

definition chan_enqueue :: "nat \<Rightarrow> bool \<Rightarrow> chan_msg \<Rightarrow> cworld \<Rightarrow> cworld" where
  "chan_enqueue c peer m = upd_chan c (\<lambda>x. x\<lparr>q := (q x)(peer := q x peer @ [m]), nq := (nq x)(peer := nq x peer + 1),
     qbytes := (qbytes x)(peer := qbytes x peer + m_len m)\<rparr>)"

fun send_loop ::
  "(nat \<Rightarrow> cworld \<Rightarrow> cworld) \<Rightarrow> csleep list \<Rightarrow> nat \<Rightarrow> nat \<Rightarrow> bool \<Rightarrow> bool \<Rightarrow> chan_msg \<Rightarrow> cworld \<Rightarrow> (errno option outcome \<times> cworld) option" where
  "send_loop oth sleeps f c side from_kernel m w =
     (let ch = chans w c; peer = (\<not> side) in
      if closed ch peer then
        Option.bind (free_msg (fput oth) m w) (\<lambda>w1.
          Some (Ret (Some EPIPE), if from_kernel then w1 else w1\<lparr>sigpipes := sigpipes w1 + 1\<rparr>))
      else if chan_room ch peer (m_len m) then Some (Ret None, wake c peer (chan_enqueue c peer m w))
      else if has_flag (f_flags (fobjs w f)) O_NONBLOCK then Some (Ret (Some EAGAIN), kfreed True w)
      else case sleeps of
          [] \<Rightarrow> Some (Asleep, w)
        | CSignalled w' # rest \<Rightarrow> Some (Ret (Some ERESTARTSYS), kfreed True w')
        | CWoken w' # rest \<Rightarrow> send_loop oth rest f c side from_kernel m w'
        | CTimedOut w' # rest \<Rightarrow> send_loop oth rest f c side from_kernel m w')"

declare send_loop.simps [simp del]

definition sender :: "bool \<Rightarrow> cworld \<Rightarrow> int \<times> u32 \<times> u32" where
  "sender from_kernel w = (case (if from_kernel then None else ident w) of None \<Rightarrow> (0, 0, 0) | Some i \<Rightarrow> i)"

definition msg_bytes :: "umem \<Rightarrow> u8 list option \<Rightarrow> u64 \<Rightarrow> u64 \<Rightarrow> u8 list option" where
  "msg_bytes um kbuf ubuf len =
     (case kbuf of
        Some d \<Rightarrow> Some (take (unat len) d)
      | None \<Rightarrow> if len = 0 then Some [] else uread um ubuf (unat len))"

definition chan_send ::
  "(nat \<Rightarrow> cworld \<Rightarrow> cworld) \<Rightarrow> csleep list \<Rightarrow> umem \<Rightarrow> nat \<Rightarrow> u8 list option \<Rightarrow> u64 \<Rightarrow> u64 \<Rightarrow> nat list \<Rightarrow> bool \<Rightarrow> cworld \<Rightarrow>
     (errno option outcome \<times> cworld) option" where
  "chan_send oth sleeps um f kbuf ubuf len files from_kernel w =
     (case f_kind (fobjs w f) of
        PlainFile \<Rightarrow> None
      | ChanFile c side \<Rightarrow>
          if len > OLUX_MSG_MAX then Some (Ret (Some EMSGSIZE), w)
          else (case kzalloc_ok w of
             (False, w1) \<Rightarrow> Some (Ret (Some ENOMEM), w1)
           | (True, w1) \<Rightarrow>
               (case msg_bytes um kbuf ubuf len of
                  None \<Rightarrow> Some (Ret (Some EFAULT), kfreed True w1)
                | Some d \<Rightarrow>
                    (case sender from_kernel w1 of (pid, uid, gid) \<Rightarrow>
                       send_loop oth sleeps f c side from_kernel
                         \<lparr>m_len = len, m_files = files, m_pid = pid, m_uid = uid, m_gid = gid, m_data = d\<rparr> w1))))"



section \<open>Receiving\<close>

definition chan_dequeue :: "nat \<Rightarrow> bool \<Rightarrow> cworld \<Rightarrow> cworld" where
  "chan_dequeue c me = upd_chan c (\<lambda>x. x\<lparr>q := (q x)(me := tl (q x me)), nq := (nq x)(me := nq x me - 1),
     qbytes := (qbytes x)(me := qbytes x me - m_len (hd (q x me)))\<rparr>)"

text \<open>An error comes with the size the caller would have needed.  \<open>deadline\<close>: the caller gave a timeout.\<close>

fun recv_loop ::
  "csleep list \<Rightarrow> nat \<Rightarrow> nat \<Rightarrow> bool \<Rightarrow> u64 \<Rightarrow> bool \<Rightarrow> bool \<Rightarrow> cworld \<Rightarrow> (errno \<times> u64 + chan_msg) outcome \<times> cworld" where
  "recv_loop sleeps f c me maxlen deadline interruptible w =
     (let ch = chans w c in
      if nq ch me \<noteq> 0 then
        let m = hd (q ch me) in
        if m_len m > maxlen then (Ret (Inl (EMSGSIZE, m_len m)), w)
        else (Ret (Inr m), wake c (\<not> me) (chan_dequeue c me w))
      else if closed ch (\<not> me) then (Ret (Inl (EPIPE, 0)), w)
      else if has_flag (f_flags (fobjs w f)) O_NONBLOCK then (Ret (Inl (EAGAIN, 0)), w)
      else case sleeps of
          [] \<Rightarrow> (Asleep, w)
        | CWoken w' # rest \<Rightarrow> recv_loop rest f c me maxlen deadline interruptible w'
        | CSignalled w' # rest \<Rightarrow>
            if interruptible then (Ret (Inl (ERESTARTSYS, 0)), w')
            else recv_loop rest f c me maxlen deadline interruptible w'
        | CTimedOut w' # rest \<Rightarrow>
            if deadline then (Ret (Inl (ETIMEDOUT, 0)), w')
            else recv_loop rest f c me maxlen deadline interruptible w')"

declare recv_loop.simps [simp del]

definition chan_recv ::
  "csleep list \<Rightarrow> nat \<Rightarrow> u64 \<Rightarrow> int \<Rightarrow> bool \<Rightarrow> cworld \<Rightarrow> ((errno \<times> u64 + chan_msg) outcome \<times> cworld) option" where
  "chan_recv sleeps f maxlen timeout_ns interruptible w =
     (case f_kind (fobjs w f) of
        PlainFile \<Rightarrow> None
      | ChanFile c me \<Rightarrow> Some (recv_loop sleeps f c me maxlen (timeout_ns > 0) interruptible w))"


section \<open>Kernel interface\<close>

definition chan_send_kernel ::
  "(nat \<Rightarrow> cworld \<Rightarrow> cworld) \<Rightarrow> csleep list \<Rightarrow> umem \<Rightarrow> nat \<Rightarrow> u8 list \<Rightarrow> u64 \<Rightarrow> cworld \<Rightarrow> (errno option outcome \<times> cworld) option" where
  "chan_send_kernel oth sleeps um f buf len w =
     (if \<not> is_channel f w then Some (Ret (Some EINVAL), w)
      else chan_send oth sleeps um f (Some buf) 0 len [] True w)"

text \<open>The bytes received and the sender's process.\<close>

definition chan_recv_kernel ::
  "(nat \<Rightarrow> cworld \<Rightarrow> cworld) \<Rightarrow> csleep list \<Rightarrow> nat \<Rightarrow> u64 \<Rightarrow> int \<Rightarrow> cworld \<Rightarrow> ((errno + u8 list \<times> int) outcome \<times> cworld) option" where
  "chan_recv_kernel oth sleeps f len timeout_ns w =
     (if \<not> is_channel f w then Some (Ret (Inl EINVAL), w)
      else Option.bind (chan_recv sleeps f len timeout_ns False w) (\<lambda>(r, w1).
        case r of
          Asleep \<Rightarrow> Some (Asleep, w1)
        | Ret (Inl (e, n)) \<Rightarrow> Some (Ret (Inl e), w1)
        | Ret (Inr m) \<Rightarrow> Option.bind (free_msg (fput oth) m w1) (\<lambda>w2. Some (Ret (Inr (m_data m, m_pid m)), w2))))"

definition chan_peer_closed :: "nat \<Rightarrow> cworld \<Rightarrow> bool option" where
  "chan_peer_closed f w =
     (case f_kind (fobjs w f) of PlainFile \<Rightarrow> None | ChanFile c side \<Rightarrow> Some (closed (chans w c) (\<not> side)))"


section \<open>System calls\<close>

definition uput :: "uout \<Rightarrow> cworld \<Rightarrow> cworld" where
  "uput u w = w\<lparr>uouts := uouts w @ [u]\<rparr>"

definition sys_olux_channel ::
  "(nat \<Rightarrow> cworld \<Rightarrow> cworld) \<Rightarrow> umem \<Rightarrow> u64 \<Rightarrow> u64 \<Rightarrow> cworld \<Rightarrow> (errno option \<times> cworld) option" where
  "sys_olux_channel oth um ufds flags w =
     (if has_flag flags (NOT (ucast (O_CLOEXEC OR O_NONBLOCK))) then Some (Some EINVAL, w)
      else case chan_create_pair w of
        (Inl e, w1) \<Rightarrow> Some (Some e, w1)
      | (Inr (a, b), w1) \<Rightarrow>
          let nb = (\<lambda>x. x\<lparr>f_flags := f_flags x OR (ucast flags AND O_NONBLOCK)\<rparr>);
              w2 = upd_file b nb (upd_file a nb w1);
              ce = has_flag flags (ucast O_CLOEXEC)
          in case fd_install a 0 ce w2 of
            (Inl e, w3) \<Rightarrow> Option.bind (fput oth (Some a) w3) (\<lambda>w4. Option.bind (fput oth (Some b) w4) (\<lambda>w5. Some (Some e, w5)))
          | (Inr fa, w3) \<Rightarrow>
              (case fd_install b 0 ce w3 of
                 (Inl e, w4) \<Rightarrow>
                   Option.bind (fd_close (crel oth) (int fa) w4) (\<lambda>(_, w5).
                     Option.bind (fput oth (Some b) w5) (\<lambda>w6. Some (Some e, w6)))
               | (Inr fb, w4) \<Rightarrow>
                   if uwritable um ufds 8 then Some (None, uput (OutInts ufds [int fa, int fb]) w4)
                   else Option.bind (fd_close (crel oth) (int fa) w4) (\<lambda>(_, w5).
                     Option.bind (fd_close (crel oth) (int fb) w5) (\<lambda>(_, w6). Some (Some EFAULT, w6)))))"

text \<open>The files to send, and the error that ended the loop.\<close>

fun collect_files :: "umem \<Rightarrow> u64 \<Rightarrow> nat \<Rightarrow> nat \<Rightarrow> cworld \<Rightarrow> errno option \<times> nat list \<times> cworld" where
  "collect_files um ufds i 0 w = (None, [], w)"
| "collect_files um ufds i (Suc n) w =
     (case uread_s32 um (ufds + of_nat i * 4) of
        None \<Rightarrow> (Some EFAULT, [], w)
      | Some xfd \<Rightarrow>
          (case fget xfd w of
             (None, w1) \<Rightarrow> (Some EBADF, [], w1)
           | (Some f, w1) \<Rightarrow> (case collect_files um ufds (i + 1) n w1 of (e, fs, w2) \<Rightarrow> (e, f # fs, w2))))"

definition sys_olux_msg_send ::
  "(nat \<Rightarrow> cworld \<Rightarrow> cworld) \<Rightarrow> csleep list \<Rightarrow> umem \<Rightarrow> u64 \<Rightarrow> u64 \<Rightarrow> u64 \<Rightarrow> u64 \<Rightarrow> u64 \<Rightarrow> cworld \<Rightarrow> (errno option outcome \<times> cworld) option" where
  "sys_olux_msg_send oth sleeps um n buf len ufds nfds w =
     (if nfds > OLUX_MSG_MAX_FDS then Some (Ret (Some EINVAL), w)
      else case fget (as_int n) w of
        (None, w1) \<Rightarrow> Some (Ret (Some EBADF), w1)
      | (Some f, w1) \<Rightarrow>
          if \<not> is_channel f w1 then Option.bind (fput oth (Some f) w1) (\<lambda>w2. Some (Ret (Some ENOTSOCK), w2))
          else case collect_files um ufds 0 (unat nfds) w1 of (e, files, w2) \<Rightarrow>
            Option.bind (case e of
                Some x \<Rightarrow> Some (Ret (Some x), w2)
              | None \<Rightarrow> chan_send oth sleeps um f None buf len files False w2) (\<lambda>(r, w3).
              case r of
                Asleep \<Rightarrow> Some (Asleep, w3)
              | Ret e2 \<Rightarrow>
                  Option.bind (if e2 \<noteq> None then ofold (fput oth) (map Some files) w3 else Some w3) (\<lambda>w4.
                    Option.bind (fput oth (Some f) w4) (\<lambda>w5. Some (Ret e2, w5)))))"

text \<open>The descriptors given to the files of a message, and the files that got none.\<close>

fun install_files :: "bool \<Rightarrow> nat list \<Rightarrow> cworld \<Rightarrow> nat list \<times> nat list \<times> cworld" where
  "install_files has_ufds [] w = ([], [], w)"
| "install_files has_ufds (f # fs) w =
     (if \<not> has_ufds then ([], f # fs, w)
      else case fd_install f 0 False w of
        (Inl e, w1) \<Rightarrow> ([], f # fs, w1)
      | (Inr n, w1) \<Rightarrow> (case install_files has_ufds fs w1 of (ns, rest, w2) \<Rightarrow> (n # ns, rest, w2)))"

definition info_of :: "chan_msg \<Rightarrow> nat \<Rightarrow> olux_msg_info" where
  "info_of m k = \<lparr>i_len = ucast (m_len m), i_nfds = k, i_pid = m_pid m, i_uid = m_uid m, i_gid = m_gid m\<rparr>"

definition deliver :: "(nat \<Rightarrow> cworld \<Rightarrow> cworld) \<Rightarrow> umem \<Rightarrow> u64 \<Rightarrow> u64 \<Rightarrow> u64 \<Rightarrow> chan_msg \<Rightarrow> cworld \<Rightarrow> (u64 sysres \<times> cworld) option" where
  "deliver oth um buf uinfo ufds m w =
     (if \<not> uwritable um buf (unat (m_len m))
      then Option.bind (ofold (fput oth) (map Some (m_files m)) w) (\<lambda>w1. Some (Inl EFAULT, kfreed True w1))
      else case install_files (ufds \<noteq> 0) (m_files m) (uput (OutBytes buf (m_data m)) w) of (ns, rest, w1) \<Rightarrow>
        let k = length ns;
            bad1 = (k \<noteq> 0 \<and> \<not> uwritable um ufds (k * 4));
            w2 = (if k \<noteq> 0 \<and> \<not> bad1 then uput (OutInts ufds (map int ns)) w1 else w1);
            bad2 = (uinfo \<noteq> 0 \<and> \<not> uwritable um uinfo 24);
            w3 = (if uinfo \<noteq> 0 \<and> \<not> bad2 then uput (OutInfo uinfo (info_of m k)) w2 else w2)
        in Option.bind (ofold (fput oth) (map Some rest) w3) (\<lambda>w4.
             Some (if bad1 \<or> bad2 then Inl EFAULT else Inr (m_len m), kfreed True w4)))"

definition sys_olux_msg_recv ::
  "(nat \<Rightarrow> cworld \<Rightarrow> cworld) \<Rightarrow> csleep list \<Rightarrow> umem \<Rightarrow> u64 \<Rightarrow> u64 \<Rightarrow> u64 \<Rightarrow> u64 \<Rightarrow> u64 \<Rightarrow> cworld \<Rightarrow> (u64 sysres outcome \<times> cworld) option" where
  "sys_olux_msg_recv oth sleeps um n buf len uinfo ufds w =
     (case fget (as_int n) w of
        (None, w1) \<Rightarrow> Some (Ret (Inl EBADF), w1)
      | (Some f, w1) \<Rightarrow>
          if \<not> is_channel f w1 then Option.bind (fput oth (Some f) w1) (\<lambda>w2. Some (Ret (Inl ENOTSOCK), w2))
          else Option.bind (chan_recv sleeps f len (-1) True w1) (\<lambda>(r, w2).
            case r of
              Asleep \<Rightarrow> Some (Asleep, w2)
            | Ret res \<Rightarrow>
                Option.bind (fput oth (Some f) w2) (\<lambda>w3.
                  case res of
                    Inl (e, need) \<Rightarrow>
                      let w4 = (if e = EMSGSIZE \<and> uinfo \<noteq> 0 \<and> uwritable um uinfo 24
                                then uput (OutInfo uinfo \<lparr>i_len = ucast need, i_nfds = 0, i_pid = 0, i_uid = 0, i_gid = 0\<rparr>) w3 else w3)
                      in if e = EPIPE then Some (Ret (Inr 0), w4) else Some (Ret (Inl e), w4)
                  | Inr m \<Rightarrow> Option.bind (deliver oth um buf uinfo ufds m w3) (\<lambda>(x, w4). Some (Ret x, w4)))))"



section \<open>Release ends\<close>

lemma fput_eq: "fput oth = file_put (crel oth)"
  by (rule ext, rule ext) (rule fput.simps)

definition queued :: "chan \<Rightarrow> nat" where
  "queued ch = sum_list (map (length \<circ> m_files) (q ch False)) + sum_list (map (length \<circ> m_files) (q ch True))"

text \<open>The references the messages of all channels hold.\<close>

definition in_flight :: "cworld \<Rightarrow> nat" where
  "in_flight w = (\<Sum>c < nchans w. queued (chans w c))"






lemma in_flight_frame [simp]:
  "in_flight (kfreed b w) = in_flight w" "in_flight (upd_file f g w) = in_flight w"
  "in_flight (w\<lparr>puts := x\<rparr>) = in_flight w" "in_flight (wake c s w) = in_flight w"
  by (simp_all add: in_flight_def kfreed_def upd_file_def wake_def)












section \<open>References sent\<close>



lemma fput_shared:
  "1 < f_refs (fobjs w f) \<Longrightarrow> fput oth (Some f) w = Some (upd_file f (\<lambda>z. z\<lparr>f_refs := f_refs z - 1\<rparr>) w)"
  by (subst fput_eq) (simp add: file_put_def Let_def upd_file_def)

lemma tab_get [simp]: "tab (file_get f w) = tab w"
  by (simp add: file_get_def upd_file_def)

definition in_table :: "nat \<Rightarrow> cworld \<Rightarrow> bool" where
  "in_table f w \<longleftrightarrow> (\<exists>t i. tab w = Some t \<and> slot t i = Some f)"


lemma in_table_get [simp]: "in_table x (file_get f w) = in_table x w"
  by (simp add: in_table_def)


lemma more_refs_frame [simp]:
  "tab (more_refs xs w) = tab w" "chans (more_refs xs w) = chans w" "ident (more_refs xs w) = ident w"
  "f_kind (fobjs (more_refs xs w) f) = f_kind (fobjs w f)" "f_flags (fobjs (more_refs xs w) f) = f_flags (fobjs w f)"
  "allocs (more_refs xs w) = allocs w" "heap (more_refs xs w) = heap w"
  "f_refs (fobjs (more_refs xs w) f) = f_refs (fobjs w f) + int (count_list xs (Some f))"
  by (simp_all add: more_refs_def)

lemma file_get_more: "file_get f w = more_refs [Some f] w"
  by (simp add: more_refs_simps)

lemma allocs_more [simp]: "(more_refs xs w)\<lparr>allocs := as\<rparr> = more_refs xs (w\<lparr>allocs := as\<rparr>)"
  by (simp add: more_refs_def)

lemma count_some [simp]: "count_list (map Some fs) (Some f) = count_list fs f"
  by (induction fs) simp_all

text \<open>A send that does not sleep, to an open peer.\<close>

lemma chan_send_open:
  assumes "f_kind (fobjs w f) = ChanFile c s" "\<not> closed (chans w c) (\<not> s)"
  obtains e as where "chan_send oth [] um f None ubuf len files False w = Some (Ret (Some e), w\<lparr>allocs := as\<rparr>)"
    | w' where "chan_send oth [] um f None ubuf len files False w = Some (Asleep, w')"
    | d as m where "chan_send oth [] um f None ubuf len files False w
          = Some (Ret None, wake c (\<not> s) (chan_enqueue c (\<not> s) m (w\<lparr>allocs := as, heap := heap w + 1\<rparr>)))"
        "m = \<lparr>m_len = len, m_files = files, m_pid = fst (sender False w), m_uid = fst (snd (sender False w)),
           m_gid = snd (snd (sender False w)), m_data = d\<rparr>"
        "msg_bytes um None ubuf len = Some d" "len \<le> OLUX_MSG_MAX" "chan_room (chans w c) (\<not> s) len"
proof (cases "len > OLUX_MSG_MAX")
  case True
  then show thesis using that(1) [of EMSGSIZE "allocs w"] assms by (simp add: chan_send_def)
next
  case False
  show thesis
  proof (cases "allocs w")
    case Nil
    then show thesis using that(1) [of ENOMEM "allocs w"] assms False by (simp add: chan_send_def kzalloc_ok_def)
  next
    case (Cons ok as)
    let ?w1 = "w\<lparr>allocs := as, heap := heap w + 1\<rparr>"
    show thesis
    proof (cases "ok \<and> msg_bytes um None ubuf len \<noteq> None")
      case no: False
      then show thesis using that(1) [of ENOMEM as] that(1) [of EFAULT as] assms False Cons
        by (cases ok) (auto simp: chan_send_def kzalloc_ok_def kfreed_def)
    next
      case yes: True
      then obtain d where d: "msg_bytes um None ubuf len = Some d" by blast
      let ?m = "\<lparr>m_len = len, m_files = files, m_pid = fst (sender False w), m_uid = fst (snd (sender False w)),
           m_gid = snd (snd (sender False w)), m_data = d\<rparr>"
      have r: "chan_send oth [] um f None ubuf len files False w = send_loop oth [] f c s False ?m ?w1"
        using yes d assms False Cons by (simp add: chan_send_def kzalloc_ok_def sender_def split: prod.split)
      show thesis
      proof (cases "chan_room (chans w c) (\<not> s) len")
        case True
        then show thesis using that(3) [where as = as and m = ?m and d = d] r d False assms by (simp add: send_loop.simps Let_def not_less)
      next
        case full: False
        then show thesis using that(1) [of EAGAIN as] that(2) [of ?w1] r assms
          by (cases "has_flag (f_flags (fobjs w f)) O_NONBLOCK") (simp_all add: send_loop.simps Let_def kfreed_def)
      qed
    qed
  qed
qed


text \<open>
  C38: A failed send drops its references twice.  When the peer is closed, the send drops the references of the message,
  and the system call drops them again because the send failed: a file whose only other reference is the caller's
  descriptor is freed while the descriptor still names it.
\<close>

theorem msg_send_epipe_double_put:
  assumes "tab w = Some t" "slot t 0 = Some f" "slot t 1 = Some x" "x \<noteq> f"
    and "f_kind (fobjs w f) = ChanFile c s" "closed (chans w c) (\<not> s)" "1 \<le> f_refs (fobjs w f)"
    and "f_kind (fobjs w x) = PlainFile" "f_refs (fobjs w x) = 1" "allocs w = True # as" "uread_s32 um ufds = Some 1"
  shows "\<exists>w'. sys_olux_msg_send (\<lambda>_ w. w) [] um 0 buf 0 ufds 1 w = Some (Ret (Some EPIPE), w') \<and>
    f_freed (fobjs w' x) \<and> tab w' = tab w"
proof -
  let ?oth = "\<lambda>(_ :: nat) (w :: cworld). w"
  let ?w1 = "more_refs [Some x] (more_refs [Some f] w)"
  let ?w2 = "?w1\<lparr>allocs := as, heap := heap w + 1\<rparr>"
  have g: "fget 0 w = (Some f, more_refs [Some f] w)" "fget 1 (more_refs [Some f] w) = (Some x, ?w1)"
    using assms by (simp_all add: fget_def file_get_more)
  have c: "collect_files um ufds 0 (unat (1 :: u64)) (more_refs [Some f] w) = (None, [x], ?w1)"
    using assms g by (simp add: numeral_eq_Suc)
  have last: "fput ?oth (Some y) v = Some (kfreed True (upd_file y (\<lambda>z. z\<lparr>f_freed := True\<rparr>)
      ((upd_file y (\<lambda>z. z\<lparr>f_refs := f_refs z - 1\<rparr>) v)\<lparr>puts := puts v @ [y]\<rparr>)))" if "f_refs (fobjs v y) = 1" "f_kind (fobjs v y) = PlainFile" for y v
    using that by (subst fput_eq) (simp add: file_put_def Let_def upd_file_def release_op_def)
  let ?w3 = "upd_file x (\<lambda>z. z\<lparr>f_refs := f_refs z - 1\<rparr>) ?w2"
  let ?w4 = "(kfreed True ?w3)\<lparr>sigpipes := sigpipes (kfreed True ?w3) + 1\<rparr>"
  have p1: "fput ?oth (Some x) ?w2 = Some ?w3" by (rule fput_shared) (use assms in simp)
  have S: "chan_send ?oth [] um f None buf 0 [x] False ?w1 = Some (Ret (Some EPIPE), ?w4)"
    using assms(5,6,10) p1
    by (simp add: chan_send_def kzalloc_ok_def msg_bytes_def send_loop.simps free_msg_def OLUX_MSG_MAX_def split: prod.split)
  let ?w5 = "kfreed True (upd_file x (\<lambda>z. z\<lparr>f_freed := True\<rparr>)
      ((upd_file x (\<lambda>z. z\<lparr>f_refs := f_refs z - 1\<rparr>) ?w4)\<lparr>puts := puts ?w4 @ [x]\<rparr>))"
  have p2: "fput ?oth (Some x) ?w4 = Some ?w5"
    by (rule last) (use assms in \<open>simp_all add: upd_file_def kfreed_def\<close>)
  let ?w6 = "upd_file f (\<lambda>z. z\<lparr>f_refs := f_refs z - 1\<rparr>) ?w5"
  have p3: "fput ?oth (Some f) ?w5 = Some ?w6"
    by (rule fput_shared) (use assms in \<open>simp add: upd_file_def kfreed_def\<close>)
  have "is_channel f (more_refs [Some f] w)" using assms(5) by (simp add: is_channel_def)
  then have "sys_olux_msg_send ?oth [] um 0 buf 0 ufds 1 w = Some (Ret (Some EPIPE), ?w6)"
    using g(1) c S p2 p3 by (simp add: sys_olux_msg_send_def OLUX_MSG_MAX_FDS_def as_int_def)
  moreover have "f_freed (fobjs ?w6 x)" "tab ?w6 = tab w" using assms(4) by (simp_all add: upd_file_def kfreed_def)
  ultimately show ?thesis by blast
qed


section \<open>Order of delivery\<close>

text \<open>The counters describe the queues, and the limits hold.\<close>

definition chan_ok :: "chan \<Rightarrow> bool" where
  "chan_ok ch \<longleftrightarrow> (\<forall>s. nq ch s = length (q ch s) \<and> unat (qbytes ch s) = sum_list (map (unat \<circ> m_len) (q ch s)) \<and>
     nq ch s \<le> CHAN_MAX_QUEUED \<and> qbytes ch s \<le> CHAN_MAX_BYTES \<and>
     (\<forall>m \<in> set (q ch s). m_len m \<le> OLUX_MSG_MAX \<and> length (m_data m) = unat (m_len m)))"

lemma chan_okD:
  assumes "chan_ok ch"
  shows "nq ch s = length (q ch s)" "unat (qbytes ch s) = sum_list (map (unat \<circ> m_len) (q ch s))"
    "nq ch s \<le> CHAN_MAX_QUEUED" "qbytes ch s \<le> CHAN_MAX_BYTES"
    "m \<in> set (q ch s) \<Longrightarrow> m_len m \<le> OLUX_MSG_MAX" "m \<in> set (q ch s) \<Longrightarrow> length (m_data m) = unat (m_len m)"
  using assms unfolding chan_ok_def by blast+

lemma enqueue_ok:
  assumes ok: "chan_ok (chans w c)" and room: "chan_room (chans w c) p (m_len m)"
    and m: "m_len m \<le> OLUX_MSG_MAX" "length (m_data m) = unat (m_len m)"
  shows "chan_ok (chans (chan_enqueue c p m w) c)"
proof -
  let ?ch = "chans w c"
  have b: "unat (qbytes ?ch p) \<le> 1048576" "unat (m_len m) \<le> 65536"
    using chan_okD(4) [OF ok, of p] m(1) by (simp_all add: word_le_nat_alt CHAN_MAX_BYTES_def OLUX_MSG_MAX_def)
  then have u: "unat (qbytes ?ch p + m_len m) = unat (qbytes ?ch p) + unat (m_len m)"
    by (simp add: unat_word_ariths)
  have "nq x s = length (q x s) \<and> unat (qbytes x s) = sum_list (map (unat \<circ> m_len) (q x s)) \<and>
     nq x s \<le> CHAN_MAX_QUEUED \<and> qbytes x s \<le> CHAN_MAX_BYTES \<and>
     (\<forall>m \<in> set (q x s). m_len m \<le> OLUX_MSG_MAX \<and> length (m_data m) = unat (m_len m))"
    if "x = chans (chan_enqueue c p m w) c" for x s
    using chan_okD [OF ok] room m u that
    by (cases "s = p") (auto simp: chan_enqueue_def upd_chan_def chan_room_def)
  then show ?thesis unfolding chan_ok_def by blast
qed

lemma dequeue_ok:
  assumes ok: "chan_ok (chans w c)" and q: "q (chans w c) p = m # ms"
  shows "chan_ok (chans (chan_dequeue c p w) c)" "q (chans (chan_dequeue c p w) c) p = ms"
proof -
  let ?ch = "chans w c"
  show "q (chans (chan_dequeue c p w) c) p = ms" using q by (simp add: chan_dequeue_def upd_chan_def)
  have s: "unat (qbytes ?ch p) = unat (m_len m) + sum_list (map (unat \<circ> m_len) ms)"
    using chan_okD(2) [OF ok, of p] q by simp
  then have le: "m_len m \<le> qbytes ?ch p" by (simp add: word_le_nat_alt)
  then have u: "unat (qbytes ?ch p - m_len m) = sum_list (map (unat \<circ> m_len) ms)" using s by (simp add: unat_sub)
  have le2: "qbytes ?ch p - m_len m \<le> CHAN_MAX_BYTES"
    using chan_okD(4) [OF ok, of p] s u by (simp add: word_le_nat_alt)
  have rest: "\<forall>m' \<in> set ms. m_len m' \<le> OLUX_MSG_MAX \<and> length (m_data m') = unat (m_len m')"
    using chan_okD(5,6) [OF ok, of _ p] q by simp
  have "nq x s = length (q x s) \<and> unat (qbytes x s) = sum_list (map (unat \<circ> m_len) (q x s)) \<and>
     nq x s \<le> CHAN_MAX_QUEUED \<and> qbytes x s \<le> CHAN_MAX_BYTES \<and>
     (\<forall>m \<in> set (q x s). m_len m \<le> OLUX_MSG_MAX \<and> length (m_data m) = unat (m_len m))"
    if "x = chans (chan_dequeue c p w) c" for x s
    using chan_okD [OF ok] chan_okD(1,3) [OF ok, of p] q u le2 rest that
    by (cases "s = p") (auto simp: chan_dequeue_def upd_chan_def)
  then show "chan_ok (chans (chan_dequeue c p w) c)" unfolding chan_ok_def by blast
qed

text \<open>A sequence of sends that succeed without sleeping, and a sequence of receives.\<close>

fun send_all :: "(nat \<Rightarrow> cworld \<Rightarrow> cworld) \<Rightarrow> umem \<Rightarrow> nat \<Rightarrow> (u64 \<times> u64 \<times> nat list) list \<Rightarrow> cworld \<Rightarrow> cworld option" where
  "send_all oth um f [] w = Some w"
| "send_all oth um f ((buf, len, files) # xs) w =
     (case chan_send oth [] um f None buf len files False w of
        Some (Ret None, w1) \<Rightarrow> send_all oth um f xs w1
      | _ \<Rightarrow> None)"

fun recv_all :: "nat \<Rightarrow> nat \<Rightarrow> cworld \<Rightarrow> (chan_msg list \<times> cworld) option" where
  "recv_all g 0 w = Some ([], w)"
| "recv_all g (Suc n) w =
     (case chan_recv [] g OLUX_MSG_MAX (-1) True w of
        Some (Ret (Inr m), w1) \<Rightarrow> map_option (\<lambda>(ms, w2). (m # ms, w2)) (recv_all g n w1)
      | _ \<Rightarrow> None)"

definition carries :: "umem \<Rightarrow> int \<times> u32 \<times> u32 \<Rightarrow> chan_msg \<Rightarrow> u64 \<times> u64 \<times> nat list \<Rightarrow> bool" where
  "carries um who m x \<longleftrightarrow> msg_bytes um None (fst x) (fst (snd x)) = Some (m_data m) \<and> m_len m = fst (snd x) \<and>
     m_files m = snd (snd x) \<and> (m_pid m, m_uid m, m_gid m) = who"

lemma chan_send_open_end:
  assumes "f_kind (fobjs w f) = ChanFile c s" "chan_send oth [] um f None buf len files False w = Some (Ret None, w1)"
  shows "\<not> closed (chans w c) (\<not> s)"
proof
  assume "closed (chans w c) (\<not> s)"
  then show False using assms
    by (auto simp: chan_send_def kzalloc_ok_def send_loop.simps Let_def split: if_splits list.splits option.splits prod.splits bind_splits)
qed

lemma send_all_queue:
  assumes "send_all oth um f xs w = Some w1" "f_kind (fobjs w f) = ChanFile c s" "chan_ok (chans w c)"
    "\<forall>a n d. uread um a n = Some d \<longrightarrow> length d = n"
  shows "\<exists>ms. q (chans w1 c) (\<not> s) = q (chans w c) (\<not> s) @ ms \<and> list_all2 (carries um (sender False w)) ms xs \<and>
    chan_ok (chans w1 c) \<and> fobjs w1 = fobjs w"
  using assms(1-3)
proof (induction xs arbitrary: w)
  case Nil
  then show ?case by simp
next
  case (Cons x xs)
  obtain buf len files where x: "x = (buf, len, files)" by (rule prod_cases3)
  obtain w2 where S: "chan_send oth [] um f None buf len files False w = Some (Ret None, w2)"
    and rest: "send_all oth um f xs w2 = Some w1"
    using Cons.prems(1) x by (auto split: option.splits prod.splits outcome.splits)
  have op: "\<not> closed (chans w c) (\<not> s)" by (rule chan_send_open_end [OF Cons.prems(2) S])
  show ?case
  proof (rule chan_send_open [OF Cons.prems(2) op, of oth um buf len files])
    fix d as m
    let ?v = "w\<lparr>allocs := as, heap := heap w + 1\<rparr>"
    assume S2: "chan_send oth [] um f None buf len files False w = Some (Ret None, wake c (\<not> s) (chan_enqueue c (\<not> s) m ?v))"
      and m: "m = \<lparr>m_len = len, m_files = files, m_pid = fst (sender False w), m_uid = fst (snd (sender False w)),
           m_gid = snd (snd (sender False w)), m_data = d\<rparr>"
      and d: "msg_bytes um None buf len = Some d" "len \<le> OLUX_MSG_MAX" "chan_room (chans w c) (\<not> s) len"
    have w2: "w2 = wake c (\<not> s) (chan_enqueue c (\<not> s) m ?v)" using S S2 by simp
    have dl: "length d = unat len" using d(1) assms(4) by (auto simp: msg_bytes_def split: if_splits)
    have "chan_ok (chans (chan_enqueue c (\<not> s) m ?v) c)"
      using Cons.prems(3) d dl m by (intro enqueue_ok) simp_all
    then have ok: "chan_ok (chans w2 c)" by (simp add: w2 wake_def)
    have fr: "fobjs w2 = fobjs w" "ident w2 = ident w" "q (chans w2 c) (\<not> s) = q (chans w c) (\<not> s) @ [m]"
      by (simp_all add: w2 wake_def chan_enqueue_def upd_chan_def)
    have snd: "sender False w2 = sender False w" by (simp add: sender_def fr)
    have "f_kind (fobjs w2 f) = ChanFile c s" using Cons.prems(2) fr by simp
    from Cons.IH [OF rest this ok] obtain ms where ms: "q (chans w1 c) (\<not> s) = q (chans w2 c) (\<not> s) @ ms"
        "list_all2 (carries um (sender False w2)) ms xs" "chan_ok (chans w1 c)" "fobjs w1 = fobjs w2"
      by blast
    have "carries um (sender False w) m x" using d m x by (simp add: carries_def)
    then show ?thesis using ms fr snd by (intro exI [of _ "m # ms"]) simp
  qed (use S in simp_all)
qed

lemma recv_all_queue:
  assumes "f_kind (fobjs w g) = ChanFile c p" "chan_ok (chans w c)" "q (chans w c) p = ms @ rest"
  shows "\<exists>w'. recv_all g (length ms) w = Some (ms, w') \<and> chan_ok (chans w' c) \<and> q (chans w' c) p = rest"
  using assms
proof (induction ms arbitrary: w)
  case Nil
  then show ?case by simp
next
  case (Cons m ms)
  let ?w1 = "wake c (\<not> p) (chan_dequeue c p w)"
  have q: "q (chans w c) p = m # (ms @ rest)" using Cons.prems(3) by simp
  have nq: "nq (chans w c) p \<noteq> 0" "\<not> OLUX_MSG_MAX < m_len m"
    using chan_okD(1) [OF Cons.prems(2), of p] chan_okD(5) [OF Cons.prems(2), of m p] q by auto
  have r: "chan_recv [] g OLUX_MSG_MAX (-1) True w = Some (Ret (Inr m), ?w1)"
    using Cons.prems(1) q nq by (simp add: chan_recv_def recv_loop.simps Let_def)
  have "f_kind (fobjs ?w1 g) = ChanFile c p" "chan_ok (chans ?w1 c)" "q (chans ?w1 c) p = ms @ rest"
    using Cons.prems(1) dequeue_ok [OF Cons.prems(2) q] by (simp_all add: wake_def) (simp add: chan_dequeue_def upd_chan_def)
  from Cons.IH [OF this] show ?case using r by auto
qed

text \<open>
  C35: Channels deliver in order.  After any sequence of successful sends on one end of a channel, receiving as many
  messages from the other end gives, behind what was queued before, the same messages in the same order: the bytes
  of the sender's buffers, the files sent, and the identity of the sender; the counters and limits of the channel
  hold throughout.
\<close>

theorem chan_fifo:
  assumes "f_kind (fobjs w f) = ChanFile c s" "f_kind (fobjs w g) = ChanFile c (\<not> s)" "chan_ok (chans w c)"
    and "\<forall>a n d. uread um a n = Some d \<longrightarrow> length d = n" "send_all oth um f xs w = Some w1"
  shows "\<exists>ms w2. recv_all g (length (q (chans w c) (\<not> s)) + length xs) w1 = Some (q (chans w c) (\<not> s) @ ms, w2) \<and>
    list_all2 (carries um (sender False w)) ms xs \<and> q (chans w2 c) (\<not> s) = [] \<and> chan_ok (chans w1 c) \<and> chan_ok (chans w2 c)"
proof -
  obtain ms where ms: "q (chans w1 c) (\<not> s) = q (chans w c) (\<not> s) @ ms" "list_all2 (carries um (sender False w)) ms xs"
      "chan_ok (chans w1 c)" "fobjs w1 = fobjs w"
    using send_all_queue [OF assms(5,1,3,4)] by blast
  have g: "f_kind (fobjs w1 g) = ChanFile c (\<not> s)" using assms(2) ms(4) by simp
  have "length ms = length xs" using ms(2) by (rule list_all2_lengthD)
  then show ?thesis using recv_all_queue [OF g ms(3), of "q (chans w c) (\<not> s) @ ms" "[]"] ms by auto
qed


section \<open>Instances\<close>

text \<open>Files 0 and 1 are the ends of a channel, file 2 is any other file; descriptors 0 and 1 are files 0 and 2.\<close>

definition demo_chan :: "bool \<Rightarrow> cworld" where
  "demo_chan cl =
     \<lparr>fobjs = (\<lambda>f. \<lparr>f_refs = 1, f_freed = False, f_kind = (if f = 0 then ChanFile 0 False else if f = 1 then ChanFile 0 True else PlainFile),
        f_flags = 2, f_mode = 3\<rparr>),
      nfiles = 3, allocs = [True, True], heap = 8,
      tab = Some \<lparr>t_refs = 1, t_max = 4, fd = [Some 0, Some 2, None, None], cloexec = [0]\<rparr>, nofile = 1024, puts = [],
      chans = (\<lambda>_. chan_init\<lparr>closed := (\<lambda>s. s \<and> cl)\<rparr>), nchans = 1, wakes = [], sigpipes = 0, ident = Some (42, 1000, 100), uouts = []\<rparr>"

definition demo_umem :: umem where
  "demo_umem = \<lparr>uread = (\<lambda>a n. Some (replicate n 7)), uread_s32 = (\<lambda>a. Some 1), uwritable = (\<lambda>a n. True)\<rparr>"

lemma demo_chan_slots:
  "tab (demo_chan cl) = Some \<lparr>t_refs = 1, t_max = 4, fd = [Some 0, Some 2, None, None], cloexec = [0]\<rparr>"
  by (simp add: demo_chan_def)

lemma demo_chan_ok: "chan_ok (chans (demo_chan cl) c)"
  by (simp add: chan_ok_def demo_chan_def chan_init_def)



theorem msg_send_epipe_double_put_witness:
  "\<exists>w'. sys_olux_msg_send (\<lambda>_ w. w) [] demo_umem 0 0 0 0 1 (demo_chan True) = Some (Ret (Some EPIPE), w') \<and> f_freed (fobjs w' 2) \<and>
     tab w' = tab (demo_chan True)"
  by (rule msg_send_epipe_double_put [OF demo_chan_slots, where f = 0 and c = 0 and s = False and as = "[True]"])
    (simp_all add: slot_def demo_chan_def chan_init_def demo_umem_def)

theorem chan_fifo_witness:
  "\<exists>w1 ms w2. send_all (\<lambda>_ w. w) demo_umem 0 [(0, 3, [2]), (0, 4, [])] (demo_chan False) = Some w1 \<and>
     recv_all 1 2 w1 = Some (ms, w2) \<and> map m_data ms = [replicate 3 7, replicate 4 7] \<and> map m_files ms = [[2], []]"
proof -
  let ?xs = "[(0, 3, [2]), (0, 4, [])] :: (u64 \<times> u64 \<times> nat list) list"
  obtain w1 where s: "send_all (\<lambda>_ w. w) demo_umem 0 ?xs (demo_chan False) = Some w1"
    by (simp add: chan_send_def demo_chan_def chan_init_def kzalloc_ok_def msg_bytes_def demo_umem_def sender_def send_loop.simps
        Let_def chan_room_def CHAN_MAX_QUEUED_def CHAN_MAX_BYTES_def OLUX_MSG_MAX_def chan_enqueue_def upd_chan_def wake_def)
  have h: "f_kind (fobjs (demo_chan False) 0) = ChanFile 0 False" "f_kind (fobjs (demo_chan False) 1) = ChanFile 0 (\<not> False)"
    "\<forall>a n d. uread demo_umem a n = Some d \<longrightarrow> length d = n" "q (chans (demo_chan False) 0) True = []"
    by (auto simp: demo_chan_def chan_init_def demo_umem_def)
  from chan_fifo [OF h(1,2) demo_chan_ok h(3) s] obtain ms w2 where
    "recv_all 1 2 w1 = Some (ms, w2)" "list_all2 (carries demo_umem (sender False (demo_chan False))) ms ?xs"
    using h(4) by (auto simp: numeral_2_eq_2 simp del: recv_all.simps)
  then show ?thesis using s by (auto simp: list_all2_Cons2 carries_def msg_bytes_def demo_umem_def)
qed

end
