(* ===== verification/Olux_Futex.thy ===== *)
theory Olux_Futex
  imports Olux_Prelude
begin

text \<open>
  Fast user-space mutexes (kernel/futex.c).  The critical sections under \<open>futex_lock\<close> are functions on the wait
  buckets; a wait is the section that checks the value and queues the thread, the sleep, and the section after it.
  The waiter structures, which live on the stacks of the sleeping threads, are found by their thread.
\<close>

unbundle bit_operations_syntax

section \<open>State\<close>

definition FUTEX_WAIT :: int where "FUTEX_WAIT = 0"
definition FUTEX_WAKE :: int where "FUTEX_WAKE = 1"
definition FUTEX_REQUEUE :: int where "FUTEX_REQUEUE = 3"
definition FUTEX_CMP_REQUEUE :: int where "FUTEX_CMP_REQUEUE = 4"
definition FUTEX_WAIT_BITSET :: int where "FUTEX_WAIT_BITSET = 9"
definition FUTEX_WAKE_BITSET :: int where "FUTEX_WAKE_BITSET = 10"
definition FUTEX_PRIVATE_FLAG :: u64 where "FUTEX_PRIVATE_FLAG = 128"
definition FUTEX_CLOCK_REALTIME :: u64 where "FUTEX_CLOCK_REALTIME = 256"
definition FUTEX_BITSET_MATCH_ANY :: u32 where "FUTEX_BITSET_MATCH_ANY = 0xffffffff"
definition NBUCKETS :: nat where "NBUCKETS = 64"

record futex_waiter =
  key_a :: u64
  key_b :: u64
  bitset :: u32
  woken :: bool

record futexes =
  buckets :: "nat \<Rightarrow> nat list"
  winfo :: "nat \<Rightarrow> futex_waiter"
  running :: "nat \<Rightarrow> bool"
  futex_ready :: bool

text \<open>
  What the caller's address space gives: its address, the physical address of a user address and the value of
  a user word, where they can be read.
\<close>

record fenv =
  mm_addr :: u64
  user_phys :: "u64 \<Rightarrow> u64 option"
  user_word :: "u64 \<Rightarrow> u32 option"

definition futex_init :: "futexes \<Rightarrow> futexes" where
  "futex_init s = s\<lparr>buckets := (\<lambda>i. if i < NBUCKETS then [] else buckets s i), futex_ready := True\<rparr>"

definition ready :: "futexes \<Rightarrow> futexes" where
  "ready s = (if futex_ready s then s else futex_init s)"

definition make_key :: "fenv \<Rightarrow> u64 \<Rightarrow> bool \<Rightarrow> (u64 \<times> u64) sysres" where
  "make_key env uaddr priv =
     (if has_flag uaddr 3 then Inl EINVAL
      else if priv then Inr (mm_addr env, uaddr)
      else (case user_phys env uaddr of None \<Rightarrow> Inl EFAULT | Some pa \<Rightarrow> Inr (0, pa)))"

definition hash :: "u64 \<times> u64 \<Rightarrow> nat" where
  "hash k = unat ((drop_bit 4 (fst k) XOR drop_bit 2 (snd k) XOR drop_bit 12 (snd k)) mod 64)"

definition wkey :: "futexes \<Rightarrow> nat \<Rightarrow> u64 \<times> u64" where
  "wkey s t = (key_a (winfo s t), key_b (winfo s t))"

definition upd_waiter :: "nat \<Rightarrow> (futex_waiter \<Rightarrow> futex_waiter) \<Rightarrow> futexes \<Rightarrow> futexes" where
  "upd_waiter t g s = s\<lparr>winfo := (winfo s)(t := g (winfo s t))\<rparr>"


section \<open>Waiting\<close>

definition queue_waiter :: "nat \<Rightarrow> u64 \<times> u64 \<Rightarrow> u32 \<Rightarrow> futexes \<Rightarrow> futexes" where
  "queue_waiter me k bs s =
     s\<lparr>winfo := (winfo s)(me := \<lparr>key_a = fst k, key_b = snd k, bitset = bs, woken = False\<rparr>),
       buckets := (buckets s)(hash k := buckets s (hash k) @ [me]), running := (running s)(me := False)\<rparr>"

text \<open>\<open>None\<close>: the thread is queued.\<close>

definition wait_begin :: "fenv \<Rightarrow> nat \<Rightarrow> u64 \<Rightarrow> u32 \<Rightarrow> u32 \<Rightarrow> bool \<Rightarrow> futexes \<Rightarrow> errno option \<times> futexes" where
  "wait_begin env me uaddr val bs priv s0 =
     (let s = ready s0 in
      if bs = 0 then (Some EINVAL, s)
      else case make_key env uaddr priv of
        Inl e \<Rightarrow> (Some e, s)
      | Inr k \<Rightarrow>
          (case user_word env uaddr of
             None \<Rightarrow> (Some EFAULT, s)
           | Some cur \<Rightarrow> if cur \<noteq> val then (Some EAGAIN, s) else (None, queue_waiter me k bs s)))"

definition wait_end :: "nat \<Rightarrow> errno option \<Rightarrow> bool \<Rightarrow> futexes \<Rightarrow> errno option \<times> futexes" where
  "wait_end me ret sig s0 =
     (let s = s0\<lparr>running := (running s0)(me := True)\<rparr> in
      if woken (winfo s me) then (None, s)
      else let s1 = s\<lparr>buckets := (buckets s)(hash (wkey s me) := remove1 me (buckets s (hash (wkey s me))))\<rparr>;
               r = (if ret = None then if sig then Some EINTR else None else ret)
           in (if r = None then Some EAGAIN else r, s1))"

text \<open>The sleep: a signal is pending before it, the timeout expires, a signal is pending after it, and the state then.\<close>

record fsleep =
  sig_before :: bool
  expired :: bool
  sig_after :: bool
  state_after :: futexes

definition futex_wait :: "fenv \<Rightarrow> nat \<Rightarrow> u64 \<Rightarrow> u32 \<Rightarrow> int \<Rightarrow> u32 \<Rightarrow> bool \<Rightarrow> fsleep \<Rightarrow> futexes \<Rightarrow> errno option \<times> futexes" where
  "futex_wait env me uaddr val timeout_ns bs priv sl s =
     (case wait_begin env me uaddr val bs priv s of
        (Some e, s1) \<Rightarrow> (Some e, s1)
      | (None, s1) \<Rightarrow>
          let ret = (if \<not> sig_before sl \<and> timeout_ns \<ge> 0 \<and> (timeout_ns = 0 \<or> expired sl) then Some ETIMEDOUT else None)
          in wait_end me ret (sig_after sl) (state_after sl))"


section \<open>Waking\<close>

definition matches :: "futexes \<Rightarrow> u64 \<times> u64 \<Rightarrow> u32 \<Rightarrow> nat \<Rightarrow> bool" where
  "matches s k bs t \<longleftrightarrow> key_a (winfo s t) = fst k \<and> key_b (winfo s t) = snd k \<and> has_flag (bitset (winfo s t)) bs"

definition wake_one :: "nat \<Rightarrow> futexes \<Rightarrow> futexes" where
  "wake_one t s = (upd_waiter t (\<lambda>w. w\<lparr>woken := True\<rparr>) s)\<lparr>running := (running s)(t := True)\<rparr>"

text \<open>The rest of the bucket, the number woken, and the state.\<close>

fun wake_loop :: "u64 \<times> u64 \<Rightarrow> int \<Rightarrow> u32 \<Rightarrow> int \<Rightarrow> nat list \<Rightarrow> futexes \<Rightarrow> nat list \<times> int \<times> futexes" where
  "wake_loop k n bs c [] s = ([], c, s)"
| "wake_loop k n bs c (t # ts) s =
     (if c \<ge> n then (t # ts, c, s)
      else if \<not> matches s k bs t then (case wake_loop k n bs c ts s of (l, c', s') \<Rightarrow> (t # l, c', s'))
      else wake_loop k n bs (c + 1) ts (wake_one t s))"

definition wake_key :: "u64 \<times> u64 \<Rightarrow> int \<Rightarrow> u32 \<Rightarrow> futexes \<Rightarrow> int \<times> futexes" where
  "wake_key k n bs s =
     (case wake_loop k n bs 0 (buckets s (hash k)) s of
        (l, c, s') \<Rightarrow> (c, s'\<lparr>buckets := (buckets s')(hash k := l)\<rparr>))"

definition futex_wake_bitset :: "fenv \<Rightarrow> u64 \<Rightarrow> int \<Rightarrow> u32 \<Rightarrow> bool \<Rightarrow> futexes \<Rightarrow> int sysres \<times> futexes" where
  "futex_wake_bitset env uaddr n bs priv s0 =
     (let s = ready s0 in
      if bs = 0 then (Inl EINVAL, s)
      else case make_key env uaddr priv of
        Inl e \<Rightarrow> (Inl e, s)
      | Inr k \<Rightarrow> (case wake_key k n bs s of (c, s') \<Rightarrow> (Inr c, s')))"

definition positive :: "int sysres \<Rightarrow> int" where
  "positive r = (case r of Inl e \<Rightarrow> 0 | Inr c \<Rightarrow> if c > 0 then c else 0)"

definition futex_wake :: "fenv \<Rightarrow> u64 \<Rightarrow> int \<Rightarrow> futexes \<Rightarrow> int \<times> futexes" where
  "futex_wake env uaddr n s =
     (case futex_wake_bitset env uaddr n FUTEX_BITSET_MATCH_ANY True s of
        (a, s1) \<Rightarrow> (case futex_wake_bitset env uaddr n FUTEX_BITSET_MATCH_ANY False s1 of
          (b, s2) \<Rightarrow> (positive a + positive b, s2)))"



section \<open>Requeueing\<close>

definition set_key :: "nat \<Rightarrow> u64 \<times> u64 \<Rightarrow> futexes \<Rightarrow> futexes" where
  "set_key t k = upd_waiter t (\<lambda>w. w\<lparr>key_a := fst k, key_b := snd k\<rparr>)"

text \<open>
  The safe iteration over the first bucket: \<open>seen\<close> are the entries behind the cursor and \<open>ts\<close> the ones from the cursor
  on.  The successor is read before an entry moves.  When both buckets are the same list, an entry moves to the
  end of it, ahead of the cursor again unless the cursor was at the last entry.  The result is the first bucket,
  what is appended to the second, the number moved, and the state.
\<close>

function requeue_loop ::
  "bool \<Rightarrow> u64 \<times> u64 \<Rightarrow> u64 \<times> u64 \<Rightarrow> int \<Rightarrow> int \<Rightarrow> nat list \<Rightarrow> nat list \<Rightarrow> nat list \<Rightarrow> futexes \<Rightarrow> nat list \<times> nat list \<times> int \<times> futexes" where
  "requeue_loop same k k2 n c seen [] dst s = (seen, dst, c, s)"
| "requeue_loop same k k2 n c seen (t # ts) dst s =
     (if c \<ge> n then (seen @ t # ts, dst, c, s)
      else if wkey s t \<noteq> k then requeue_loop same k k2 n c (seen @ [t]) ts dst s
      else if same then
        if ts = [] then (seen @ [t], dst, c + 1, set_key t k2 s)
        else requeue_loop same k k2 n (c + 1) seen (ts @ [t]) dst (set_key t k2 s)
      else requeue_loop same k k2 n (c + 1) seen ts (dst @ [t]) (set_key t k2 s))"
  by pat_completeness auto
termination
  by (relation "measures [\<lambda>(same, k, k2, n, c, seen, ts, dst, s). nat (n - c), \<lambda>(same, k, k2, n, c, seen, ts, dst, s). length ts]") auto

declare requeue_loop.simps [simp del]

definition requeue_key :: "u64 \<times> u64 \<Rightarrow> u64 \<times> u64 \<Rightarrow> int \<Rightarrow> futexes \<Rightarrow> int \<times> futexes" where
  "requeue_key k k2 n s =
     (case requeue_loop (hash k = hash k2) k k2 n 0 [] (buckets s (hash k)) [] s of
        (l, dst, c, s') \<Rightarrow>
          let s1 = s'\<lparr>buckets := (buckets s')(hash k := l)\<rparr>
          in (c, s1\<lparr>buckets := (buckets s1)(hash k2 := buckets s1 (hash k2) @ dst)\<rparr>))"

definition futex_requeue ::
  "fenv \<Rightarrow> u64 \<Rightarrow> int \<Rightarrow> u64 \<Rightarrow> int \<Rightarrow> bool \<Rightarrow> u32 \<Rightarrow> bool \<Rightarrow> futexes \<Rightarrow> int sysres \<times> futexes" where
  "futex_requeue env uaddr nwake uaddr2 nrequeue cmp cmpval priv s0 =
     (let s = ready s0 in
      case make_key env uaddr priv of
        Inl e \<Rightarrow> (Inl e, s)
      | Inr k \<Rightarrow>
          (case make_key env uaddr2 priv of
             Inl e \<Rightarrow> (Inl e, s)
           | Inr k2 \<Rightarrow>
               if cmp \<and> user_word env uaddr = None then (Inl EFAULT, s)
               else if cmp \<and> user_word env uaddr \<noteq> Some cmpval then (Inl EAGAIN, s)
               else (case wake_key k nwake FUTEX_BITSET_MATCH_ANY s of
                       (c, s1) \<Rightarrow> (case requeue_key k k2 nrequeue s1 of (c2, s2) \<Rightarrow> (Inr (c + c2), s2)))))"


section \<open>System call\<close>

definition NSEC_PER_SEC :: int where "NSEC_PER_SEC = 1000000000"

text \<open>The timeout: \<open>-1\<close> for none; \<open>ts\<close> is the time structure of the caller, if it can be read.\<close>

definition futex_timeout :: "int \<Rightarrow> u64 \<Rightarrow> u64 \<Rightarrow> (int \<times> int) option \<Rightarrow> int \<Rightarrow> int \<Rightarrow> errno + int" where
  "futex_timeout cmd op utime ts now_real now_mono =
     (if (cmd = FUTEX_WAIT \<or> cmd = FUTEX_WAIT_BITSET) \<and> utime \<noteq> 0 then
        (case ts of
           None \<Rightarrow> Inl EFAULT
         | Some (sec, nsec) \<Rightarrow>
             if sec < 0 \<or> nsec < 0 \<or> nsec \<ge> NSEC_PER_SEC then Inl EINVAL
             else let ns = (if sec > 1000000000 then 2 ^ 62 else sec * NSEC_PER_SEC + nsec);
                      now = (if has_flag op FUTEX_CLOCK_REALTIME then now_real else now_mono)
                  in Inr (if cmd = FUTEX_WAIT_BITSET then if ns > now then ns - now else 0 else ns))
      else Inr (-1))"

definition to_int :: "u64 \<Rightarrow> int" where
  "to_int x = sint (ucast x :: u32)"

definition waited :: "errno option \<times> futexes \<Rightarrow> int sysres \<times> futexes" where
  "waited r = (case r of (None, s) \<Rightarrow> (Inr 0, s) | (Some e, s) \<Rightarrow> (Inl e, s))"

definition sys_futex ::
  "fenv \<Rightarrow> nat \<Rightarrow> fsleep \<Rightarrow> (u64 \<Rightarrow> (int \<times> int) option) \<Rightarrow> int \<Rightarrow> int \<Rightarrow> u64 \<Rightarrow> u64 \<Rightarrow> u64 \<Rightarrow> u64 \<Rightarrow> u64 \<Rightarrow> u64 \<Rightarrow> futexes \<Rightarrow> int sysres \<times> futexes" where
  "sys_futex env me sl uts now_real now_mono uaddr op val utime uaddr2 val3 s =
     (let priv = has_flag op FUTEX_PRIVATE_FLAG;
          cmd = to_int (op AND NOT (FUTEX_PRIVATE_FLAG OR FUTEX_CLOCK_REALTIME))
      in case futex_timeout cmd op utime (uts utime) now_real now_mono of
           Inl e \<Rightarrow> (Inl e, s)
         | Inr timeout \<Rightarrow>
             if cmd = FUTEX_WAIT then waited (futex_wait env me uaddr (ucast val) timeout FUTEX_BITSET_MATCH_ANY priv sl s)
             else if cmd = FUTEX_WAIT_BITSET then waited (futex_wait env me uaddr (ucast val) timeout (ucast val3) priv sl s)
             else if cmd = FUTEX_WAKE then futex_wake_bitset env uaddr (to_int val) FUTEX_BITSET_MATCH_ANY priv s
             else if cmd = FUTEX_WAKE_BITSET then futex_wake_bitset env uaddr (to_int val) (ucast val3) priv s
             else if cmd = FUTEX_REQUEUE then futex_requeue env uaddr (to_int val) uaddr2 (to_int utime) False 0 priv s
             else if cmd = FUTEX_CMP_REQUEUE then futex_requeue env uaddr (to_int val) uaddr2 (to_int utime) True (ucast val3) priv s
             else (Inl ENOSYS, s))"



section \<open>Waking in order\<close>

lemma wake_one_frame [simp]:
  "key_a (winfo (wake_one t s) u) = key_a (winfo s u)" "key_b (winfo (wake_one t s) u) = key_b (winfo s u)"
  "bitset (winfo (wake_one t s) u) = bitset (winfo s u)" "buckets (wake_one t s) = buckets s"
  "futex_ready (wake_one t s) = futex_ready s" "woken (winfo (wake_one t s) u) = (u = t \<or> woken (winfo s u))"
  "running (wake_one t s) u = (u = t \<or> running s u)"
  by (simp_all add: wake_one_def upd_waiter_def)

lemma matches_wake [simp]: "matches (wake_one t s) k bs = matches s k bs"
  by (simp add: matches_def fun_eq_iff)

lemma wkey_wake [simp]: "wkey (wake_one t s) = wkey s"
  by (simp add: wkey_def fun_eq_iff)





section \<open>Nobody is forgotten\<close>











lemma set_key_frame [simp]:
  "buckets (set_key t k s) = buckets s" "futex_ready (set_key t k s) = futex_ready s"
  "woken (winfo (set_key t k s) u) = woken (winfo s u)" "running (set_key t k s) = running s"
  "wkey (set_key t k s) u = (if u = t then k else wkey s u)"
  by (simp_all add: set_key_def upd_waiter_def wkey_def)










lemma requeue_same_count:
  assumes "c \<le> n" "2 \<le> length ts" "\<And>t. t \<in> set ts \<Longrightarrow> wkey s t = k"
  shows "fst (snd (snd (requeue_loop True k k n c seen ts dst s))) = n"
  using assms
proof (induction "nat (n - c)" arbitrary: c ts s)
  case 0
  then show ?case by (cases ts) (simp_all add: requeue_loop.simps)
next
  case (Suc m)
  have lt: "\<not> n \<le> c" using Suc.hyps(2) by simp
  obtain t u us where ts: "ts = t # u # us" using Suc.prems(2) by (cases ts; cases "tl ts") auto
  have "requeue_loop True k k n c seen ts dst s = requeue_loop True k k n (c + 1) seen ((u # us) @ [t]) dst (set_key t k s)"
    using lt Suc.prems ts by (simp add: requeue_loop.simps(2) [where t = t])
  moreover have "fst (snd (snd (requeue_loop True k k n (c + 1) seen ((u # us) @ [t]) dst (set_key t k s)))) = n"
    using Suc.hyps(2) Suc.prems ts by (intro Suc.hyps(1)) auto
  ultimately show ?case by simp
qed

text \<open>
  C40: A requeue to the same address goes round in circles.  With two or more waiters the loop moves them to the end of
  the queue it walks over and meets them again, until the count asked for is reached: it returns that count, however
  few waiters there are, after as many passes with interrupts disabled.
\<close>

theorem futex_requeue_same_spins:
  assumes "futex_ready s" "make_key env uaddr priv = Inr k" "2 \<le> length (buckets s (hash k))"
    "\<forall>t \<in> set (buckets s (hash k)). wkey s t = k" "0 \<le> n"
  shows "fst (futex_requeue env uaddr 0 uaddr n False 0 priv s) = Inr n"
proof -
  let ?l = "requeue_loop True k k n 0 [] (buckets s (hash k)) [] s"
  have w: "wake_key k 0 FUTEX_BITSET_MATCH_ANY s = (0, s)" by (cases "buckets s (hash k)") (simp_all add: wake_key_def fun_upd_idem)
  have "fst (snd (snd ?l)) = n" using assms by (intro requeue_same_count) simp_all
  then have "fst (requeue_key k k n s) = n" by (auto simp: requeue_key_def Let_def split: prod.splits)
  then show ?thesis using assms(1,2) w by (auto simp: futex_requeue_def ready_def split: prod.splits)
qed


section \<open>Instances\<close>

definition demo_env :: fenv where
  "demo_env = \<lparr>mm_addr = 0x1000, user_phys = (\<lambda>a. Some a), user_word = (\<lambda>a. Some 7)\<rparr>"

definition demo_idle :: futexes where
  "demo_idle = \<lparr>buckets = (\<lambda>_. []), winfo = (\<lambda>_. \<lparr>key_a = 0, key_b = 0, bitset = 0, woken = False\<rparr>), running = (\<lambda>_. True), futex_ready = False\<rparr>"

text \<open>Threads 1 and 2 have queued at address 4096.\<close>

definition demo_wait :: futexes where
  "demo_wait = snd (wait_begin demo_env 2 4096 7 1 True (snd (wait_begin demo_env 1 4096 7 1 True demo_idle)))"

lemma demo_key: "make_key demo_env 4096 True = Inr (0x1000, 4096)"
  by (simp add: make_key_def demo_env_def has_flag_def)

lemma demo_begin: "futex_ready (ready s) \<and> wait_begin demo_env t 4096 7 1 True s = (None, queue_waiter t (0x1000, 4096) 1 (ready s))"
  by (simp add: wait_begin_def demo_key) (simp add: demo_env_def ready_def futex_init_def)

lemma demo_wait_eq:
  "demo_wait = queue_waiter 2 (0x1000, 4096) 1 (queue_waiter 1 (0x1000, 4096) 1 (futex_init demo_idle))"
  by (simp add: demo_wait_def demo_begin ready_def demo_idle_def futex_init_def queue_waiter_def)

lemma demo_wait_facts:
  "futex_ready demo_wait" "buckets demo_wait (hash (0x1000, 4096)) = [1, 2]" "wkey demo_wait 1 = (0x1000, 4096)"
  "wkey demo_wait 2 = (0x1000, 4096)" "bitset (winfo demo_wait 1) = 1" "bitset (winfo demo_wait 2) = 1" "\<not> woken (winfo demo_wait 2)"
  by (simp_all add: demo_wait_eq queue_waiter_def futex_init_def demo_idle_def wkey_def)



theorem futex_requeue_same_spins_witness:
  "fst (futex_requeue demo_env 4096 0 4096 1000000 False 0 True demo_wait) = Inr 1000000 \<and>
     length (buckets demo_wait (hash (0x1000, 4096))) = 2"
  using futex_requeue_same_spins [OF demo_wait_facts(1) demo_key, of 1000000] demo_wait_facts by simp

end
