(* ===== verification/Spec2Isabelle.thy ===== *)
theory Spec2Isabelle
  imports Olux_Prelude Olux_List Olux_Memblock Olux_Page_Alloc Olux_Kmalloc Olux_String Olux_Vsprintf
    Olux_Spinlock Olux_Sched Olux_Sched_Spec Olux_Wait Olux_Time Olux_Pipe Olux_Fdt Olux_Asid Olux_Vm
    Olux_Vm_Spec Olux_File Olux_Channel Olux_Futex
begin

text \<open>
  Verification library of the OluxOS kernel.

  \<^bold>\<open>The program.\<close>  OluxOS is a small kernel for 64-bit ARM, written in C.  At start-up it reads the device
  tree (lib/fdt.c), records the memory it finds (mm/memblock.c) and hands it to the page allocator
  (mm/page_alloc.c), on which the kernel heap (mm/kmalloc.c) and the user address spaces (mm/vm.c) are built.
  Threads are scheduled from per-CPU run queues (kernel/sched.c) protected by ticket locks
  (kernel/spinlock.c) and block on wait queues, mutexes and futexes (kernel/wait.c, kernel/futex.c); time and
  timers are in kernel/time.c.  Processes reach pipes (fs/pipe.c) and message channels (kernel/channel.c)
  through open files and descriptor tables (fs/file.c).  All paths here are relative to src/.

  \<^bold>\<open>Conventions.\<close>  Machine integers keep their width where overflow can matter (\<open>u64\<close>, \<open>u32\<close>, \<open>u16\<close>, \<open>u8\<close> are
  words) and are integers or natural numbers elsewhere; page frames, threads, CPUs and files are named by
  natural numbers.  A struct is a record, an intrusive list is the HOL list of its members once
  Olux\_List has shown that the link fields implement it.  A kernel panic is \<open>Inl message\<close>, an error code a value
  of the type \<open>errno\<close>.  An operation under a lock is one function of the state.  A thread that sleeps gives
  up the state: what it finds on wake-up is an argument (\<open>sleeps\<close>), or the operation is split into the steps
  of an inductive relation.  The outcome of small allocations is a list of booleans in the state.  Values
  from outside the sources (user memory, device registers, clocks, random numbers, the release
  operation of a driver) are arguments.

  \<^bold>\<open>The theories.\<close>

  \<^item> Olux\_Prelude: integer types, alignment macros, flag words, error codes, shared lemmas.
  \<^item> Olux\_List (include/olux/list.h): the link fields of circular lists and every operation on them, with
    the interface \<open>node_queue\<close> of a queue of nodes, interpreted on the operations of the source.  The lemmas
    show that each operation is the expected one on the list a ring represents.
  \<^item> Olux\_Memblock (mm/memblock.c): regions, insertion with merging, the early allocator, which never
    returns memory that is reserved or absent.
  \<^item> Olux\_Page\_Alloc (mm/page\_alloc.c, include/olux/mm.h): the buddy allocator.  Its invariant says that free
    blocks are aligned, disjoint, maximally merged and counted; the theorems show what allocation and
    freeing do to the set of free pages, that allocation fails only when no block is free, that freeing
    undoes allocating, and what the start-up code builds from the memory map.
  \<^item> Olux\_Kmalloc (mm/kmalloc.c): slabs whose free lists are stored in the free objects, on the memory of the
    page allocator; live objects are never handed out twice and freeing one keeps the others.
  \<^item> Olux\_String (lib/string.c) and Olux\_Vsprintf (lib/vsprintf.c): the word-wise copying routines are
    equal to their byte-wise specification; formatted output never passes the buffer, is the text of a
    reference definition, and printed numbers parse back.
  \<^item> Olux\_Spinlock (kernel/spinlock.c): ticket locks under any interleaving: mutual exclusion and order.
  \<^item> Olux\_Sched, Olux\_Sched\_Spec (kernel/sched.c, the scheduling calls of kernel/sys.c): run queues, wake-ups,
    switches, ticks, policies; in every reachable state no runnable thread is lost and the highest
    priority is chosen.
  \<^item> Olux\_Wait (kernel/wait.c, include/olux/wait.h): wait queues, completions and mutexes.  The locale \<open>waker\<close> is the
    interface to the scheduler, interpreted on \<open>try_to_wake_up\<close>.
  \<^item> Olux\_Time (kernel/time.c): clock reading, adjustment, timer queue and timer interrupt.
  \<^item> Olux\_Pipe (fs/pipe.c): the ring buffer with its wrapping positions is a queue of bytes; small writes are
    atomic whatever happens while the writer sleeps.
  \<^item> Olux\_Fdt (lib/fdt.c): the reader of flattened device trees against an encoder of trees, its bounds, and
    the malformed trees on which it does not return.
  \<^item> Olux\_Asid (arch/arm64/context.c): address space identifiers.
  \<^item> Olux\_Vm (mm/vm.c, mm/syscalls.c): areas, three-level page tables, faults, fork, the mmap family and its
    system calls.  Olux\_Vm\_Spec relates the list of areas to the function from page addresses to what is
    mapped there: unmapping and mapping are the expected updates of it, page tables never map a page
    outside every area, and after fork a write by either side is seen by that side only.
  \<^item> Olux\_File (fs/file.c, close, dup, dup3 and fcntl of fs/syscalls.c): reference counts and descriptor tables.
  \<^item> Olux\_Channel (kernel/channel.c): channels on top of the open files.  Order of delivery, the references
    messages carry, and that dropping a reference returns.
  \<^item> Olux\_Futex (kernel/futex.c): the two critical sections of a wait, wake-ups and requeues as steps; no
    waiter is forgotten in any reachable state.

  \<^bold>\<open>Loops, bounds and fuel.\<close>  Most loops are structural or carry a termination proof; the ones that need not end are
  partial functions into an option: path lookup and address translation in Olux\_Fdt, with the inputs on which
  they run for ever, the expired timers in Olux\_Time, and the drop of a reference in Olux\_Channel, whose
  recursion the references in flight bound.  Two loops of Olux\_Kmalloc run on fuel: the search of a free list, for
  which more than 256 steps are enough because a page holds at most 256 objects, and the choice of an
  order, for which the shift counts up to the width of the word are enough.  In Olux\_File and Olux\_Channel
  \<open>None\<close> also stands for an access outside an array.  Offsets into a device tree are unbounded, which is
  exact below 2 GiB; reference counts are unbounded, which is exact below \<open>2^31\<close> references; descriptor
  tables have fewer than \<open>2^31\<close> entries, as the int that counts them.

  \<^bold>\<open>Defects.\<close>  Some theorems show where the code does not do what it means to: the page allocator accepts some double
  frees, a huge request makes the heap shift past the width of the word, a thread that is not privileged
  gets a real-time policy, malformed device trees keep the reader busy for ever, range checks of mmap,
  mremap and brk wrap or are missing, dup3 and fcntl index a table with 64-bit descriptors checked as
  32-bit ones, a send to a closed channel drops its references twice, and a requeue of a futex to itself
  goes round in circles.

  \<^bold>\<open>Not modelled.\<close>  Caches, TLB maintenance and memory ordering: every access is sequentially consistent.  The
  virtual file system and the file systems behind it (fs/vfs.c, fs/tmpfs.c, fs/procfs.c, fs/userfs.c), program
  loading, processes and signals (kernel/exec.c, kernel/process.c, kernel/signal.c), which rest on it or on
  register frames built in assembly; kernel virtual areas (mm/vmalloc.c) and the kernel page tables; start-up,
  interrupt and console code; the drivers, which are written against hardware that is not in the
  repository; networking and the third-party stack it calls; user programs; and legacy/, which is not built.
\<close>

end
